(* ===== verification/Prelude.thy ===== *)
theory Prelude
  imports Main "HOL-Library.Word" "HOL-Library.Monad_Syntax"
begin

text \<open>
  Shared vocabulary of the development: the machine integers of the i686 target
  (\<open>uint8_t\<close>, \<open>uint16_t\<close>, \<open>uint32_t\<close> and \<open>size_t\<close>, pointers), the outcomes of kernel code that
  does not come back to its caller, for-loops as folds, and the arithmetic of 32-bit addresses
  that every component uses.

  Conventions: an operation that may run forever has an \<open>option\<close> result and \<open>None\<close> is "does not
  return"; an operation that may stop the kernel or leave defined behaviour has a \<open>fault + 'a\<close>
  result inside it.
\<close>

unbundle bit_operations_syntax

section \<open>Machine integers\<close>

type_synonym u8 = "8 word"
type_synonym u16 = "16 word"
type_synonym u32 = "32 word"

text \<open>The bytes of a string literal, without the terminating NUL.\<close>

abbreviation bytes_of :: "string \<Rightarrow> u8 list" where
  "bytes_of str \<equiv> map of_char str"

section \<open>Collections\<close>

named_theorems addr \<open>arithmetic of 32-bit addresses, read through unat\<close>
named_theorems frame \<open>what an operation leaves unchanged\<close>
named_theorems region \<open>regions of memory: membership, agreement, disjointness\<close>

section \<open>Outcomes that do not come back\<close>

text \<open>
  \<open>Halted\<close>: the code enters \<open>for (;;) hlt\<close>. \<open>NullCall\<close>: a call through a null function pointer.
  \<open>StackOverrun\<close>: a write past the end of a local array. \<open>TableOverrun\<close>: an index outside a
  static table. \<open>DivideError\<close>: an integer division by zero. A run that reaches one of the last four
  has no defined continuation.
\<close>

datatype fault = Halted | NullCall | StackOverrun | TableOverrun | DivideError

definition fbind :: "(fault + 'a) option \<Rightarrow> ('a \<Rightarrow> (fault + 'b) option) \<Rightarrow> (fault + 'b) option" where
  "fbind x f = (case x of
      None \<Rightarrow> None
    | Some (Inl e) \<Rightarrow> Some (Inl e)
    | Some (Inr a) \<Rightarrow> f a)"

lemma fbind_simps [simp]:
  "fbind None f = None"
  "fbind (Some (Inl e)) f = Some (Inl e)"
  "fbind (Some (Inr a)) f = f a"
  by (simp_all add: fbind_def)

text \<open>A call that cannot fault, inside code that can.\<close>

definition fret :: "'a option \<Rightarrow> (fault + 'a) option" where
  "fret x = map_option Inr x"

lemma fret_simps [simp]: "fret None = None" "fret (Some a) = Some (Inr a)"
  by (simp_all add: fret_def)

section \<open>Arithmetic of 32-bit words\<close>

lemma unat_u32_less [simp]: "unat (p :: u32) < 4294967296"
  using unsigned_less [of p] by simp

lemma unat_u32_le: "unat (p :: u32) \<le> 4294967295"
  using unat_u32_less [of p] by linarith

lemma unat_add_u32 [addr]:
  "unat p + unat q < 4294967296 \<Longrightarrow> unat (p + q :: u32) = unat p + unat q"
  by (simp add: unat_word_ariths)

lemma unat_add_wrap_u32:
  "4294967296 \<le> unat p + unat q \<Longrightarrow> unat (p + q :: u32) = unat p + unat q - 4294967296"
proof -
  assume "4294967296 \<le> unat p + unat q"
  moreover have "unat p + unat q < 2 * 4294967296"
    using unat_u32_less [of p] unat_u32_less [of q] by linarith
  ultimately show ?thesis
    by (simp add: unat_word_ariths mod_if [of "unat p + unat q"] mod_less)
qed

lemma unat_of_nat_u32 [addr]: "n < 4294967296 \<Longrightarrow> unat (of_nat n :: u32) = n"
  by (simp add: unat_of_nat)

lemma unat_add_of_nat [addr]:
  "unat p + n < 4294967296 \<Longrightarrow> unat (p + of_nat n :: u32) = unat p + n"
  by (subst unat_add_u32) (simp_all add: unat_of_nat_u32)

lemma unat_add_numeral [addr]:
  "unat p + numeral k < 4294967296 \<Longrightarrow> unat (p + numeral k :: u32) = unat p + numeral k"
  using unat_add_of_nat [of p "numeral k"] by simp

lemma unat_add_one [addr]:
  "unat p + 1 < 4294967296 \<Longrightarrow> unat (p + 1 :: u32) = unat p + 1"
  using unat_add_of_nat [of p 1] by simp

lemma unat_sub_u32 [addr]:
  "unat q \<le> unat p \<Longrightarrow> unat (p - q :: u32) = unat p - unat q"
  by (simp add: unat_sub word_le_nat_alt)

lemma unat_sub_numeral [addr]:
  "numeral k < (4294967296 :: nat) \<Longrightarrow> numeral k \<le> unat p \<Longrightarrow>
    unat (p - numeral k :: u32) = unat p - numeral k"
proof -
  assume k: "numeral k < (4294967296 :: nat)" and "numeral k \<le> unat p"
  have "unat (numeral k :: u32) = numeral k"
    using unat_of_nat_u32 [OF k] by simp
  with \<open>numeral k \<le> unat p\<close> show ?thesis
    by (simp add: unat_sub_u32)
qed

lemma u32_eq_iff: "p = q \<longleftrightarrow> unat p = unat (q :: u32)"
  by (simp add: word_unat_eq_iff)

lemma u32_less_iff: "p < q \<longleftrightarrow> unat p < unat (q :: u32)"
  by (simp add: word_less_nat_alt)

lemma u32_le_iff: "p \<le> q \<longleftrightarrow> unat p \<le> unat (q :: u32)"
  by (simp add: word_le_nat_alt)

lemma unat_eq_0_u32 [simp]: "unat (p :: u32) = 0 \<longleftrightarrow> p = 0"
  by (rule unat_eq_zero)

text \<open>Clearing the low \<open>n\<close> bits rounds down to a multiple of \<open>2 ^ n\<close>.\<close>

lemma unat_and_not_mask:
  "unat (x AND NOT (mask n) :: u32) = unat x div 2 ^ n * 2 ^ n"
proof -
  have "x = (x AND NOT (mask n)) OR take_bit n x"
    by (rule bit_word_eqI) (auto simp: bit_simps)
  also have "\<dots> = (x AND NOT (mask n)) + take_bit n x"
    by (rule disjunctive_add [symmetric]) (auto simp: bit_simps)
  finally have "x AND NOT (mask n) = x - take_bit n x"
    by (simp add: eq_diff_eq)
  moreover have t: "unat (take_bit n x) = unat x mod 2 ^ n"
    by (simp only: unsigned_take_bit_eq) (simp add: take_bit_eq_mod)
  moreover have "unat (x - take_bit n x) = unat x - unat (take_bit n x)"
    by (rule unat_sub_u32) (simp only: t mod_less_eq_dividend)
  ultimately have "unat (x AND NOT (mask n)) = unat x - unat x mod 2 ^ n"
    by simp
  then show ?thesis
    by (simp add: minus_mod_eq_div_mult)
qed

text \<open>Masks of the form \<open>~(2 ^ n - 1)\<close>, as the code writes them.\<close>

lemma unat_and_not_15: "unat (x AND NOT 15 :: u32) = unat x div 16 * 16"
  using unat_and_not_mask [of x 4] by (simp add: mask_eq_exp_minus_1)

section \<open>Loops\<close>

text \<open>\<open>for (i = 0; i < n; i++) f\<close> over a state, with a 32-bit counter that cannot wrap.\<close>

definition for_u32 :: "nat \<Rightarrow> (u32 \<Rightarrow> 's \<Rightarrow> 's) \<Rightarrow> 's \<Rightarrow> 's" where
  "for_u32 n f s = fold (\<lambda>i. f (of_nat i)) [0..<n] s"

lemma for_u32_0 [simp]: "for_u32 0 f s = s"
  by (simp add: for_u32_def)

lemma for_u32_Suc [simp]: "for_u32 (Suc n) f s = f (of_nat n) (for_u32 n f s)"
  by (simp add: for_u32_def)

text \<open>The simplifier leaves the body of a loop as the code wrote it.\<close>

lemma for_u32_weak_cong [cong]:
  "n = n' \<Longrightarrow> s = s' \<Longrightarrow> for_u32 n f s = for_u32 n' f s'"
  by simp

lemma for_u32_inv:
  "P s \<Longrightarrow> (\<And>i s. i < n \<Longrightarrow> P s \<Longrightarrow> P (f (of_nat i) s)) \<Longrightarrow> P (for_u32 n f s)"
  by (induction n) auto

end
