(* ===== verification/RAM.thy ===== *)
theory RAM
  imports Prelude
begin

text \<open>
  The memory of the machine: one byte per 32-bit address, little-endian 32-bit accesses, regions,
  and NUL-terminated strings. The kernel runs with an identity mapping of the first 16 MiB, so a
  pointer of the code is an address here and pointer arithmetic is addition of words, wrap-around
  included.
\<close>

section \<open>Bytes and 32-bit words\<close>

type_synonym ram = "u32 \<Rightarrow> u8"

definition load32 :: "ram \<Rightarrow> u32 \<Rightarrow> u32" where
  "load32 m p = ucast (m p) OR push_bit 8 (ucast (m (p + 1)))
     OR push_bit 16 (ucast (m (p + 2))) OR push_bit 24 (ucast (m (p + 3)))"

definition store32 :: "ram \<Rightarrow> u32 \<Rightarrow> u32 \<Rightarrow> ram" where
  "store32 m p v = m(p := ucast v, p + 1 := ucast (drop_bit 8 v),
     p + 2 := ucast (drop_bit 16 v), p + 3 := ucast (drop_bit 24 v))"

lemma load32_bytes:
  "ucast (ucast v :: u8) OR push_bit 8 (ucast (ucast (drop_bit 8 v) :: u8))
     OR push_bit 16 (ucast (ucast (drop_bit 16 v) :: u8))
     OR push_bit 24 (ucast (ucast (drop_bit 24 v) :: u8)) = (v :: u32)"
proof (rule bit_word_eqI)
  fix n
  assume "n < LENGTH(32)"
  then consider "n < 8" | "8 \<le> n \<and> n < 16" | "16 \<le> n \<and> n < 24" | "24 \<le> n \<and> n < 32"
    by fastforce
  then show "bit (ucast (ucast v :: u8) OR push_bit 8 (ucast (ucast (drop_bit 8 v) :: u8))
     OR push_bit 16 (ucast (ucast (drop_bit 16 v) :: u8))
     OR push_bit 24 (ucast (ucast (drop_bit 24 v) :: u8)) :: u32) n = bit v n"
    by cases (auto simp: bit_simps)
qed

lemma load32_store32 [simp]: "load32 (store32 m p v) p = v"
  by (simp add: load32_def store32_def load32_bytes)

section \<open>Regions\<close>

text \<open>\<open>in_region a p n\<close>: the address \<open>a\<close> is one of the \<open>n\<close> bytes at \<open>p\<close>.\<close>

definition in_region :: "u32 \<Rightarrow> u32 \<Rightarrow> nat \<Rightarrow> bool" where
  "in_region a p n \<longleftrightarrow> unat p \<le> unat a \<and> unat a < unat p + n"

text \<open>The \<open>n\<close> bytes at \<open>p\<close> do not run over the end of the address space.\<close>

definition fits :: "u32 \<Rightarrow> nat \<Rightarrow> bool" where
  "fits p n \<longleftrightarrow> unat p + n \<le> 4294967296"

definition apart :: "u32 \<Rightarrow> nat \<Rightarrow> u32 \<Rightarrow> nat \<Rightarrow> bool" where
  "apart p n q k \<longleftrightarrow> unat p + n \<le> unat q \<or> unat q + k \<le> unat p"

definition agree_on :: "ram \<Rightarrow> ram \<Rightarrow> u32 \<Rightarrow> nat \<Rightarrow> bool" where
  "agree_on m m' p n \<longleftrightarrow> (\<forall>a. in_region a p n \<longrightarrow> m' a = m a)"

definition bytes_at :: "ram \<Rightarrow> u32 \<Rightarrow> nat \<Rightarrow> u8 list" where
  "bytes_at m p n = map (\<lambda>i. m (p + of_nat i)) [0..<n]"

lemma length_bytes_at [simp]: "length (bytes_at m p n) = n"
  by (simp add: bytes_at_def)

lemma nth_bytes_at [simp]: "i < n \<Longrightarrow> bytes_at m p n ! i = m (p + of_nat i)"
  by (simp add: bytes_at_def)

lemma in_region_offset [region]:
  "fits p n \<Longrightarrow> i < n \<Longrightarrow> in_region (p + of_nat i) p n"
  by (simp add: in_region_def fits_def unat_add_of_nat)

lemma in_region_mono: "in_region a q k \<Longrightarrow> unat p \<le> unat q \<Longrightarrow> unat q + k \<le> unat p + n \<Longrightarrow> in_region a p n"
  by (auto simp: in_region_def)

lemma apart_in_region: "apart p n q k \<Longrightarrow> in_region a p n \<Longrightarrow> \<not> in_region a q k"
  by (auto simp: apart_def in_region_def)

lemma apart_sym: "apart p n q k \<longleftrightarrow> apart q k p n"
  by (auto simp: apart_def)

lemma agree_on_refl [simp]: "agree_on m m p n"
  by (simp add: agree_on_def)

lemma agree_on_trans: "agree_on m m' p n \<Longrightarrow> agree_on m' m'' p n \<Longrightarrow> agree_on m m'' p n"
  by (simp add: agree_on_def)

lemma agree_on_sub:
  "agree_on m m' p n \<Longrightarrow> unat p \<le> unat q \<Longrightarrow> unat q + k \<le> unat p + n \<Longrightarrow> agree_on m m' q k"
  by (auto simp: agree_on_def in_region_def)

lemma agree_onD: "agree_on m m' p n \<Longrightarrow> in_region a p n \<Longrightarrow> m' a = m a"
  by (simp add: agree_on_def)

lemma agree_on_offset: "agree_on m m' p n \<Longrightarrow> fits p n \<Longrightarrow> i < n \<Longrightarrow> m' (p + of_nat i) = m (p + of_nat i)"
  by (blast intro: agree_onD in_region_offset)

lemma agree_on_bytes_at: "agree_on m m' p n \<Longrightarrow> fits p n \<Longrightarrow> bytes_at m' p n = bytes_at m p n"
  by (auto simp: bytes_at_def agree_on_offset)

lemma agree_on_load32: "agree_on m m' p 4 \<Longrightarrow> fits p 4 \<Longrightarrow> load32 m' p = load32 m p"
  using agree_on_offset [of m m' p 4 0] agree_on_offset [of m m' p 4 1]
    agree_on_offset [of m m' p 4 2] agree_on_offset [of m m' p 4 3]
  by (simp add: load32_def)

lemma store32_other: "fits p 4 \<Longrightarrow> \<not> in_region a p 4 \<Longrightarrow> store32 m p v a = m a"
  using in_region_offset [of p 4 0] in_region_offset [of p 4 1]
    in_region_offset [of p 4 2] in_region_offset [of p 4 3]
  by (auto simp: store32_def)

lemma agree_on_store32: "fits p 4 \<Longrightarrow> apart p 4 q n \<Longrightarrow> agree_on m (store32 m p v) q n"
  by (auto simp: agree_on_def apart_sym intro!: store32_other dest: apart_in_region)

lemma load32_store32_other:
  "fits p 4 \<Longrightarrow> fits q 4 \<Longrightarrow> apart p 4 q 4 \<Longrightarrow> load32 (store32 m p v) q = load32 m q"
  by (rule agree_on_load32 [OF agree_on_store32])

lemma agree_on_upd: "\<not> in_region a p n \<Longrightarrow> agree_on m (m(a := v)) p n"
  by (auto simp: agree_on_def)

lemma agree_on_extend:
  "agree_on m m' p n \<Longrightarrow> \<not> in_region a p n \<Longrightarrow> agree_on m (m'(a := v)) p n"
  by (auto simp: agree_on_def)

section \<open>NUL-terminated strings\<close>

text \<open>\<open>cstring m p bs\<close>: at \<open>p\<close> stand the bytes \<open>bs\<close>, none of them NUL, and then a NUL.\<close>

fun cstring :: "ram \<Rightarrow> u32 \<Rightarrow> u8 list \<Rightarrow> bool" where
  "cstring m p [] \<longleftrightarrow> m p = 0"
| "cstring m p (b # bs) \<longleftrightarrow> m p = b \<and> b \<noteq> 0 \<and> cstring m (p + 1) bs"

lemma cstring_unique: "cstring m p bs \<Longrightarrow> cstring m p cs \<Longrightarrow> bs = cs"
  by (induction m p bs arbitrary: cs rule: cstring.induct; case_tac cs) auto

lemma cstring_iff:
  "cstring m p bs \<longleftrightarrow> (\<forall>i < length bs. m (p + of_nat i) = bs ! i) \<and>
     m (p + of_nat (length bs)) = 0 \<and> 0 \<notin> set bs"
proof (induction m p bs rule: cstring.induct)
  case (1 m p)
  then show ?case by simp
next
  case (2 m p b bs)
  then show ?case
    by (auto simp: less_Suc_eq_0_disj add.assoc ac_simps)
qed

lemma cstring_nonzero: "cstring m p bs \<Longrightarrow> 0 \<notin> set bs"
  by (simp add: cstring_iff)

lemma cstring_drop: "cstring m p bs \<Longrightarrow> i \<le> length bs \<Longrightarrow> cstring m (p + of_nat i) (drop i bs)"
  by (auto simp: cstring_iff ac_simps simp flip: of_nat_add dest: in_set_dropD)

lemma cstring_agree:
  "cstring m p bs \<Longrightarrow> agree_on m m' p n \<Longrightarrow> fits p n \<Longrightarrow> length bs < n \<Longrightarrow> cstring m' p bs"
  by (auto simp: cstring_iff agree_on_offset)

section \<open>Loops over regions\<close>

text \<open>
  The two loops that the C code writes over an array, for a store of any value type: fill a
  region with one value, and copy a region upwards, byte by byte. The copy reads what the loop
  has already written, so it is the simultaneous copy only where the target starts below the
  source or does not meet it.
\<close>

lemma in_region_Suc:
  "fits p (Suc n) \<Longrightarrow> in_region a p (Suc n) \<longleftrightarrow> in_region a p n \<or> a = p + of_nat n"
  by (auto simp: in_region_def fits_def u32_eq_iff unat_add_of_nat)

lemma fits_Suc: "fits p (Suc n) \<Longrightarrow> fits p n"
  by (simp add: fits_def)

lemma fill_loop:
  "fits p n \<Longrightarrow> for_u32 n (\<lambda>i m. m(p + i := v)) m a = (if in_region a p n then v else m a)"
proof (induction n)
  case 0
  then show ?case by (auto simp: in_region_def)
next
  case (Suc n)
  then show ?case by (auto simp: in_region_Suc fits_Suc)
qed

lemma copy_loop:
  assumes "fits p n" and "fits q n" and "unat p \<le> unat q \<or> apart p n q n"
  shows "for_u32 n (\<lambda>i m. m(p + i := m (q + i))) m a =
    (if in_region a p n then m (q + (a - p)) else m a)"
  using assms
proof (induction n arbitrary: a)
  case 0
  then show ?case by (auto simp: in_region_def)
next
  case (Suc n)
  have "fits p n" and "fits q n" and "unat p \<le> unat q \<or> apart p n q n"
    using Suc.prems by (auto simp: fits_def apart_def)
  note IH = Suc.IH [OF this]
  have "\<not> in_region (q + of_nat n) p n"
    using Suc.prems by (auto simp: in_region_def fits_def apart_def unat_add_of_nat)
  then have "for_u32 n (\<lambda>i m. m(p + i := m (q + i))) m (q + of_nat n) = m (q + of_nat n)"
    by (simp add: IH)
  then show ?case
    using Suc.prems by (auto simp: in_region_Suc IH)
qed

end
