(* ===== verification/Port_IO.thy ===== *)
theory Port_IO
  imports Prelude
begin

text \<open>
  Port I/O (\<open>src/kernel/port_io.cpp\<close>). The devices behind the ports are not code of the
  repository: the value a device returns is a function of everything that happened on the ports
  before and of the port that is read (\<open>io_dev\<close> for byte reads, \<open>io_devw\<close> for word reads), a
  parameter of every state. What the kernel does to the devices is the log of its accesses,
  newest first.
\<close>

datatype io_event = Out u16 u8 | In u16 u8 | InW u16 u16

record io_state =
  io_dev :: "io_event list \<Rightarrow> u16 \<Rightarrow> u8"
  io_devw :: "io_event list \<Rightarrow> u16 \<Rightarrow> u16"
  io_log :: "io_event list"

definition outb :: "u16 \<Rightarrow> u8 \<Rightarrow> 'a io_state_scheme \<Rightarrow> 'a io_state_scheme" where
  "outb port v s = s\<lparr>io_log := Out port v # io_log s\<rparr>"

definition inb :: "u16 \<Rightarrow> 'a io_state_scheme \<Rightarrow> u8 \<times> 'a io_state_scheme" where
  "inb port s = (let v = io_dev s (io_log s) port in (v, s\<lparr>io_log := In port v # io_log s\<rparr>))"

definition inw :: "u16 \<Rightarrow> 'a io_state_scheme \<Rightarrow> u16 \<times> 'a io_state_scheme" where
  "inw port s = (let v = io_devw s (io_log s) port in (v, s\<lparr>io_log := InW port v # io_log s\<rparr>))"

definition io_wait :: "'a io_state_scheme \<Rightarrow> 'a io_state_scheme" where
  "io_wait s = outb 0x80 0 s"

lemma outb_sel [simp]:
  "io_log (outb p v s) = Out p v # io_log s"
  "io_dev (outb p v s) = io_dev s"
  "io_devw (outb p v s) = io_devw s"
  by (simp_all add: outb_def)

lemma io_wait_sel [simp]:
  "io_log (io_wait s) = Out 0x80 0 # io_log s"
  "io_dev (io_wait s) = io_dev s"
  "io_devw (io_wait s) = io_devw s"
  by (simp_all add: io_wait_def)

lemma inb_sel [simp]:
  "fst (inb p s) = io_dev s (io_log s) p"
  "io_log (snd (inb p s)) = In p (io_dev s (io_log s) p) # io_log s"
  "io_dev (snd (inb p s)) = io_dev s"
  "io_devw (snd (inb p s)) = io_devw s"
  by (simp_all add: inb_def Let_def)

end
