(* ===== verification/Vga.thy ===== *)
theory Vga
  imports RAM Port_IO
begin

text \<open>
  The text console (\<open>include/kernel/vga.h\<close>, \<open>src/kernel/vga.cpp\<close>): class \<open>Terminal\<close> with its
  cursor, its colour and the character cells of the VGA buffer, every method translated. The
  second half gives the console's contract: a screen as one list of cells with a linear position,
  and the proof that every method implements it.
\<close>

section \<open>State\<close>

datatype vga_color =
    VGA_COLOR_BLACK | VGA_COLOR_BLUE | VGA_COLOR_GREEN | VGA_COLOR_CYAN
  | VGA_COLOR_RED | VGA_COLOR_MAGENTA | VGA_COLOR_BROWN | VGA_COLOR_LIGHT_GREY
  | VGA_COLOR_DARK_GREY | VGA_COLOR_LIGHT_BLUE | VGA_COLOR_LIGHT_GREEN | VGA_COLOR_LIGHT_CYAN
  | VGA_COLOR_LIGHT_RED | VGA_COLOR_LIGHT_MAGENTA | VGA_COLOR_LIGHT_BROWN | VGA_COLOR_WHITE

fun color_code :: "vga_color \<Rightarrow> u32" where
  "color_code VGA_COLOR_BLACK = 0"
| "color_code VGA_COLOR_BLUE = 1"
| "color_code VGA_COLOR_GREEN = 2"
| "color_code VGA_COLOR_CYAN = 3"
| "color_code VGA_COLOR_RED = 4"
| "color_code VGA_COLOR_MAGENTA = 5"
| "color_code VGA_COLOR_BROWN = 6"
| "color_code VGA_COLOR_LIGHT_GREY = 7"
| "color_code VGA_COLOR_DARK_GREY = 8"
| "color_code VGA_COLOR_LIGHT_BLUE = 9"
| "color_code VGA_COLOR_LIGHT_GREEN = 10"
| "color_code VGA_COLOR_LIGHT_CYAN = 11"
| "color_code VGA_COLOR_LIGHT_RED = 12"
| "color_code VGA_COLOR_LIGHT_MAGENTA = 13"
| "color_code VGA_COLOR_LIGHT_BROWN = 14"
| "color_code VGA_COLOR_WHITE = 15"

text \<open>
  The terminal sits on the I/O state because its methods program the cursor registers. The field
  \<open>tbuf\<close> is the array of 16-bit cells that the member \<open>buffer\<close> points to: \<open>tbuf t i\<close> is
  \<open>buffer[i]\<close>. It is a store over all indices, so that a write outside the screen would be
  visible.
\<close>

record terminal = io_state +
  trow :: u32
  tcol :: u32
  tcolor :: u8
  tbuf :: "u32 \<Rightarrow> u16"

abbreviation (input) VGA_WIDTH :: "'a::numeral" where "VGA_WIDTH \<equiv> 80"
abbreviation (input) VGA_HEIGHT :: "'a::numeral" where "VGA_HEIGHT \<equiv> 25"

section \<open>Methods\<close>

definition make_color :: "vga_color \<Rightarrow> vga_color \<Rightarrow> u8" where
  "make_color fg bg = ucast (color_code fg OR push_bit 4 (color_code bg))"

definition make_entry :: "u8 \<Rightarrow> u8 \<Rightarrow> u16" where
  "make_entry uc color = ucast (ucast uc OR push_bit 8 (ucast color) :: u32)"

text \<open>The doubly nested loop that \<open>initialize\<close> and \<open>clear\<close> both write.\<close>

definition blank_loop :: "u16 \<Rightarrow> (u32 \<Rightarrow> u16) \<Rightarrow> (u32 \<Rightarrow> u16)" where
  "blank_loop e b = for_u32 VGA_HEIGHT (\<lambda>y. for_u32 VGA_WIDTH
     (\<lambda>x b. b(y * VGA_WIDTH + x := e))) b"

definition term_initialize :: "terminal \<Rightarrow> terminal" where
  "term_initialize t = (let c = make_color VGA_COLOR_LIGHT_GREY VGA_COLOR_BLACK in
     t\<lparr>trow := 0, tcol := 0, tcolor := c, tbuf := blank_loop (make_entry 32 c) (tbuf t)\<rparr>)"

definition putentry_at :: "u8 \<Rightarrow> u8 \<Rightarrow> u32 \<Rightarrow> u32 \<Rightarrow> terminal \<Rightarrow> terminal" where
  "putentry_at c color x y t = (let index = y * VGA_WIDTH + x in
     t\<lparr>tbuf := (tbuf t)(index := make_entry c color)\<rparr>)"

definition update_cursor :: "terminal \<Rightarrow> terminal" where
  "update_cursor t = (let pos = ucast (trow t * VGA_WIDTH + tcol t) :: u16 in
     outb 0x3D5 (ucast (drop_bit 8 pos AND 0xFF)) (outb 0x3D4 0x0E
      (outb 0x3D5 (ucast (pos AND 0xFF)) (outb 0x3D4 0x0F t))))"

definition term_scroll :: "terminal \<Rightarrow> terminal" where
  "term_scroll t =
     (let b = for_u32 (VGA_HEIGHT - 1) (\<lambda>y. for_u32 VGA_WIDTH
                (\<lambda>x b. b(y * VGA_WIDTH + x := b ((y + 1) * VGA_WIDTH + x)))) (tbuf t);
          b = for_u32 VGA_WIDTH
                (\<lambda>x b. b((VGA_HEIGHT - 1) * VGA_WIDTH + x := make_entry 32 (tcolor t))) b
      in t\<lparr>tbuf := b\<rparr>)"

definition new_line :: "terminal \<Rightarrow> terminal" where
  "new_line t =
     (let t = t\<lparr>tcol := 0\<rparr>;
          t = t\<lparr>trow := trow t + 1\<rparr>;
          t = (if trow t = VGA_HEIGHT then (term_scroll t)\<lparr>trow := VGA_HEIGHT - 1\<rparr> else t)
      in update_cursor t)"

text \<open>\<open>Terminal::putchar\<close>: 8 is backspace, 10 newline.\<close>

definition term_putchar :: "u8 \<Rightarrow> terminal \<Rightarrow> terminal" where
  "term_putchar c t =
     (if c = 8 then
        (let t = (if 0 < tcol t then t\<lparr>tcol := tcol t - 1\<rparr>
                  else if 0 < trow t then t\<lparr>trow := trow t - 1, tcol := VGA_WIDTH - 1\<rparr>
                  else t)
         in update_cursor (putentry_at 32 (tcolor t) (tcol t) (trow t) t))
      else if c = 10 then new_line t
      else
        (let t = putentry_at c (tcolor t) (tcol t) (trow t) t;
             t = t\<lparr>tcol := tcol t + 1\<rparr>;
             t = (if tcol t = VGA_WIDTH then new_line t else t)
         in update_cursor t))"

definition setcolor :: "u8 \<Rightarrow> terminal \<Rightarrow> terminal" where
  "setcolor c t = t\<lparr>tcolor := c\<rparr>"

definition setfull_color :: "vga_color \<Rightarrow> vga_color \<Rightarrow> terminal \<Rightarrow> terminal" where
  "setfull_color fg bg t = t\<lparr>tcolor := make_color fg bg\<rparr>"

text \<open>
  \<open>Terminal::writestring\<close> walks the string to its NUL. \<open>term_write\<close> is the walk over a string
  whose bytes are known (a literal, a local buffer), \<open>writestring\<close> the walk over memory: where
  no NUL follows, it does not return.
\<close>

definition term_write :: "u8 list \<Rightarrow> terminal \<Rightarrow> terminal" where
  "term_write bs t = fold term_putchar bs t"

partial_function (option) writestring :: "ram \<Rightarrow> u32 \<Rightarrow> terminal \<Rightarrow> terminal option" where
  "writestring m p t = (if m p = 0 then Some t else writestring m (p + 1) (term_putchar (m p) t))"

definition writeLine :: "ram \<Rightarrow> u32 \<Rightarrow> terminal \<Rightarrow> terminal option" where
  "writeLine m p t = do { t \<leftarrow> writestring m p t; Some (new_line t) }"

definition term_clear :: "terminal \<Rightarrow> terminal" where
  "term_clear t = t\<lparr>tbuf := blank_loop (make_entry 32 (tcolor t)) (tbuf t), trow := 0, tcol := 0\<rparr>"

lemma writestring_cstring: "cstring m p bs \<Longrightarrow> writestring m p t = Some (term_write bs t)"
proof (induction m p bs arbitrary: t rule: cstring.induct)
  case (1 m p)
  then show ?case by (simp add: writestring.simps [of m p] term_write_def)
next
  case (2 m p b bs)
  then show ?case by (simp add: writestring.simps [of m p] term_write_def)
qed

section \<open>The cells\<close>

lemma unat_cell:
  "unat y < 25 \<Longrightarrow> unat x < 80 \<Longrightarrow> unat (y * 80 + x :: u32) = unat y * 80 + unat x"
  by (simp add: unat_word_ariths)

lemma unat_row: "unat y \<le> 25 \<Longrightarrow> unat (y * 80 :: u32) = unat y * 80"
  by (simp add: unat_word_ariths)

lemma fill_rows:
  "n \<le> 25 \<Longrightarrow> for_u32 n (\<lambda>y. for_u32 80 (\<lambda>x b. b(y * 80 + x := e))) b i =
     (if unat i < n * 80 then e else b i)"
proof (induction n)
  case 0
  then show ?case by simp
next
  case (Suc n)
  have "fits (of_nat n * 80) 80"
    using Suc.prems by (simp add: fits_def unat_row unat_of_nat_u32)
  then show ?case
    using Suc by (auto simp: fill_loop in_region_def unat_row unat_of_nat_u32)
qed

lemma blank_loop_apply: "blank_loop e b i = (if unat i < 2000 then e else b i)"
  using fill_rows [of 25 e b i] by (simp add: blank_loop_def)

lemma copy_rows:
  "n \<le> 24 \<Longrightarrow> for_u32 n (\<lambda>y. for_u32 80 (\<lambda>x b. b(y * 80 + x := b ((y + 1) * 80 + x)))) b i =
     (if unat i < n * 80 then b (80 + i) else b i)"
proof (induction n arbitrary: i)
  case 0
  then show ?case by simp
next
  case (Suc n)
  let ?p = "of_nat n * 80 :: u32" and ?q = "(of_nat n + 1) * 80 :: u32"
  have p: "unat ?p = n * 80"
    using Suc.prems by (simp add: unat_row unat_of_nat_u32)
  have "unat (of_nat n + 1 :: u32) = n + 1"
    using Suc.prems by (simp add: unat_of_nat_u32 unat_add_one)
  then have q: "unat ?q = n * 80 + 80"
    using Suc.prems by (subst unat_row) simp_all
  have "fits ?p 80" "fits ?q 80" "unat ?p \<le> unat ?q"
    unfolding fits_def p q using Suc.prems by simp_all
  note copy = copy_loop [of ?p 80 ?q, OF this(1,2) disjI1 [OF this(3)]]
  have "for_u32 (Suc n) (\<lambda>y. for_u32 80 (\<lambda>x b. b(y * 80 + x := b ((y + 1) * 80 + x)))) b i =
    (if in_region i ?p 80 then for_u32 n (\<lambda>y. for_u32 80
       (\<lambda>x b. b(y * 80 + x := b ((y + 1) * 80 + x)))) b (?q + (i - ?p))
     else for_u32 n (\<lambda>y. for_u32 80
       (\<lambda>x b. b(y * 80 + x := b ((y + 1) * 80 + x)))) b i)"
    by (simp only: for_u32_Suc copy)
  moreover have "?q + (i - ?p) = 80 + i"
    by (simp add: algebra_simps)
  moreover have "unat (80 + i) = 80 + unat i" if "unat i < n * 80 + 80"
    using that Suc.prems by (subst unat_add_u32) simp_all
  ultimately show ?case
    using Suc by (auto simp: in_region_def p)
qed

lemma term_scroll_apply:
  "tbuf (term_scroll t) i =
    (if unat i < 1920 then tbuf t (80 + i)
     else if unat i < 2000 then make_entry 32 (tcolor t) else tbuf t i)"
proof -
  have "fits 1920 80" by (simp add: fits_def)
  then show ?thesis
    using copy_rows [of 24 "tbuf t" i]
    by (auto simp: term_scroll_def Let_def fill_loop in_region_def)
qed

lemma term_scroll_sel [simp]:
  "trow (term_scroll t) = trow t" "tcol (term_scroll t) = tcol t"
  "tcolor (term_scroll t) = tcolor t" "io_log (term_scroll t) = io_log t"
  by (simp_all add: term_scroll_def Let_def)

lemma update_cursor_sel [simp]:
  "trow (update_cursor t) = trow t" "tcol (update_cursor t) = tcol t"
  "tcolor (update_cursor t) = tcolor t" "tbuf (update_cursor t) = tbuf t"
  by (simp_all add: update_cursor_def outb_def Let_def)

lemma putentry_at_sel [simp]:
  "trow (putentry_at c k x y t) = trow t" "tcol (putentry_at c k x y t) = tcol t"
  "tcolor (putentry_at c k x y t) = tcolor t" "io_log (putentry_at c k x y t) = io_log t"
  "tbuf (putentry_at c k x y t) = (tbuf t)(y * 80 + x := make_entry c k)"
  by (simp_all add: putentry_at_def Let_def)

section \<open>The contract: a screen with one linear position\<close>

text \<open>
  The abstract console is the list of the 2000 cells and one position. Lines wrap at every
  multiple of 80; past the last cell the text moves up by one line.
\<close>

record screen =
  cells :: "u16 list"
  pos :: nat

definition scr_scroll :: "u16 \<Rightarrow> u16 list \<Rightarrow> u16 list" where
  "scr_scroll blank cs = drop 80 cs @ replicate 80 blank"

definition scr_goto :: "u16 \<Rightarrow> nat \<Rightarrow> screen \<Rightarrow> screen" where
  "scr_goto blank p s = (if p < 2000 then s\<lparr>pos := p\<rparr>
     else \<lparr>cells = scr_scroll blank (cells s), pos = 1920\<rparr>)"

definition scr_putchar :: "u8 \<Rightarrow> u8 \<Rightarrow> screen \<Rightarrow> screen" where
  "scr_putchar color c s = (let blank = make_entry 32 color in
     if c = 8 then (let p = pos s - 1 in \<lparr>cells = (cells s)[p := blank], pos = p\<rparr>)
     else if c = 10 then scr_goto blank ((pos s div 80 + 1) * 80) s
     else scr_goto blank (pos s + 1) (s\<lparr>cells := (cells s)[pos s := make_entry c color]\<rparr>))"

definition term_ok :: "terminal \<Rightarrow> bool" where
  "term_ok t \<longleftrightarrow> unat (trow t) < 25 \<and> unat (tcol t) < 80"

definition cursor :: "terminal \<Rightarrow> nat" where
  "cursor t = unat (trow t) * 80 + unat (tcol t)"

definition screen_of :: "terminal \<Rightarrow> screen" where
  "screen_of t = \<lparr>cells = map (\<lambda>i. tbuf t (of_nat i)) [0..<2000], pos = cursor t\<rparr>"

lemma screen_of_sel [simp]:
  "pos (screen_of t) = cursor t" "length (cells (screen_of t)) = 2000"
  "i < 2000 \<Longrightarrow> cells (screen_of t) ! i = tbuf t (of_nat i)"
  by (simp_all add: screen_of_def)

lemma cursor_less: "term_ok t \<Longrightarrow> cursor t < 2000"
  by (auto simp: term_ok_def cursor_def)

lemma cells_eqI:
  "length cs = 2000 \<Longrightarrow> (\<And>i. i < 2000 \<Longrightarrow> tbuf t (of_nat i) = cs ! i) \<Longrightarrow> cells (screen_of t) = cs"
  by (auto intro: nth_equalityI)

lemma cells_upd:
  assumes "unat p < 2000"
  shows "tbuf t = (tbuf u)(p := e) \<Longrightarrow> cells (screen_of t) = (cells (screen_of u))[unat p := e]"
proof (rule cells_eqI)
  fix i :: nat
  assume t: "tbuf t = (tbuf u)(p := e)" and i: "i < 2000"
  have "of_nat i = p \<longleftrightarrow> i = unat p"
    using i by (auto simp: unat_of_nat_u32)
  with t i assms show "tbuf t (of_nat i) = (cells (screen_of u))[unat p := e] ! i"
    by (auto simp: nth_list_update)
qed simp

lemma cells_cong: "tbuf t = tbuf u \<Longrightarrow> cells (screen_of t) = cells (screen_of u)"
  by (simp add: screen_of_def)

lemma cells_scroll:
  "tbuf t = tbuf (term_scroll u) \<Longrightarrow>
    cells (screen_of t) = scr_scroll (make_entry 32 (tcolor u)) (cells (screen_of u))"
proof (rule cells_eqI)
  fix i :: nat
  assume t: "tbuf t = tbuf (term_scroll u)" and i: "i < 2000"
  have "(80 + of_nat i :: u32) = of_nat (80 + i)"
    by simp
  then show "tbuf t (of_nat i) = scr_scroll (make_entry 32 (tcolor u)) (cells (screen_of u)) ! i"
    using i by (auto simp: t term_scroll_apply scr_scroll_def nth_append unat_of_nat_u32
      simp del: of_nat_add)
qed (simp add: scr_scroll_def)

lemma new_line_sel [simp]: "tcol (new_line t) = 0" "tcolor (new_line t) = tcolor t"
  by (simp_all add: new_line_def Let_def)

lemma tbuf_term_scroll_upd:
  "tbuf (term_scroll (t\<lparr>tcol := a, trow := r\<rparr>)) = tbuf (term_scroll t)"
  by (simp add: fun_eq_iff term_scroll_apply)

lemma trow_new_line: "trow (new_line t) = (if trow t = 24 then 24 else trow t + 1)"
  by (auto simp: new_line_def Let_def eq_diff_eq [symmetric])

lemma tbuf_new_line: "tbuf (new_line t) = (if trow t = 24 then tbuf (term_scroll t) else tbuf t)"
  by (auto simp: new_line_def Let_def eq_diff_eq [symmetric] tbuf_term_scroll_upd)

lemma screen_eqI: "cells s = cells s' \<Longrightarrow> pos s = pos s' \<Longrightarrow> s = (s' :: screen)"
  by simp

lemma unat_Suc_row: "unat r < 25 \<Longrightarrow> r \<noteq> 24 \<Longrightarrow> unat (r + 1 :: u32) = unat r + 1 \<and> unat r < 24"
  by (auto simp: u32_eq_iff unat_add_one)

lemma new_line_refines:
  assumes "unat (trow t) < 25"
  shows "screen_of (new_line t) =
    scr_goto (make_entry 32 (tcolor t)) ((unat (trow t) + 1) * 80) (screen_of t)"
proof (cases "trow t = 24")
  case True
  then have "cells (screen_of (new_line t)) = scr_scroll (make_entry 32 (tcolor t)) (cells (screen_of t))"
    by (intro cells_scroll) (simp add: tbuf_new_line)
  with True show ?thesis
    by (intro screen_eqI) (simp_all add: scr_goto_def cursor_def trow_new_line)
next
  case False
  with assms have "unat (trow t + 1) = unat (trow t) + 1" "unat (trow t) < 24"
    using unat_Suc_row by auto
  moreover have "cells (screen_of (new_line t)) = cells (screen_of t)"
    using False by (intro cells_cong) (simp add: tbuf_new_line)
  ultimately show ?thesis
    using False by (intro screen_eqI) (simp_all add: scr_goto_def cursor_def trow_new_line)
qed

lemma new_line_ok: "unat (trow t) < 25 \<Longrightarrow> term_ok (new_line t)"
  using unat_Suc_row [of "trow t"] by (auto simp: term_ok_def trow_new_line)

text \<open>\<open>putchar\<close> in its three cases.\<close>

lemma putchar_newline: "term_putchar 10 t = new_line t"
  by (simp add: term_putchar_def)

lemma unat_pred: "x \<noteq> 0 \<Longrightarrow> unat (x - 1 :: u32) = unat x - 1"
  by (simp add: unat_minus_one)

lemma backspace_steps:
  assumes "term_ok t"
  obtains r k where "unat r < 25" "unat k < 80" "unat r * 80 + unat k = cursor t - 1"
    "trow (term_putchar 8 t) = r" "tcol (term_putchar 8 t) = k"
    "tbuf (term_putchar 8 t) = (tbuf t)(r * 80 + k := make_entry 32 (tcolor t))"
proof
  define r where "r = (if tcol t = 0 \<and> trow t \<noteq> 0 then trow t - 1 else trow t)"
  define k where "k = (if tcol t \<noteq> 0 then tcol t - 1 else if trow t \<noteq> 0 then 79 else 0)"
  show "trow (term_putchar 8 t) = r" "tcol (term_putchar 8 t) = k"
    "tbuf (term_putchar 8 t) = (tbuf t)(r * 80 + k := make_entry 32 (tcolor t))"
    by (auto simp: term_putchar_def Let_def r_def k_def word_gt_0)
  have pos: "tcol t \<noteq> 0 \<Longrightarrow> 0 < unat (tcol t)" "trow t \<noteq> 0 \<Longrightarrow> 0 < unat (trow t)"
    by (simp_all add: unat_gt_0)
  show "unat r < 25" "unat k < 80"
    using assms by (auto simp: term_ok_def r_def k_def unat_pred)
  show "unat r * 80 + unat k = cursor t - 1"
    using pos by (cases "tcol t = 0"; cases "trow t = 0")
      (simp_all add: r_def k_def cursor_def unat_pred del: unat_gt_0)
qed

lemma putchar_backspace:
  assumes "term_ok t"
  shows "term_ok (term_putchar 8 t)"
    and "screen_of (term_putchar 8 t) = scr_putchar (tcolor t) 8 (screen_of t)"
proof -
  obtain r k where rk: "unat r < 25" "unat k < 80" and lin: "unat r * 80 + unat k = cursor t - 1"
    and sel: "trow (term_putchar 8 t) = r" "tcol (term_putchar 8 t) = k"
    "tbuf (term_putchar 8 t) = (tbuf t)(r * 80 + k := make_entry 32 (tcolor t))"
    using backspace_steps [OF assms] by blast
  from rk show "term_ok (term_putchar 8 t)"
    by (simp add: term_ok_def sel)
  have "unat (r * 80 + k) = cursor t - 1"
    using rk by (simp add: unat_cell lin)
  moreover have "cursor t - 1 < 2000"
    using cursor_less [OF assms] by simp
  ultimately show "screen_of (term_putchar 8 t) = scr_putchar (tcolor t) 8 (screen_of t)"
    using cells_upd [OF _ sel(3)] lin
    by (intro screen_eqI) (simp_all add: scr_putchar_def Let_def cursor_def sel)
qed

lemma putchar_printable:
  assumes "term_ok t" and c: "c \<noteq> 8" "c \<noteq> 10"
  shows "term_ok (term_putchar c t)"
    and "screen_of (term_putchar c t) = scr_putchar (tcolor t) c (screen_of t)"
proof -
  define u where "u = (putentry_at c (tcolor t) (tcol t) (trow t) t)\<lparr>tcol := tcol t + 1\<rparr>"
  have put: "term_putchar c t = update_cursor (if tcol u = 80 then new_line u else u)"
    using c by (simp add: term_putchar_def u_def Let_def)
  have rc: "unat (trow t) < 25" "unat (tcol t) < 80"
    using assms by (simp_all add: term_ok_def)
  then have cell: "unat (trow t * 80 + tcol t) = cursor t" and less: "cursor t < 2000"
    using cursor_less [OF assms(1)] by (simp_all add: unat_cell cursor_def)
  have col: "unat (tcol u) = unat (tcol t) + 1"
    using rc by (simp add: u_def unat_add_one)
  have row [simp]: "trow u = trow t" "tcolor u = tcolor t"
    by (simp_all add: u_def)
  have cells: "cells (screen_of u) = (cells (screen_of t))[cursor t := make_entry c (tcolor t)]"
    using cells_upd [of "trow t * 80 + tcol t" u t] less by (simp add: cell u_def)
  have screen: "screen_of (update_cursor v) = screen_of v" for v
    by (simp add: screen_of_def cursor_def)
  have "term_ok (if tcol u = 80 then new_line u else u)"
    using new_line_ok [of u] rc col by (cases "tcol u = 80") (auto simp: term_ok_def u32_eq_iff)
  then show "term_ok (term_putchar c t)"
    by (simp add: put term_ok_def)
  have spec: "scr_putchar (tcolor t) c (screen_of t) = scr_goto (make_entry 32 (tcolor t)) (cursor t + 1)
      (screen_of t\<lparr>cells := (cells (screen_of t))[cursor t := make_entry c (tcolor t)]\<rparr>)"
    using c by (simp add: scr_putchar_def Let_def)
  show "screen_of (term_putchar c t) = scr_putchar (tcolor t) c (screen_of t)"
  proof (cases "tcol u = 80")
    case True
    then have last: "cursor t + 1 = (unat (trow t) + 1) * 80"
      using col by (simp add: cursor_def u32_eq_iff)
    have "screen_of (term_putchar c t) =
        scr_goto (make_entry 32 (tcolor t)) ((unat (trow t) + 1) * 80) (screen_of u)"
      using True rc(1) by (simp add: put screen new_line_refines)
    moreover have "scr_goto e p (screen_of u) = scr_goto e p ((screen_of t)\<lparr>cells := cells (screen_of u)\<rparr>)" for e p
      by (simp add: scr_goto_def)
    ultimately show ?thesis
      by (simp only: spec last cells)
  next
    case False
    then have "cursor u = cursor t + 1" "cursor t + 1 < 2000"
      using rc col by (auto simp: cursor_def u32_eq_iff)
    then show ?thesis
      using False by (intro screen_eqI) (simp_all add: spec put screen scr_goto_def cells)
  qed
qed

text \<open>Together: the contract of \<open>putchar\<close>, and of every string that is written.\<close>

lemma tcolor_putchar [simp]: "tcolor (term_putchar c t) = tcolor t"
  by (simp add: term_putchar_def Let_def)

lemma putchar_ok: "term_ok t \<Longrightarrow> term_ok (term_putchar c t)"
  using putchar_backspace(1) putchar_printable(1) new_line_ok
  by (cases "c = 8"; cases "c = 10") (auto simp: putchar_newline term_ok_def)

lemma putchar_refines:
  assumes "term_ok t"
  shows "screen_of (term_putchar c t) = scr_putchar (tcolor t) c (screen_of t)"
proof (cases "c = 10")
  case True
  from assms have "cursor t div 80 = unat (trow t)"
    by (simp add: cursor_def term_ok_def)
  with assms True show ?thesis
    by (simp add: putchar_newline new_line_refines scr_putchar_def term_ok_def)
next
  case False
  with assms show ?thesis
    using putchar_backspace(2) putchar_printable(2) by (cases "c = 8") auto
qed

lemma term_write_simps [simp]:
  "term_write [] t = t"
  "term_write (b # bs) t = term_write bs (term_putchar b t)"
  by (simp_all add: term_write_def)

lemma tcolor_term_write [simp]: "tcolor (term_write bs t) = tcolor t"
  by (induction bs arbitrary: t) auto

lemma term_write_ok: "term_ok t \<Longrightarrow> term_ok (term_write bs t)"
  by (induction bs arbitrary: t) (auto simp: putchar_ok)

lemma term_write_refines:
  "term_ok t \<Longrightarrow> screen_of (term_write bs t) = fold (scr_putchar (tcolor t)) bs (screen_of t)"
  by (induction bs arbitrary: t) (auto simp: putchar_ok putchar_refines)

text \<open>A write stays within the 2000 cells of the screen.\<close>

lemma new_line_outside: "2000 \<le> unat i \<Longrightarrow> tbuf (new_line t) i = tbuf t i"
  by (simp add: tbuf_new_line term_scroll_apply)

lemma cell_inside: "unat r < 25 \<Longrightarrow> unat k < 80 \<Longrightarrow> 2000 \<le> unat i \<Longrightarrow> i \<noteq> r * 80 + (k :: u32)"
  using unat_cell [of r k] by auto

lemma putchar_outside:
  assumes ok: "term_ok t" and i: "2000 \<le> unat i"
  shows "tbuf (term_putchar c t) i = tbuf t i"
proof (cases "c = 8 \<or> c = 10")
  case True
  obtain r k where "unat r < 25" "unat k < 80"
    and "tbuf (term_putchar 8 t) = (tbuf t)(r * 80 + k := make_entry 32 (tcolor t))"
    using backspace_steps [OF ok] by blast
  with i True show ?thesis
    by (auto simp: putchar_newline new_line_outside dest: cell_inside)
next
  case False
  have "i \<noteq> trow t * 80 + tcol t"
    using ok i by (intro cell_inside) (simp_all add: term_ok_def)
  with i False show ?thesis
    by (auto simp: term_putchar_def Let_def new_line_outside)
qed

lemma term_write_outside:
  "term_ok t \<Longrightarrow> 2000 \<le> unat i \<Longrightarrow> tbuf (term_write bs t) i = tbuf t i"
  by (induction bs arbitrary: t) (auto simp: putchar_ok putchar_outside)

section \<open>The hardware cursor\<close>

text \<open>
  The CRT controller as its port writes drive it: a write to \<open>0x3D4\<close> selects a register, a write
  to \<open>0x3D5\<close> sets the selected one; registers \<open>0x0E\<close> and \<open>0x0F\<close> hold the cursor's position.
\<close>

primrec crt_state :: "io_event list \<Rightarrow> u8 \<times> (u8 \<Rightarrow> u8)" where
  "crt_state [] = (0, \<lambda>_. 0)"
| "crt_state (e # es) = (case e of
      Out p v \<Rightarrow> (if p = 0x3D4 then (v, snd (crt_state es))
        else if p = 0x3D5 then (fst (crt_state es), (snd (crt_state es))(fst (crt_state es) := v))
        else crt_state es)
    | _ \<Rightarrow> crt_state es)"

definition crt_cursor :: "io_event list \<Rightarrow> nat" where
  "crt_cursor es = unat (snd (crt_state es) 0x0E) * 256 + unat (snd (crt_state es) 0x0F)"

lemma split_u16:
  "unat (ucast (drop_bit 8 p AND 0xFF) :: u8) * 256 + unat (ucast (p AND 0xFF) :: u8) = unat (p :: u16)"
proof -
  have m: "(0xFF :: u16) = mask 8"
    by (simp add: mask_eq_exp_minus_1)
  have hi: "ucast (drop_bit 8 p AND 0xFF) = (ucast (drop_bit 8 p) :: u8)"
    unfolding m by (rule bit_word_eqI) (auto simp: bit_simps)
  have lo: "ucast (p AND 0xFF) = (ucast p :: u8)"
    unfolding m by (rule bit_word_eqI) (auto simp: bit_simps)
  have "unat (ucast (drop_bit 8 p) :: u8) = unat p div 256 mod 256"
    by (simp only: unsigned_ucast_eq unat_drop_bit_eq) (simp add: take_bit_eq_mod drop_bit_eq_div)
  moreover have "unat (ucast p :: u8) = unat p mod 256"
    by (simp add: unsigned_ucast_eq take_bit_eq_mod)
  moreover have "unat p div 256 < 256"
  proof -
    have "unat p < 2 ^ LENGTH(16)" by (rule unsigned_less)
    then show ?thesis by (simp add: less_mult_imp_div_less)
  qed
  ultimately show ?thesis
    by (simp add: hi lo)
qed

lemma update_cursor_log:
  assumes "term_ok t"
  shows "crt_cursor (io_log (update_cursor t)) = cursor t"
proof -
  have "unat (ucast (trow t * 80 + tcol t) :: u16) = cursor t"
    using assms cursor_less [OF assms]
    by (simp add: unsigned_ucast_eq unat_cell term_ok_def cursor_def take_bit_eq_mod)
  then show ?thesis
    by (simp add: update_cursor_def Let_def crt_cursor_def split_u16)
qed

lemma cursor_update_cursor [simp]: "cursor (update_cursor t) = cursor t"
  by (simp add: cursor_def)

lemma term_ok_update_cursor [simp]: "term_ok (update_cursor t) = term_ok t"
  by (simp add: term_ok_def)

text \<open>\<open>new_line\<close> and \<open>putchar\<close> both end in \<open>update_cursor\<close>.\<close>

lemma new_line_ends: "\<exists>u. new_line t = update_cursor u"
  by (auto simp: new_line_def Let_def)

lemma putchar_ends: "\<exists>u. term_putchar c t = update_cursor u"
  using new_line_ends [of t] by (auto simp: term_putchar_def Let_def)

lemma putchar_log:
  assumes "term_ok t"
  shows "crt_cursor (io_log (term_putchar c t)) = cursor (term_putchar c t)"
proof -
  obtain u where u: "term_putchar c t = update_cursor u"
    using putchar_ends by blast
  with putchar_ok [OF assms, of c] have "term_ok u" by simp
  then show ?thesis by (simp add: u update_cursor_log)
qed

lemma term_write_log:
  assumes "term_ok t" and "bs \<noteq> []"
  shows "crt_cursor (io_log (term_write bs t)) = cursor (term_write bs t)"
proof -
  obtain cs c where "bs = cs @ [c]"
    using assms(2) by (cases bs rule: rev_cases) auto
  then have "term_write bs t = term_putchar c (term_write cs t)"
    by (simp add: term_write_def)
  then show ?thesis
    using putchar_log term_write_ok [OF assms(1)] by simp
qed

text \<open>\<open>initialize\<close>: a blank screen with the cursor at its start.\<close>

lemma term_initialize_ok: "term_ok (term_initialize t)"
  by (simp add: term_initialize_def term_ok_def Let_def)

lemma term_initialize_screen:
  "screen_of (term_initialize t) = \<lparr>cells = replicate 2000 (make_entry 32 7), pos = 0\<rparr>"
  by (auto simp: screen_of_def cursor_def term_initialize_def Let_def make_color_def
      blank_loop_apply unat_of_nat_u32 intro: nth_equalityI)

lemma term_clear_screen:
  "screen_of (term_clear t) = \<lparr>cells = replicate 2000 (make_entry 32 (tcolor t)), pos = 0\<rparr>"
  by (auto simp: screen_of_def cursor_def term_clear_def
      blank_loop_apply unat_of_nat_u32 intro: nth_equalityI)

end
