(* ===== verification/Stdio.thy ===== *)
theory Stdio
  imports Vga "HOL-Library.Signed_Division"
begin

text \<open>
  Formatted output (\<open>libc/stdio/stdio.cpp\<close>) and the part of the machine that every component
  shares: the console, the memory and the addresses that the linker chose. The varargs of
  \<open>printf\<close> are the 32-bit words that the caller pushed.
\<close>

section \<open>The machine\<close>

text \<open>
  \<open>sym\<close> is the address of a static object of the kernel image (by its name in the source) and
  \<open>lit\<close> that of a string literal: link-time constants, parameters of the model.
\<close>

record machine =
  con :: terminal
  mem :: ram
  sym :: "string \<Rightarrow> u32"
  lit :: "string \<Rightarrow> u32"

section \<open>itoa\<close>

text \<open>The two bases that the calls pass.\<close>

datatype radix = Dec | Hex

fun base_of :: "radix \<Rightarrow> int" where
  "base_of Dec = 10"
| "base_of Hex = 16"

text \<open>
  \<open>digits[i]\<close>: the 17 bytes of the table and, for an index outside it, the memory next to it.
\<close>

definition digit_table :: "u8 list" where
  "digit_table = bytes_of ''0123456789ABCDEF'' @ [0]"

definition digit_at :: "ram \<Rightarrow> u32 \<Rightarrow> int \<Rightarrow> u8" where
  "digit_at m digits i =
     (if 0 \<le> i \<and> i < 17 then digit_table ! nat i else m (digits + of_int i))"

lemma sdiv_radix: "0 < v sdiv base_of r \<Longrightarrow> 0 < v \<and> v sdiv base_of r < v"
proof -
  assume pos: "0 < v sdiv base_of r"
  have b: "2 \<le> base_of r" by (cases r) auto
  have "0 < v"
  proof (rule ccontr)
    assume "\<not> 0 < v"
    with b have "v sdiv base_of r = - (- v div base_of r)"
      by (auto simp: signed_divide_int_def sgn_if)
    also have "\<dots> \<le> 0"
      using b \<open>\<not> 0 < v\<close> by (simp add: pos_imp_zdiv_nonneg_iff)
    finally show False using pos by simp
  qed
  moreover have "v div base_of r < v"
    using b \<open>0 < v\<close> by (intro int_div_less_self) auto
  ultimately show ?thesis
    using b by (simp add: signed_divide_int_def sgn_if)
qed

text \<open>
  The \<open>do ... while (value > 0)\<close> loop: the bytes of \<open>temp\<close> in the order they are stored. \<open>%\<close> and
  \<open>/\<close> of C truncate towards zero (\<open>smod\<close>, \<open>sdiv\<close>).
\<close>

function itoa_loop :: "ram \<Rightarrow> u32 \<Rightarrow> radix \<Rightarrow> int \<Rightarrow> u8 list" where
  "itoa_loop m digits r v =
     digit_at m digits (v smod base_of r) #
     (if 0 < v sdiv base_of r then itoa_loop m digits r (v sdiv base_of r) else [])"
  by pat_completeness auto

termination
  by (relation "measure (\<lambda>(m, d, r, v). nat v)") (use sdiv_radix in auto)

declare itoa_loop.simps [simp del]

text \<open>
  \<open>value = -value\<close> is written on the 32-bit word: the negation of \<open>INT_MIN\<close>, undefined in C, is
  taken as the machine computes it.
\<close>

definition itoa :: "ram \<Rightarrow> u32 \<Rightarrow> u32 \<Rightarrow> radix \<Rightarrow> u8 list" where
  "itoa m digits value r =
     (let is_negative = (r = Dec \<and> sint value < 0);
          value = (if is_negative then - value else value);
          temp = itoa_loop m digits r (sint value);
          temp = (if is_negative then temp @ [45] else temp)
      in rev temp)"

section \<open>printf\<close>

text \<open>The caller prints its \<open>buffer\<close> as a string, up to the first NUL.\<close>

definition c_str :: "u8 list \<Rightarrow> u8 list" where
  "c_str bs = takeWhile (\<lambda>b. b \<noteq> 0) bs"

text \<open>
  One turn of the loop per character. A format that ends in \<open>%\<close> steps over its NUL, and a missing
  argument is read from beyond the call's frame: neither has a defined result (\<open>None\<close>).
\<close>

fun vprintf :: "ram \<Rightarrow> u32 \<Rightarrow> string \<Rightarrow> u32 list \<Rightarrow> terminal \<Rightarrow> terminal option" where
  "vprintf m digits [] args t = Some t"
| "vprintf m digits (c # format) args t =
    (if c = CHR ''%'' then
      (case format of
        [] \<Rightarrow> None
      | k # format' \<Rightarrow>
        if k = CHR ''d'' \<or> k = CHR ''u'' then
          (case args of [] \<Rightarrow> None
           | num # args' \<Rightarrow> vprintf m digits format' args' (term_write (c_str (itoa m digits num Dec)) t))
        else if k = CHR ''x'' \<or> k = CHR ''p'' then
          (case args of [] \<Rightarrow> None
           | num # args' \<Rightarrow> vprintf m digits format' args'
               (term_write (c_str (itoa m digits num Hex)) (term_write (bytes_of ''0x'') t)))
        else if k = CHR ''s'' then
          (case args of [] \<Rightarrow> None
           | str # args' \<Rightarrow> do { t \<leftarrow> writestring m str t; vprintf m digits format' args' t })
        else if k = CHR ''c'' then
          (case args of [] \<Rightarrow> None
           | ch # args' \<Rightarrow> vprintf m digits format' args' (term_putchar (ucast ch) t))
        else if k = CHR ''%'' then vprintf m digits format' args (term_putchar 37 t)
        else vprintf m digits format' args (term_putchar (of_char k) (term_putchar 37 t)))
     else vprintf m digits format args (term_putchar (of_char c) t))"

declare vprintf.simps(2) [simp del]

definition printf :: "string \<Rightarrow> u32 list \<Rightarrow> 'a machine_scheme \<Rightarrow> 'a machine_scheme option" where
  "printf format args s =
     map_option (\<lambda>t. s\<lparr>con := t\<rparr>) (vprintf (mem s) (sym s ''digits'') format args (con s))"

definition putchar :: "u8 \<Rightarrow> 'a machine_scheme \<Rightarrow> 'a machine_scheme" where
  "putchar c s = s\<lparr>con := term_putchar c (con s)\<rparr>"

definition puts :: "u32 \<Rightarrow> 'a machine_scheme \<Rightarrow> 'a machine_scheme option" where
  "puts str s = map_option (\<lambda>t. s\<lparr>con := term_write [10] t\<rparr>) (writestring (mem s) str (con s))"

section \<open>What itoa writes\<close>

text \<open>The digits of a number, least significant first, and reading them back.\<close>

fun nat_digits :: "nat \<Rightarrow> nat \<Rightarrow> nat list" where
  "nat_digits b n = (if b \<le> 1 \<or> n < b then [n] else n mod b # nat_digits b (n div b))"

declare nat_digits.simps [simp del]

definition digit_value :: "u8 \<Rightarrow> int" where
  "digit_value c = (if c < 58 then uint c - 48 else uint c - 55)"

definition read_digits :: "int \<Rightarrow> u8 list \<Rightarrow> int" where
  "read_digits b cs = foldl (\<lambda>a c. a * b + digit_value c) 0 cs"

definition read_int :: "int \<Rightarrow> u8 list \<Rightarrow> int" where
  "read_int b cs = (case cs of [] \<Rightarrow> 0
     | c # ds \<Rightarrow> if c = 45 then - read_digits b ds else read_digits b cs)"

lemma digit_table_all:
  "\<forall>n \<in> set [0..<16]. digit_value (digit_table ! n) = int n \<and> digit_table ! n \<noteq> 45"
  by code_simp

lemma digit_value_table: "n < 16 \<Longrightarrow> digit_value (digit_table ! n) = int n"
  and digit_table_not_minus: "n < 16 \<Longrightarrow> digit_table ! n \<noteq> 45"
  using digit_table_all by simp_all

lemma nat_digits_less: "1 < b \<Longrightarrow> d \<in> set (nat_digits b n) \<Longrightarrow> d < b"
proof (induction b n rule: nat_digits.induct)
  case (1 b n)
  then show ?case
    by (subst (asm) (2) nat_digits.simps) (auto split: if_splits)
qed

lemma read_rev_digits:
  assumes "1 < b" "b \<le> 16"
  shows "read_digits (int b) (rev (map ((!) digit_table) (nat_digits b n))) = int n"
  using assms
proof (induction b n rule: nat_digits.induct)
  case (1 b n)
  show ?case
  proof (cases "n < b")
    case True
    with 1 show ?thesis
      by (simp add: nat_digits.simps [of b n] read_digits_def digit_value_table)
  next
    case False
    then have "read_digits (int b) (rev (map ((!) digit_table) (nat_digits b n))) =
        int (n div b) * int b + digit_value (digit_table ! (n mod b))"
      using 1 by (simp add: nat_digits.simps [of b n] read_digits_def)
    also have "digit_value (digit_table ! (n mod b)) = int (n mod b)"
      using 1(2,3) by (intro digit_value_table) (meson less_le_trans mod_less_divisor less_trans zero_less_one)
    also have "int (n div b) * int b + int (n mod b) = int n"
      by (metis div_mult_mod_eq of_nat_add of_nat_mult)
    finally show ?thesis .
  qed
qed

lemma nat_digits_length: "1 < b \<Longrightarrow> n < b ^ k \<Longrightarrow> 0 < k \<Longrightarrow> length (nat_digits b n) \<le> k"
proof (induction k arbitrary: n)
  case 0
  then show ?case by simp
next
  case (Suc k)
  show ?case
  proof (cases "n < b")
    case True
    then show ?thesis by (simp add: nat_digits.simps [of b n])
  next
    case False
    then have "0 < k" using Suc.prems by (cases k) auto
    moreover have "n div b < b ^ k"
      using Suc.prems by (simp add: less_mult_imp_div_less mult.commute)
    ultimately show ?thesis
      using False Suc by (simp add: nat_digits.simps [of b n])
  qed
qed

lemma itoa_loop_nonneg:
  "0 \<le> v \<Longrightarrow> itoa_loop m d r v = map ((!) digit_table) (nat_digits (nat (base_of r)) (nat v))"
proof (induction m d r v rule: itoa_loop.induct)
  case (1 m d r v)
  let ?b = "base_of r"
  have b: "2 \<le> ?b" "?b \<le> 16" by (cases r; simp)+
  have div: "v sdiv ?b = v div ?b" and md: "v smod ?b = v mod ?b"
    using 1(2) b by (auto simp: signed_divide_int_def signed_modulo_int_def sgn_if minus_mult_div_eq_mod)
  have "0 \<le> v mod ?b" "v mod ?b < 17"
    using b pos_mod_bound [of ?b v] by (simp, linarith)
  then have dig: "digit_at m d (v mod ?b) = digit_table ! nat (v mod ?b)"
    by (simp add: digit_at_def)
  have n: "nat (v mod ?b) = nat v mod nat ?b" "nat (v div ?b) = nat v div nat ?b"
    using 1(2) b by (simp_all add: nat_mod_distrib nat_div_distrib)
  show ?case
  proof (cases "v < ?b")
    case True
    then have "v div ?b = 0" "v mod ?b = v"
      using 1(2) by simp_all
    with True show ?thesis
      using 1(2) dig by (simp add: itoa_loop.simps [of m d r v] nat_digits.simps [of "nat ?b"] div md nat_less_eq_zless)
  next
    case False
    then have "0 < v div ?b"
      using b by (simp add: pos_imp_zdiv_pos_iff)
    moreover have "\<not> nat ?b \<le> 1 \<and> \<not> nat v < nat ?b"
      using False b by auto
    ultimately show ?thesis
      using 1 dig by (simp add: itoa_loop.simps [of m d r v] nat_digits.simps [of "nat ?b"] div md n)
  qed
qed

lemma sint_range_u32: "- 2147483648 \<le> sint (w :: u32)" "sint (w :: u32) < 2147483648"
  using sint_ge [of w] sint_lt [of w] by simp_all

lemma uint_u32: "0 \<le> uint w" "uint (w :: u32) < 4294967296"
proof -
  have "uint w < 2 ^ LENGTH(32)" by (rule unsigned_less)
  then show "uint w < 4294967296" by simp
qed simp

lemma sint_u32:
  "sint (w :: u32) = (if uint w < 2147483648 then uint w else uint w - 4294967296)"
proof -
  have range: "0 \<le> uint w" "uint w < 4294967296"
    using uint_u32 [of w] by simp_all
  have "sint w = sint (word_of_int (uint w) :: u32)"
    by simp
  also have "\<dots> = (uint w + 2147483648) mod 4294967296 - 2147483648"
    by (subst int_word_sint) simp
  also have "\<dots> = (if uint w < 2147483648 then uint w else uint w - 4294967296)"
  proof (cases "uint w < 2147483648")
    case True
    with range show ?thesis by (simp add: mod_pos_pos_trivial)
  next
    case False
    then have "(uint w + 2147483648) mod 4294967296 = (uint w - 2147483648 + 4294967296) mod 4294967296"
      by (simp add: algebra_simps)
    also have "\<dots> = (uint w - 2147483648) mod 4294967296"
      by (rule mod_add_self2)
    also have "\<dots> = uint w - 2147483648"
      using range False by (intro mod_pos_pos_trivial) auto
    finally show ?thesis using False by simp
  qed
  finally show ?thesis .
qed

lemma uint_less_iff_unat: "uint w < numeral k \<longleftrightarrow> unat (w :: u32) < numeral k"
  using of_nat_less_iff [of "unat w" "numeral k", where ?'a = int] by simp

lemma sint_neg_u32:
  assumes "w \<noteq> 0x80000000"
  shows "sint (- w :: u32) = - sint w"
proof -
  have "uint w \<noteq> uint (0x80000000 :: u32)"
    using assms by (simp only: word_uint_eq_iff not_False_eq_True)
  moreover have "- 2147483648 < uint w"
    using uint_u32(1) [of w] by linarith
  ultimately have "- 2147483648 < sint w"
    by (auto simp: sint_u32)
  then show ?thesis
    using sint_range_u32 [of w] by (simp add: sint_word_minus signed_take_bit_int_eq_self)
qed

lemma sint_unat_u32: "unat w < 2147483648 \<Longrightarrow> sint (w :: u32) = int (unat w)"
  by (simp add: sint_u32 uint_less_iff_unat)

lemma itoa_digits:
  assumes "0 \<le> sint w"
  shows "itoa m d w r = rev (map ((!) digit_table) (nat_digits (nat (base_of r)) (nat (sint w))))"
  using assms by (simp add: itoa_def itoa_loop_nonneg)

lemma itoa_negative:
  assumes "sint w < 0" "w \<noteq> 0x80000000"
  shows "itoa m d w Dec = 45 # rev (map ((!) digit_table) (nat_digits 10 (nat (- sint w))))"
  using assms by (simp add: itoa_def sint_neg_u32 itoa_loop_nonneg)

lemma nat_digits_nonempty: "nat_digits b n \<noteq> []"
  by (subst nat_digits.simps) simp

lemma last_nat_digits: "1 < b \<Longrightarrow> last (nat_digits b n) < b"
  using nat_digits_less nat_digits_nonempty last_in_set by metis

lemma read_int_digits:
  assumes "1 < b" "b \<le> 16"
  shows "read_int (int b) (rev (map ((!) digit_table) (nat_digits b n))) = int n"
proof -
  have "hd (rev (map ((!) digit_table) (nat_digits b n))) \<noteq> 45"
    using last_nat_digits [of b n] assms
    by (simp add: hd_rev last_map nat_digits_nonempty digit_table_not_minus)
  then show ?thesis
    using read_rev_digits [OF assms, of n]
    by (cases "rev (map ((!) digit_table) (nat_digits b n))") (auto simp: read_int_def read_digits_def)
qed

lemma itoa_dec_read: "w \<noteq> 0x80000000 \<Longrightarrow> read_int 10 (itoa m d w Dec) = sint w"
  using read_int_digits [of 10] read_rev_digits [of 10]
  by (cases "0 \<le> sint w") (auto simp: itoa_digits itoa_negative read_int_def)

lemma itoa_hex_read: "unat w < 2147483648 \<Longrightarrow> read_int 16 (itoa m d w Hex) = int (unat w)"
  using read_int_digits [of 16] by (simp add: itoa_digits sint_unat_u32)

text \<open>
  \<open>temp\<close> and the callers' \<open>buffer\<close> have 32 bytes: at most 11 are used, whatever the value.
\<close>

lemma itoa_loop_neg: "v < 0 \<Longrightarrow> itoa_loop m d r v = [digit_at m d (v smod base_of r)]"
  using sdiv_radix [of v r] by (subst itoa_loop.simps) auto

lemma itoa_loop_length: "v < 2147483648 \<Longrightarrow> length (itoa_loop m d r v) \<le> 10"
proof (cases "0 \<le> v")
  case True
  assume "v < 2147483648"
  then have "nat v < nat (base_of r) ^ 10" by (cases r) auto
  then show ?thesis
    using True nat_digits_length [of "nat (base_of r)" "nat v" 10]
    by (cases r) (simp_all add: itoa_loop_nonneg)
qed (simp add: itoa_loop_neg)

lemma itoa_length: "length (itoa m d w r) \<le> 11"
  using itoa_loop_length [OF sint_range_u32(2), of m d r w]
    itoa_loop_length [OF sint_range_u32(2), of m d r "- w"]
  by (auto simp: itoa_def Let_def)

text \<open>
  From \<open>2 ^ 31\<close> on, a hexadecimal value is negative as \<open>int32_t\<close>: one digit is written, and it is
  taken from in front of the table.
\<close>

lemma itoa_hex_negative:
  assumes "2147483648 \<le> uint w"
  shows "itoa m d w Hex = [digit_at m d (- ((4294967296 - uint w) mod 16))]"
proof -
  have s: "sint w = uint w - 4294967296" and neg: "uint w - 4294967296 < 0"
    using assms uint_u32 [of w] by (simp_all add: sint_u32)
  have "(uint w - 4294967296) smod 16 = - ((4294967296 - uint w) mod 16)"
    using neg by (simp add: signed_modulo_int_def signed_divide_int_def minus_mult_div_eq_mod [symmetric])
  then show ?thesis
    using neg by (simp add: itoa_def Let_def s itoa_loop_neg)
qed

section \<open>What printf writes\<close>

text \<open>
  The bytes that a call emits, as a function of its format, its arguments and the strings that the
  \<open>%s\<close> arguments point to (\<open>str\<close>), the numbers by the code's own conversion for every value. What
  the directives mean, without \<open>itoa\<close>, is \<open>formatted\<close> in \<open>Console_Props\<close>.
\<close>

fun emitted :: "ram \<Rightarrow> u32 \<Rightarrow> (u32 \<Rightarrow> u8 list option) \<Rightarrow> string \<Rightarrow> u32 list \<Rightarrow> u8 list option" where
  "emitted m digits str [] args = Some []"
| "emitted m digits str (c # format) args =
    (if c \<noteq> CHR ''%'' then map_option ((#) (of_char c)) (emitted m digits str format args)
     else case format of
        [] \<Rightarrow> None
      | k # format' \<Rightarrow>
        if k = CHR ''%'' then map_option ((#) 37) (emitted m digits str format' args)
        else if k \<in> set ''duxpsc'' then
          (case args of [] \<Rightarrow> None
           | a # args' \<Rightarrow> do {
               piece \<leftarrow> (if k = CHR ''s'' then str a
                 else if k = CHR ''c'' then Some [ucast a]
                 else if k = CHR ''d'' \<or> k = CHR ''u'' then Some (c_str (itoa m digits a Dec))
                 else Some (bytes_of ''0x'' @ c_str (itoa m digits a Hex)));
               rest \<leftarrow> emitted m digits str format' args';
               Some (piece @ rest) })
        else map_option ((@) [37, of_char k]) (emitted m digits str format' args))"

declare emitted.simps(2) [simp del]

lemma term_write_append [simp]: "term_write (xs @ ys) t = term_write ys (term_write xs t)"
  by (simp add: term_write_def)

text \<open>One directive at a time.\<close>

lemma format_induct [case_names Nil Char Stop Directive]:
  assumes "P []"
    and "\<And>c f. c \<noteq> CHR ''%'' \<Longrightarrow> P f \<Longrightarrow> P (c # f)"
    and "P [CHR ''%'']"
    and "\<And>k f. P f \<Longrightarrow> P (CHR ''%'' # k # f)"
  shows "P format"
proof (induction format rule: length_induct)
  case (1 format)
  show ?case
  proof (cases format)
    case Nil
    with assms(1) show ?thesis by simp
  next
    case (Cons c f)
    with 1 assms show ?thesis
      by (cases "c = CHR ''%''"; cases f) auto
  qed
qed

lemma vprintf_steps:
  "c \<noteq> CHR ''%'' \<Longrightarrow> vprintf m d (c # f) args t = vprintf m d f args (term_putchar (of_char c) t)"
  "vprintf m d [CHR ''%''] args t = None"
  "vprintf m d (CHR ''%'' # CHR ''%'' # f) args t = vprintf m d f args (term_putchar 37 t)"
  "k \<in> set ''du'' \<Longrightarrow> vprintf m d (CHR ''%'' # k # f) (a # args) t =
     vprintf m d f args (term_write (c_str (itoa m d a Dec)) t)"
  "k \<in> set ''xp'' \<Longrightarrow> vprintf m d (CHR ''%'' # k # f) (a # args) t =
     vprintf m d f args (term_write (c_str (itoa m d a Hex)) (term_write (bytes_of ''0x'') t))"
  "vprintf m d (CHR ''%'' # CHR ''s'' # f) (a # args) t =
     do { t \<leftarrow> writestring m a t; vprintf m d f args t }"
  "vprintf m d (CHR ''%'' # CHR ''c'' # f) (a # args) t =
     vprintf m d f args (term_putchar (ucast a) t)"
  "k \<notin> set ''duxpsc%'' \<Longrightarrow> vprintf m d (CHR ''%'' # k # f) args t =
     vprintf m d f args (term_putchar (of_char k) (term_putchar 37 t))"
  by (auto simp: vprintf.simps(2))

lemma emitted_steps:
  "c \<noteq> CHR ''%'' \<Longrightarrow> emitted m d str (c # f) args = map_option ((#) (of_char c)) (emitted m d str f args)"
  "emitted m d str [CHR ''%''] args = None"
  "emitted m d str (CHR ''%'' # CHR ''%'' # f) args = map_option ((#) 37) (emitted m d str f args)"
  "k \<in> set ''duxpsc'' \<Longrightarrow> emitted m d str (CHR ''%'' # k # f) [] = None"
  "k \<in> set ''du'' \<Longrightarrow> emitted m d str (CHR ''%'' # k # f) (a # args) =
     map_option ((@) (c_str (itoa m d a Dec))) (emitted m d str f args)"
  "k \<in> set ''xp'' \<Longrightarrow> emitted m d str (CHR ''%'' # k # f) (a # args) =
     map_option ((@) (bytes_of ''0x'' @ c_str (itoa m d a Hex))) (emitted m d str f args)"
  "emitted m d str (CHR ''%'' # CHR ''s'' # f) (a # args) =
     do { piece \<leftarrow> str a; map_option ((@) piece) (emitted m d str f args) }"
  "emitted m d str (CHR ''%'' # CHR ''c'' # f) (a # args) =
     map_option ((#) (ucast a)) (emitted m d str f args)"
  "k \<notin> set ''duxpsc%'' \<Longrightarrow> emitted m d str (CHR ''%'' # k # f) args =
     map_option ((@) [37, of_char k]) (emitted m d str f args)"
  by (auto simp: emitted.simps(2) map_conv_bind_option comp_def)

lemma vprintf_emits:
  assumes "\<And>p bs. str p = Some bs \<Longrightarrow> cstring m p bs"
  shows "emitted m d str format args = Some bs \<Longrightarrow> vprintf m d format args t = Some (term_write bs t)"
proof (induction format arbitrary: args t bs rule: format_induct)
  case (Directive k f)
  consider (arg) "k \<in> set ''duxpsc''" | (pc) "k = CHR ''%''" | (other) "k \<notin> set ''duxpsc%''"
    by auto
  then show ?case
  proof cases
    case arg
    with Directive.prems obtain a as where args: "args = a # as"
      by (cases args) (auto simp: emitted_steps)
    from arg consider "k \<in> set ''du''" | "k \<in> set ''xp''" | "k = CHR ''s''" | "k = CHR ''c''"
      by auto
    then show ?thesis
      using Directive writestring_cstring [OF assms]
      by cases (auto simp: args vprintf_steps emitted_steps bind_eq_Some_conv simp del: set_simps)
  qed (use Directive in \<open>auto simp: vprintf_steps emitted_steps simp del: set_simps\<close>)
qed (auto simp: vprintf_steps emitted_steps)

lemma printf_emits:
  assumes "\<And>p bs. str p = Some bs \<Longrightarrow> cstring (mem s) p bs"
    and "emitted (mem s) (sym s ''digits'') str format args = Some bs"
  shows "printf format args s = Some (s\<lparr>con := term_write bs (con s)\<rparr>)"
  using vprintf_emits [OF assms(1,2)] by (simp add: printf_def)

section \<open>Formats with numbers only\<close>

text \<open>
  Formats whose directives are numbers: with an argument for each, \<open>printf\<close> returns and touches
  nothing but the console.
\<close>

fun numeric :: "string \<Rightarrow> nat \<Rightarrow> bool" where
  "numeric [] n \<longleftrightarrow> True"
| "numeric (c # f) n \<longleftrightarrow>
    (if c = CHR ''%'' then
      (case f of [] \<Rightarrow> False
       | k # f' \<Rightarrow> k \<in> set ''duxpc'' \<and> 0 < n \<and> numeric f' (n - 1))
     else numeric f n)"

lemma numeric_vprintf:
  "numeric f (length args) \<Longrightarrow> \<exists>bs. vprintf m d f args t = Some (term_write bs t)"
proof (induction f arbitrary: args t rule: format_induct)
  case Nil
  then show ?case by (auto intro: exI [of _ "[]"])
next
  case (Char c f)
  obtain bs where "vprintf m d f args (term_putchar (of_char c) t) = Some (term_write bs (term_putchar (of_char c) t))"
    using Char by (auto split: if_splits)
  then show ?case
    using Char(1) by (intro exI [of _ "of_char c # bs"]) (simp add: vprintf_steps)
next
  case Stop
  then show ?case by simp
next
  case (Directive k f)
  from Directive.prems obtain a as where args: "args = a # as" and n: "numeric f (length as)"
    and k: "k \<in> set ''duxpc''"
    by (cases args) (auto simp del: set_simps split: if_splits)
  from k consider "k \<in> set ''du''" | "k \<in> set ''xp''" | "k = CHR ''c''"
    by auto
  then obtain cs where "\<And>t. vprintf m d (CHR ''%'' # k # f) args t = vprintf m d f as (term_write cs t)"
  proof cases
    case 1
    show ?thesis
      by (rule that [of "c_str (itoa m d a Dec)"]) (simp only: args vprintf_steps(4) [OF 1])
  next
    case 2
    show ?thesis
      by (rule that [of "bytes_of ''0x'' @ c_str (itoa m d a Hex)"])
        (simp only: args vprintf_steps(5) [OF 2] term_write_append)
  next
    case 3
    show ?thesis
      by (rule that [of "[ucast a]"]) (simp add: args 3 vprintf_steps)
  qed
  moreover obtain bs where "vprintf m d f as (term_write cs t) = Some (term_write bs (term_write cs t))"
    using Directive.IH [OF n] by blast
  ultimately show ?case
    by (intro exI [of _ "cs @ bs"]) simp
qed

lemma numeric_printf:
  "numeric f (length args) \<Longrightarrow> \<exists>bs. printf f args s = Some (s\<lparr>con := term_write bs (con s)\<rparr>)"
  using numeric_vprintf [of f args "mem s" "sym s ''digits''" "con s"] by (auto simp: printf_def)

section \<open>Programs that return\<close>

text \<open>
  \<open>returns r P\<close>: the operation comes back, with a result that satisfies \<open>P\<close>. The rules step
  through a sequence of calls; \<open>wp\<close> collects them.
\<close>

named_theorems wp \<open>rules for operations that return\<close>

definition returns :: "'a option \<Rightarrow> ('a \<Rightarrow> bool) \<Rightarrow> bool" where
  "returns r P \<longleftrightarrow> (\<exists>a. r = Some a \<and> P a)"

lemma returnsI [intro]: "r = Some a \<Longrightarrow> P a \<Longrightarrow> returns r P"
  by (simp add: returns_def)

lemma returnsE [elim]: "returns r P \<Longrightarrow> (\<And>a. r = Some a \<Longrightarrow> P a \<Longrightarrow> Q) \<Longrightarrow> Q"
  by (auto simp: returns_def)

lemma returns_Some [simp]: "returns (Some a) P \<longleftrightarrow> P a"
  and returns_None [simp]: "\<not> returns None P"
  by (simp_all add: returns_def)

lemma returns_mono: "returns r P \<Longrightarrow> (\<And>a. P a \<Longrightarrow> Q a) \<Longrightarrow> returns r Q"
  by (auto simp: returns_def)

lemma returns_bind [wp]: "returns r (\<lambda>a. returns (k a) P) \<Longrightarrow> returns (Option.bind r k) P"
  by (auto simp: returns_def)

lemma returns_map [wp]: "returns r (\<lambda>a. P (f a)) \<Longrightarrow> returns (map_option f r) P"
  by (auto simp: returns_def)

lemma returns_printf:
  "numeric f (length args) \<Longrightarrow> (\<And>out. P (s\<lparr>con := term_write out (con s)\<rparr>)) \<Longrightarrow> returns (printf f args s) P"
  using numeric_printf [of f args s] by (auto simp: returns_def)

lemma returns_printf_str:
  "(\<And>p bs. str p = Some bs \<Longrightarrow> cstring (mem s) p bs) \<Longrightarrow>
    emitted (mem s) (sym s ''digits'') str f args = Some out \<Longrightarrow>
    P (s\<lparr>con := term_write out (con s)\<rparr>) \<Longrightarrow> returns (printf f args s) P"
  using printf_emits [of str s f args out] by (auto simp: returns_def)

text \<open>
  \<open>prints s s'\<close>: from \<open>s\<close> to \<open>s'\<close> only output has happened. A run of calls to \<open>printf\<close> is one step
  of this relation.
\<close>

definition prints :: "'a machine_scheme \<Rightarrow> 'a machine_scheme \<Rightarrow> bool" where
  "prints s s' \<longleftrightarrow> (\<exists>out. s' = s\<lparr>con := term_write out (con s)\<rparr>)"

lemma prints_refl [simp, intro]: "prints s s"
  unfolding prints_def by (rule exI [of _ "[]"]) simp

lemma prints_write: "prints s s' \<Longrightarrow> prints s (s'\<lparr>con := term_write out (con s')\<rparr>)"
  unfolding prints_def
proof (elim exE)
  fix out'
  assume "s' = s\<lparr>con := term_write out' (con s)\<rparr>"
  then show "\<exists>out''. s'\<lparr>con := term_write out (con s')\<rparr> = s\<lparr>con := term_write out'' (con s)\<rparr>"
    by (intro exI [of _ "out' @ out"]) simp
qed

lemma printsE:
  assumes "prints s s'"
  obtains out where "s' = s\<lparr>con := term_write out (con s)\<rparr>"
  using assms by (auto simp: prints_def)

lemma prints_sel: "prints s s' \<Longrightarrow> mem s' = mem s \<and> sym s' = sym s \<and> lit s' = lit s \<and> more s' = more s"
  by (auto simp: prints_def)

lemma printf_step:
  assumes "numeric f (length args)" "prints s0 s" "\<And>s'. prints s0 s' \<Longrightarrow> returns (k s') P"
  shows "returns (printf f args s \<bind> k) P"
  using assms by (auto intro!: returns_bind returns_printf prints_write)

lemma printf_last:
  assumes "numeric f (length args)" "prints s0 s" "\<And>s'. prints s0 s' \<Longrightarrow> P s'"
  shows "returns (printf f args s) P"
  using assms by (auto intro!: returns_printf prints_write)

text \<open>A format with one \<open>%s\<close>, and formats without directives.\<close>

lemma vprintf_plain:
  "CHR ''%'' \<notin> set f \<Longrightarrow> vprintf m d (f @ g) args t = vprintf m d g args (term_write (bytes_of f) t)"
  by (induction f arbitrary: t) (auto simp: vprintf_steps)

lemma printf_s:
  assumes "CHR ''%'' \<notin> set f" "CHR ''%'' \<notin> set g" "cstring (mem s) p bs"
  shows "printf (f @ ''%s'' @ g) [p] s =
    Some (s\<lparr>con := term_write (bytes_of f @ bs @ bytes_of g) (con s)\<rparr>)"
proof -
  have "vprintf m d (f @ ''%s'' @ g) [p] t = (do { t \<leftarrow> writestring m p (term_write (bytes_of f) t);
      Some (term_write (bytes_of g) t) })" for m d t
    using vprintf_plain [OF assms(2), of m d "[]" "[]"]
    by (simp add: vprintf_plain [OF assms(1)] vprintf_steps)
  then show ?thesis
    by (simp add: printf_def writestring_cstring [OF assms(3)])
qed

lemma printf_plain:
  "CHR ''%'' \<notin> set f \<Longrightarrow> printf f args s = Some (s\<lparr>con := term_write (bytes_of f) (con s)\<rparr>)"
  using vprintf_plain [of f _ _ "[]"] by (simp add: printf_def)

end
