(* ===== verification/Gdt.thy ===== *)
theory Gdt
  imports Stdio
begin

text \<open>
  The global descriptor table (\<open>include/kernel/gdt.h\<close>, \<open>src/kernel/gdt.cpp\<close>): the packed entries as
  records, \<open>set_gdt_entry\<close>, \<open>gdt_flush\<close> and \<open>init_gdt\<close>; and the segments that the processor reads
  out of the entries. From here on the state records extend one another in the order in which
  \<open>kernel_main\<close> initialises the components.
\<close>

section \<open>State and functions\<close>

record gdt_entry =
  limit_low :: u16
  base_low :: u16
  base_mid :: u8
  access_byte :: u8
  granularity :: u8
  base_high :: u8

record gdt_ptr =
  gdt_limit :: u16
  gdt_base :: u32

text \<open>
  The static \<open>gdt\<close> and \<open>gdt_ptr\<close>, and what \<open>gdt_flush\<close> loads into the processor: the descriptor
  table register and the selectors of the data segment registers and of \<open>cs\<close>.
\<close>

record gdt_state = machine +
  gdt :: "gdt_entry list"
  gdt_desc :: gdt_ptr
  gdtr :: gdt_ptr
  data_selector :: u16
  code_selector :: u16

definition blank_gdt_entry :: gdt_entry where
  "blank_gdt_entry = \<lparr>limit_low = 0, base_low = 0, base_mid = 0, access_byte = 0, granularity = 0, base_high = 0\<rparr>"

definition set_gdt_entry :: "nat \<Rightarrow> u32 \<Rightarrow> u32 \<Rightarrow> u8 \<Rightarrow> u8 \<Rightarrow> gdt_entry list \<Rightarrow> gdt_entry list" where
  "set_gdt_entry index base limit acc gran table =
     (let e = table ! index;
          e = e\<lparr>limit_low := ucast (limit AND 0xFFFF)\<rparr>;
          e = e\<lparr>granularity := ucast (drop_bit 16 limit AND 0x0F)\<rparr>;
          e = e\<lparr>base_low := ucast (base AND 0xFFFF)\<rparr>;
          e = e\<lparr>base_mid := ucast (drop_bit 16 base AND 0xFF)\<rparr>;
          e = e\<lparr>base_high := ucast (drop_bit 24 base AND 0xFF)\<rparr>;
          e = e\<lparr>access_byte := acc\<rparr>;
          e = e\<lparr>granularity := granularity e OR (gran AND 0xF0)\<rparr>
      in table[index := e])"

text \<open>\<open>lgdt\<close>, the reload of the data segment registers with \<open>0x10\<close>, and the far return to \<open>0x08\<close>.\<close>

definition gdt_flush :: "'a gdt_state_scheme \<Rightarrow> 'a gdt_state_scheme" where
  "gdt_flush s = s\<lparr>gdtr := gdt_desc s, data_selector := 0x10, code_selector := 0x08\<rparr>"

definition init_gdt :: "'a gdt_state_scheme \<Rightarrow> 'a gdt_state_scheme option" where
  "init_gdt s = do {
     let s = s\<lparr>gdt := set_gdt_entry 0 0 0 0 0 (gdt s)\<rparr>;
     let s = s\<lparr>gdt := set_gdt_entry 1 0 0xFFFFF 0x9A 0xCF (gdt s)\<rparr>;
     let s = s\<lparr>gdt := set_gdt_entry 2 0 0xFFFFF 0x92 0xCF (gdt s)\<rparr>;
     let s = s\<lparr>gdt := set_gdt_entry 3 0 0xFFFFF 0xFA 0xCF (gdt s)\<rparr>;
     let s = s\<lparr>gdt := set_gdt_entry 4 0 0xFFFFF 0xF2 0xCF (gdt s)\<rparr>;
     let s = s\<lparr>gdt_desc := \<lparr>gdt_limit = 5 * 8 - 1, gdt_base = sym s ''gdt''\<rparr>\<rparr>;
     s \<leftarrow> printf ''[GDT] Base=0x%x, Limit=0x%x\<newline>'' [gdt_base (gdt_desc s), ucast (gdt_limit (gdt_desc s))] s;
     Some (gdt_flush s)
   }"

section \<open>What the processor reads\<close>

text \<open>The fields of a descriptor as the i386 decodes them.\<close>

definition seg_base :: "gdt_entry \<Rightarrow> u32" where
  "seg_base e = ucast (base_low e) OR push_bit 16 (ucast (base_mid e)) OR push_bit 24 (ucast (base_high e))"

definition seg_limit :: "gdt_entry \<Rightarrow> u32" where
  "seg_limit e = ucast (limit_low e) OR push_bit 16 (ucast (granularity e AND 0x0F))"

text \<open>The last address of the segment: the limit counts 4 KiB pages when bit 7 is set.\<close>

definition seg_last :: "gdt_entry \<Rightarrow> nat" where
  "seg_last e = (if bit (granularity e) 7 then unat (seg_limit e) * 4096 + 4095 else unat (seg_limit e))"

definition seg_present :: "gdt_entry \<Rightarrow> bool" where "seg_present e = bit (access_byte e) 7"
definition seg_dpl :: "gdt_entry \<Rightarrow> u8" where "seg_dpl e = drop_bit 5 (access_byte e) AND 3"
definition seg_code :: "gdt_entry \<Rightarrow> bool" where "seg_code e \<longleftrightarrow> bit (access_byte e) 4 \<and> bit (access_byte e) 3"
definition seg_data :: "gdt_entry \<Rightarrow> bool" where "seg_data e \<longleftrightarrow> bit (access_byte e) 4 \<and> \<not> bit (access_byte e) 3"

lemma seg_base_bytes:
  "ucast (ucast (b AND 0xFFFF) :: u16) OR push_bit 16 (ucast (ucast (drop_bit 16 b AND 0xFF) :: u8))
     OR push_bit 24 (ucast (ucast (drop_bit 24 b AND 0xFF) :: u8)) = (b :: u32)"
proof (rule bit_word_eqI)
  fix n
  assume "n < LENGTH(32)"
  then consider "n < 16" | "16 \<le> n \<and> n < 24" | "24 \<le> n \<and> n < 32"
    by fastforce
  moreover have m: "(0xFFFF :: u32) = mask 16" "(0xFF :: u32) = mask 8"
    by (simp_all add: mask_eq_exp_minus_1)
  ultimately show "bit (ucast (ucast (b AND 0xFFFF) :: u16) OR push_bit 16 (ucast (ucast (drop_bit 16 b AND 0xFF) :: u8))
     OR push_bit 24 (ucast (ucast (drop_bit 24 b AND 0xFF) :: u8)) :: u32) n = bit b n"
    unfolding m by cases (auto simp: bit_simps)
qed

lemma seg_limit_bits:
  assumes "drop_bit 20 l = (0 :: u32)"
  shows "ucast (ucast (l AND 0xFFFF) :: u16) OR
     push_bit 16 (ucast ((ucast (drop_bit 16 l AND 0x0F) OR (g AND 0xF0)) AND 0x0F :: u8)) = l"
proof (rule bit_word_eqI)
  fix n
  assume n: "n < LENGTH(32)"
  have m: "(0xFFFF :: u32) = mask 16" "(0x0F :: u32) = mask 4" "(0x0F :: u8) = mask 4"
    "(0xF0 :: u8) = push_bit 4 (mask 4)"
    by (simp_all add: mask_eq_exp_minus_1)
  have high: "\<not> bit l n" if "20 \<le> n" for n
  proof -
    have "bit l n = bit (drop_bit 20 l) (n - 20)"
      using that by (simp only: bit_drop_bit_eq comp_apply le_add_diff_inverse)
    then show ?thesis by (simp add: assms)
  qed
  from n consider "n < 16" | "16 \<le> n \<and> n < 20" | "20 \<le> n \<and> n < 32"
    by fastforce
  then show "bit (ucast (ucast (l AND 0xFFFF) :: u16) OR
     push_bit 16 (ucast ((ucast (drop_bit 16 l AND 0x0F) OR (g AND 0xF0)) AND 0x0F :: u8)) :: u32) n = bit l n"
    unfolding m by cases (use high in \<open>auto simp: bit_simps\<close>)
qed

lemma set_gdt_entry_fields:
  fixes base limit :: u32 and acc gran :: u8
  assumes "index < length table"
  defines "e \<equiv> set_gdt_entry index base limit acc gran table ! index"
  shows "seg_base e = base" "access_byte e = acc"
    "drop_bit 20 limit = 0 \<Longrightarrow> seg_limit e = limit"
    "drop_bit 4 (granularity e) = drop_bit 4 gran"
proof -
  show "seg_base e = base"
    using assms(1) by (simp add: e_def set_gdt_entry_def Let_def seg_base_def seg_base_bytes)
  show "access_byte e = acc"
    using assms(1) by (simp add: e_def set_gdt_entry_def Let_def)
  show "seg_limit e = limit" if "drop_bit 20 limit = 0"
    using assms(1) seg_limit_bits [OF that]
    by (simp add: e_def set_gdt_entry_def Let_def seg_limit_def)
  have m: "(0x0F :: u32) = mask 4" "(0xF0 :: u8) = push_bit 4 (mask 4)"
    by (simp_all add: mask_eq_exp_minus_1)
  have "drop_bit 4 (ucast (drop_bit 16 limit AND 0x0F) OR (gran AND 0xF0)) = drop_bit 4 (gran :: u8)"
    unfolding m by (rule bit_word_eqI) (auto simp: bit_simps dest: bit_imp_le_length)
  then show "drop_bit 4 (granularity e) = drop_bit 4 gran"
    using assms(1) by (simp add: e_def set_gdt_entry_def Let_def)
qed

lemma set_gdt_entry_other:
  "i \<noteq> index \<Longrightarrow> set_gdt_entry index base limit acc gran table ! i = table ! i"
  "length (set_gdt_entry index base limit acc gran table) = length table"
  by (simp_all add: set_gdt_entry_def Let_def)

end
