(* ===== verification/Idt.thy ===== *)
theory Idt
  imports Gdt
begin

text \<open>
  The interrupt descriptor table (\<open>include/kernel/idt.h\<close>, \<open>src/kernel/idt.cpp\<close>). The stub tables
  \<open>isr_stub_table\<close> and \<open>irq_stub_table\<close> are assembly: their words are read from memory at the
  address that the linker gave them.
\<close>

section \<open>State and functions\<close>

record idt_entry =
  offset_low :: u16
  selector :: u16
  zero_byte :: u8
  type_attr :: u8
  offset_high :: u16

record idt_descriptor =
  idt_limit :: u16
  idt_base :: u32

record idt_state = gdt_state +
  idt :: "idt_entry list"
  idt_desc :: idt_descriptor
  idtr :: idt_descriptor

definition idt_set_gate :: "u8 \<Rightarrow> u32 \<Rightarrow> u16 \<Rightarrow> u8 \<Rightarrow> idt_entry list \<Rightarrow> idt_entry list" where
  "idt_set_gate num offset sel flags table =
     (let e = table ! unat num;
          e = e\<lparr>offset_low := ucast (offset AND 0xFFFF)\<rparr>;
          e = e\<lparr>offset_high := ucast (drop_bit 16 offset AND 0xFFFF)\<rparr>;
          e = e\<lparr>selector := sel\<rparr>;
          e = e\<lparr>zero_byte := 0\<rparr>;
          e = e\<lparr>type_attr := flags OR 0x80\<rparr>
      in table[unat num := e])"

text \<open>\<open>load_idt\<close> is \<open>lidt\<close> on the descriptor. The loops run over the byte \<open>i\<close>.\<close>

definition load_idt :: "'a idt_state_scheme \<Rightarrow> 'a idt_state_scheme" where
  "load_idt s = s\<lparr>idtr := idt_desc s\<rparr>"

definition gate_loop :: "nat \<Rightarrow> nat \<Rightarrow> (nat \<Rightarrow> u32) \<Rightarrow> u16 \<Rightarrow> u8 \<Rightarrow> idt_entry list \<Rightarrow> idt_entry list" where
  "gate_loop a b off sel flags table = fold (\<lambda>i. idt_set_gate (of_nat i) (off i) sel flags) [a..<b] table"

definition init_idt :: "'a idt_state_scheme \<Rightarrow> 'a idt_state_scheme" where
  "init_idt s =
     (let s = s\<lparr>idt_desc := \<lparr>idt_limit = 8 * 256 - 1, idt_base = sym s ''idt''\<rparr>\<rparr>;
          s = s\<lparr>idt := gate_loop 0 256 (\<lambda>_. 0) 0 0 (idt s)\<rparr>;
          s = s\<lparr>idt := gate_loop 0 32
                 (\<lambda>i. load32 (mem s) (sym s ''isr_stub_table'' + 4 * of_nat i)) 0x08 0x8E (idt s)\<rparr>;
          s = s\<lparr>idt := gate_loop 32 48
                 (\<lambda>i. load32 (mem s) (sym s ''irq_stub_table'' + 4 * of_nat (i - 32))) 0x08 0x8E (idt s)\<rparr>
      in load_idt s)"

section \<open>What the processor reads\<close>

definition gate_offset :: "idt_entry \<Rightarrow> u32" where
  "gate_offset e = ucast (offset_low e) OR push_bit 16 (ucast (offset_high e))"

definition gate_present :: "idt_entry \<Rightarrow> bool" where "gate_present e = bit (type_attr e) 7"

text \<open>
  Type \<open>0xE\<close>, storage segment bit clear: a 32-bit interrupt gate. The two bits above are the
  privilege level from which \<open>int\<close> may use it.
\<close>

definition interrupt_gate :: "idt_entry \<Rightarrow> bool" where
  "interrupt_gate e \<longleftrightarrow> type_attr e AND 0x1F = 0x0E"

definition gate_dpl :: "idt_entry \<Rightarrow> u8" where
  "gate_dpl e = drop_bit 5 (type_attr e) AND 3"

definition make_gate :: "u32 \<Rightarrow> u16 \<Rightarrow> u8 \<Rightarrow> idt_entry" where
  "make_gate offset sel flags = \<lparr>offset_low = ucast (offset AND 0xFFFF), selector = sel, zero_byte = 0,
     type_attr = flags OR 0x80, offset_high = ucast (drop_bit 16 offset AND 0xFFFF)\<rparr>"

lemma gate_offset_make [simp]: "gate_offset (make_gate offset sel flags) = offset"
proof -
  have m: "(0xFFFF :: u32) = mask 16"
    by (simp add: mask_eq_exp_minus_1)
  have "ucast (ucast (offset AND 0xFFFF) :: u16) OR push_bit 16 (ucast (ucast (drop_bit 16 offset AND 0xFFFF) :: u16)) = offset"
  proof (rule bit_word_eqI)
    fix n
    assume "n < LENGTH(32)"
    then consider "n < 16" | "16 \<le> n \<and> n < 32" by fastforce
    then show "bit (ucast (ucast (offset AND 0xFFFF) :: u16) OR
       push_bit 16 (ucast (ucast (drop_bit 16 offset AND 0xFFFF) :: u16)) :: u32) n = bit offset n"
      unfolding m by cases (auto simp: bit_simps)
  qed
  then show ?thesis by (simp add: gate_offset_def make_gate_def)
qed

lemma make_gate_sel [simp]:
  "selector (make_gate offset sel flags) = sel"
  "type_attr (make_gate offset sel flags) = flags OR 0x80"
  by (simp_all add: make_gate_def)

lemma idt_set_gate_eq: "idt_set_gate num offset sel flags table = table[unat num := make_gate offset sel flags]"
  by (cases "table ! unat num") (simp add: idt_set_gate_def make_gate_def Let_def)

text \<open>A loop that sets the gates \<open>a\<close> to \<open>b - 1\<close>.\<close>

lemma gate_loop_nth:
  assumes "b \<le> 256" "length table = 256"
  shows "length (gate_loop a b off sel flags table) = 256 \<and>
    (\<forall>n < 256. gate_loop a b off sel flags table ! n =
      (if a \<le> n \<and> n < b then make_gate (off n) sel flags else table ! n))"
  using assms(1)
proof (induction b)
  case 0
  then show ?case by (simp add: gate_loop_def assms(2))
next
  case (Suc b)
  show ?case
  proof (cases "a \<le> b")
    case True
    then have "gate_loop a (Suc b) off sel flags table =
        idt_set_gate (of_nat b) (off b) sel flags (gate_loop a b off sel flags table)"
      by (simp add: gate_loop_def)
    moreover have "unat (of_nat b :: u8) = b"
      using Suc.prems by (simp add: unat_of_nat)
    ultimately show ?thesis
      using Suc True by (auto simp: idt_set_gate_eq nth_list_update)
  next
    case False
    then show ?thesis using assms(2) by (auto simp: gate_loop_def)
  qed
qed

definition idt_wanted :: "'a machine_scheme \<Rightarrow> nat \<Rightarrow> idt_entry" where
  "idt_wanted s n =
     (if n < 32 then make_gate (load32 (mem s) (sym s ''isr_stub_table'' + 4 * of_nat n)) 0x08 0x8E
      else if n < 48 then make_gate (load32 (mem s) (sym s ''irq_stub_table'' + 4 * of_nat (n - 32))) 0x08 0x8E
      else make_gate 0 0 0)"

lemma init_idt_sel [simp]:
  "mem (init_idt s) = mem s" "sym (init_idt s) = sym s" "con (init_idt s) = con s"
  by (simp_all add: init_idt_def load_idt_def Let_def)

lemma init_idt_gates:
  assumes "length (idt s) = 256" "n < 256"
  shows "length (idt (init_idt s)) = 256" "idt (init_idt s) ! n = idt_wanted s n"
  using assms by (simp_all add: init_idt_def load_idt_def Let_def idt_wanted_def gate_loop_nth)

end
