(* ===== verification/Isr.thy ===== *)
theory Isr
  imports Idt
begin

text \<open>
  Interrupt dispatch (\<open>include/kernel/isr.h\<close>, \<open>src/kernel/isr.cpp\<close>). The three functions that the
  kernel registers are named by a datatype; what a call of one does is an argument of the
  dispatchers (\<open>call\<close>), supplied by theory \<open>Kernel\<close> once the handlers are defined.
\<close>

section \<open>State and functions\<close>

record registers =
  ds_reg :: u32
  edi :: u32
  esi :: u32
  ebp :: u32
  esp :: u32
  ebx :: u32
  edx :: u32
  ecx :: u32
  eax :: u32
  int_no :: u32
  err_code :: u32
  eip :: u32
  cs_reg :: u32
  eflags :: u32
  useresp :: u32
  ss_reg :: u32

datatype isr_t = Page_fault_handler | Timer_handler | Keyboard_callback

text \<open>\<open>interrupt_handlers\<close>: one entry per byte, \<open>None\<close> the null pointer.\<close>

record isr_state = idt_state +
  interrupt_handlers :: "u8 \<Rightarrow> isr_t option"

definition register_interrupt_handler :: "u8 \<Rightarrow> isr_t \<Rightarrow> 'a isr_state_scheme \<Rightarrow> 'a isr_state_scheme" where
  "register_interrupt_handler n handler s =
     s\<lparr>interrupt_handlers := (interrupt_handlers s)(n \<mapsto> handler)\<rparr>"

text \<open>A byte to a port, and a byte from it, on the machine.\<close>

definition port_out :: "u16 \<Rightarrow> u8 \<Rightarrow> 'a machine_scheme \<Rightarrow> 'a machine_scheme" where
  "port_out p v s = s\<lparr>con := outb p v (con s)\<rparr>"

definition port_in :: "u16 \<Rightarrow> 'a machine_scheme \<Rightarrow> u8 \<times> 'a machine_scheme" where
  "port_in p s = (let (v, t) = inb p (con s) in (v, s\<lparr>con := t\<rparr>))"

definition port_wait :: "'a machine_scheme \<Rightarrow> 'a machine_scheme" where
  "port_wait s = s\<lparr>con := io_wait (con s)\<rparr>"

text \<open>The access \<open>interrupt_handlers[int_no]\<close> followed by the call, when the entry is not null.\<close>

definition call_handler :: "(isr_t \<Rightarrow> registers \<Rightarrow> 'a isr_state_scheme \<Rightarrow> (fault + 'a isr_state_scheme) option) \<Rightarrow>
    registers \<Rightarrow> 'a isr_state_scheme \<Rightarrow> (fault + 'a isr_state_scheme) option" where
  "call_handler call regs s =
     (if 256 \<le> int_no regs then Some (Inl TableOverrun)
      else case interrupt_handlers s (ucast (int_no regs)) of
          Some handler \<Rightarrow> call handler regs s
        | None \<Rightarrow> Some (Inr s))"

definition isr_handler :: "(isr_t \<Rightarrow> registers \<Rightarrow> 'a isr_state_scheme \<Rightarrow> (fault + 'a isr_state_scheme) option) \<Rightarrow>
    registers \<Rightarrow> 'a isr_state_scheme \<Rightarrow> (fault + 'a isr_state_scheme) option" where
  "isr_handler call regs s =
     fbind (fret (printf ''ISR Exception: Interrupt %d, Error Code: %d\<newline>'' [int_no regs, err_code regs] s)) (\<lambda>s.
     fbind (call_handler call regs s) (\<lambda>s.
       if int_no regs < 32
       then fbind (fret (printf ''Critical CPU Exception! Halting...\<newline>'' [] s)) (\<lambda>s. Some (Inl Halted))
       else Some (Inr s)))"

definition irq_handler :: "(isr_t \<Rightarrow> registers \<Rightarrow> 'a isr_state_scheme \<Rightarrow> (fault + 'a isr_state_scheme) option) \<Rightarrow>
    registers \<Rightarrow> 'a isr_state_scheme \<Rightarrow> (fault + 'a isr_state_scheme) option" where
  "irq_handler call regs s =
     (let s = (if 40 \<le> int_no regs then port_out 0xA0 0x20 s else s);
          s = (if 32 \<le> int_no regs then port_out 0x20 0x20 s else s)
      in call_handler call regs s)"

lemma port_sel [simp]:
  "mem (port_out p v s) = mem s" "sym (port_out p v s) = sym s" "lit (port_out p v s) = lit s"
  "con (port_out p v s) = outb p v (con s)" "con (port_wait s) = io_wait (con s)"
  "mem (port_wait s) = mem s" "sym (port_wait s) = sym s"
  by (simp_all add: port_out_def port_wait_def)

lemma interrupt_handlers_port [simp]:
  "interrupt_handlers (port_out p v s) = interrupt_handlers s"
  by (simp add: port_out_def)

end
