(* ===== verification/Pic.thy ===== *)
theory Pic
  imports Isr
begin

text \<open>
  The interrupt controllers (\<open>src/kernel/pic.cpp\<close>) and the interval timer (\<open>src/kernel/timer.cpp\<close>):
  the functions as sequences of port accesses, and the two devices as the state that such a
  sequence drives them into, so that what the kernel programs can be read back.
\<close>

section \<open>The interrupt controllers\<close>

definition pic_remap :: "'a machine_scheme \<Rightarrow> 'a machine_scheme" where
  "pic_remap s =
     (let (a1, s) = port_in 0x21 s;
          (a2, s) = port_in 0xA1 s;
          s = port_wait (port_out 0x20 0x11 s);
          s = port_wait (port_out 0xA0 0x11 s);
          s = port_wait (port_out 0x21 0x20 s);
          s = port_wait (port_out 0xA1 0x28 s);
          s = port_wait (port_out 0x21 0x04 s);
          s = port_wait (port_out 0xA1 0x02 s);
          s = port_wait (port_out 0x21 0x01 s);
          s = port_wait (port_out 0xA1 0x01 s);
          s = port_wait (port_out 0x21 a1 s)
      in port_wait (port_out 0xA1 a2 s))"

definition pic_send_eoi :: "u8 \<Rightarrow> 'a machine_scheme \<Rightarrow> 'a machine_scheme" where
  "pic_send_eoi irq s =
     (let s = (if 8 \<le> irq then port_wait (port_out 0xA0 0x20 s) else s)
      in port_wait (port_out 0x20 0x20 s))"

text \<open>\<open>1 << irq\<close> is an \<open>int\<close>; only its low byte meets \<open>value\<close>.\<close>

definition pic_unmask_irq :: "u8 \<Rightarrow> 'a machine_scheme \<Rightarrow> 'a machine_scheme option" where
  "pic_unmask_irq irq s =
     (let (port, irq) = (if irq < 8 then (0x21, irq) else (0xA1, irq - 8));
          bit_irq = ucast (push_bit (unat irq) 1 :: u32) :: u8;
          (value, s) = port_in port s;
          value = value AND NOT bit_irq;
          s = port_out port value s;
          (value, s) = port_in port s
      in if value AND bit_irq \<noteq> 0
         then printf ''[ERROR] IRQ%d is STILL masked!\<newline>'' [ucast irq] s
         else Some s)"

definition init_pic :: "'a machine_scheme \<Rightarrow> 'a machine_scheme option" where
  "init_pic s = printf ''[PIC] PIC initialized\<newline>'' [] (pic_remap s)"

text \<open>
  An 8259 with its command port at \<open>cmd\<close> and its data port at \<open>cmd + 1\<close>: after ICW1 the next
  three data bytes are ICW2 (vector offset), ICW3 (cascade) and ICW4 (mode); otherwise a data
  byte is the interrupt mask, and the command \<open>0x20\<close> is an end of interrupt.
\<close>

record pic8259 =
  expects :: nat
  vector_offset :: u8
  cascade_byte :: u8
  icw4 :: u8
  imr :: u8
  eois :: nat

fun pic_event :: "u16 \<Rightarrow> io_event \<Rightarrow> pic8259 \<Rightarrow> pic8259" where
  "pic_event cmd (Out p v) d =
    (if p = cmd then
       if bit v 4 then d\<lparr>expects := 2, imr := 0\<rparr>
       else if v = 0x20 then d\<lparr>eois := eois d + 1\<rparr> else d
     else if p = cmd + 1 then
       if expects d = 2 then d\<lparr>vector_offset := v, expects := 3\<rparr>
       else if expects d = 3 then d\<lparr>cascade_byte := v, expects := 4\<rparr>
       else if expects d = 4 then d\<lparr>icw4 := v, expects := 0\<rparr>
       else d\<lparr>imr := v\<rparr>
     else d)"
| "pic_event cmd (In p v) d = d"
| "pic_event cmd (InW p v) d = d"

definition pic_state :: "u16 \<Rightarrow> io_event list \<Rightarrow> pic8259" where
  "pic_state cmd log = foldr (pic_event cmd) log
     \<lparr>expects = 0, vector_offset = 8, cascade_byte = 0, icw4 = 0, imr = 0, eois = 0\<rparr>"

lemma pic_state_Cons [simp]: "pic_state cmd (e # log) = pic_event cmd e (pic_state cmd log)"
  by (simp add: pic_state_def)

lemma bit_icw1: "bit (0x11 :: u8) 4" and bit_eoi: "\<not> bit (0x20 :: u8) 4"
  by (simp_all add: bit_numeral_rec)

text \<open>Reading a controller's data port gives its mask: the devices behave as 8259s.\<close>

definition masks_readable :: "(io_event list \<Rightarrow> u16 \<Rightarrow> u8) \<Rightarrow> bool" where
  "masks_readable dev \<longleftrightarrow> (\<forall>log. dev log 0x21 = imr (pic_state 0x20 log) \<and> dev log 0xA1 = imr (pic_state 0xA0 log))"

section \<open>The timer\<close>

record timer_state = isr_state +
  timer_ticks :: u32

definition timer_handler :: "registers \<Rightarrow> 'a timer_state_scheme \<Rightarrow> 'a timer_state_scheme" where
  "timer_handler regs s = s\<lparr>timer_ticks := timer_ticks s + 1\<rparr>"

definition init_timer :: "u32 \<Rightarrow> 'a timer_state_scheme \<Rightarrow> (fault + 'a timer_state_scheme) option" where
  "init_timer frequency s =
     (if frequency = 0 then Some (Inl DivideError)
      else
        (let divisor = 1193180 div frequency;
             s = port_out 0x43 0x36 s;
             s = port_out 0x40 (ucast (divisor AND 0xFF)) s;
             s = port_out 0x40 (ucast (drop_bit 8 divisor AND 0xFF)) s;
             s = register_interrupt_handler 32 Timer_handler s
         in fret (printf ''[TIMER] Timer initialized to %d Hz\<newline>'' [frequency] s)))"

definition get_ticks :: "'a timer_state_scheme \<Rightarrow> u32" where
  "get_ticks s = timer_ticks s"

text \<open>
  Counter 0 of the PIT: the command \<open>0x36\<close> announces a reload value of two bytes, low byte first.
\<close>

record pit =
  next_byte :: nat
  reload :: u16

fun pit_event :: "io_event \<Rightarrow> pit \<Rightarrow> pit" where
  "pit_event (Out p v) d =
    (if p = 0x43 \<and> v = 0x36 then d\<lparr>next_byte := 1\<rparr>
     else if p = 0x40 \<and> next_byte d = 1 then \<lparr>next_byte = 2, reload = ucast v\<rparr>
     else if p = 0x40 \<and> next_byte d = 2
     then \<lparr>next_byte = 1, reload = reload d OR push_bit 8 (ucast v)\<rparr>
     else d)"
| "pit_event (In p v) d = d"
| "pit_event (InW p v) d = d"

definition pit_state :: "io_event list \<Rightarrow> pit" where
  "pit_state log = foldr pit_event log \<lparr>next_byte = 0, reload = 0\<rparr>"

lemma pit_state_Cons [simp]: "pit_state (e # log) = pit_event e (pit_state log)"
  by (simp add: pit_state_def)

text \<open>Console output drives the CRT controller only; it leaves these devices alone.\<close>

fun crt_event :: "io_event \<Rightarrow> bool" where
  "crt_event (Out p v) \<longleftrightarrow> p = 0x3D4 \<or> p = 0x3D5"
| "crt_event (In p v) \<longleftrightarrow> False"
| "crt_event (InW p v) \<longleftrightarrow> False"

definition extends_crt :: "io_event list \<Rightarrow> io_event list \<Rightarrow> bool" where
  "extends_crt log log' \<longleftrightarrow> (\<exists>es. log' = es @ log \<and> (\<forall>e \<in> set es. crt_event e))"

lemma extends_crt_refl [simp]: "extends_crt log log"
  by (auto simp: extends_crt_def)

lemma extends_crt_trans: "extends_crt a b \<Longrightarrow> extends_crt b c \<Longrightarrow> extends_crt a c"
  unfolding extends_crt_def by (metis Un_iff append.assoc set_append)

lemma update_cursor_crt: "io_log u = io_log t \<Longrightarrow> extends_crt (io_log t) (io_log (update_cursor u))"
  by (auto simp: extends_crt_def update_cursor_def Let_def)

lemma new_line_crt: "io_log u = io_log t \<Longrightarrow> extends_crt (io_log t) (io_log (new_line u))"
  by (auto simp: new_line_def Let_def intro!: update_cursor_crt)

lemma putchar_crt: "extends_crt (io_log t) (io_log (term_putchar c t))"
proof -
  consider "c = 8" | "c = 10" | "c \<noteq> 8 \<and> c \<noteq> 10" by blast
  then show ?thesis
  proof cases
    case 1
    then show ?thesis
      by (auto simp: term_putchar_def Let_def intro!: update_cursor_crt)
  next
    case 2
    then show ?thesis by (simp add: putchar_newline new_line_crt)
  next
    case 3
    have "extends_crt (io_log t) (io_log (update_cursor (new_line u)))" if "io_log u = io_log t" for u
      using extends_crt_trans [OF new_line_crt [OF that] update_cursor_crt [OF refl]] .
    with 3 show ?thesis
      by (auto simp: term_putchar_def Let_def intro!: update_cursor_crt)
  qed
qed

lemma term_write_crt: "extends_crt (io_log t) (io_log (term_write bs t))"
proof (induction bs arbitrary: t)
  case (Cons b bs)
  then show ?case
    using extends_crt_trans [OF putchar_crt Cons.IH] by simp
qed simp

lemma crt_pic: "crt_event e \<Longrightarrow> cmd \<noteq> 0x3D4 \<Longrightarrow> cmd \<noteq> 0x3D5 \<Longrightarrow> cmd \<noteq> 0x3D3 \<Longrightarrow> pic_event cmd e d = d"
  by (cases e) (auto simp: eq_diff_eq [symmetric])

lemma crt_pit: "crt_event e \<Longrightarrow> pit_event e d = d"
  by (cases e) auto

lemma extends_crt_pic:
  assumes "extends_crt log log'" "cmd = 0x20 \<or> cmd = 0xA0"
  shows "pic_state cmd log' = pic_state cmd log"
proof -
  obtain es where es: "log' = es @ log" "\<forall>e \<in> set es. crt_event e"
    using assms(1) by (auto simp: extends_crt_def)
  have "foldr (pic_event cmd) es d = d" for d
    using es(2) assms(2) by (induction es) (auto simp: crt_pic)
  then show ?thesis by (simp add: es(1) pic_state_def)
qed

lemma extends_crt_pit:
  assumes "extends_crt log log'"
  shows "pit_state log' = pit_state log"
proof -
  obtain es where es: "log' = es @ log" "\<forall>e \<in> set es. crt_event e"
    using assms(1) by (auto simp: extends_crt_def)
  have "foldr pit_event es d = d" for d
    using es(2) by (induction es) (auto simp: crt_pit)
  then show ?thesis by (simp add: es(1) pit_state_def)
qed

section \<open>Two bytes of a divisor\<close>

lemma pit_bytes:
  "ucast (ucast (d AND 0xFF) :: u8) OR push_bit 8 (ucast (ucast (drop_bit 8 d AND 0xFF) :: u8)) = (ucast (d :: u32) :: u16)"
proof (rule bit_word_eqI)
  fix n
  assume "n < LENGTH(16)"
  then consider "n < 8" | "8 \<le> n \<and> n < 16" by fastforce
  moreover have m: "(0xFF :: u32) = mask 8"
    by (simp add: mask_eq_exp_minus_1)
  ultimately show "bit (ucast (ucast (d AND 0xFF) :: u8) OR
      push_bit 8 (ucast (ucast (drop_bit 8 d AND 0xFF) :: u8)) :: u16) n = bit (ucast d :: u16) n"
    unfolding m by cases (auto simp: bit_simps)
qed

end
