(* ===== verification/CString.thy ===== *)
theory CString
  imports RAM
begin

text \<open>
  The C library's memory and string functions (\<open>libc/string/string.cpp\<close>) over byte memory. A
  function that writes returns the new memory; the pointer it returns in C is its argument. A
  walk to a NUL that is not there does not return (\<open>None\<close>). Plain \<open>char\<close> is signed on the i686
  target, so a character compared with an \<open>int\<close> is sign-extended.
\<close>

section \<open>Functions\<close>

partial_function (option) strlen_from :: "ram \<Rightarrow> u32 \<Rightarrow> u32 \<Rightarrow> u32 option" where
  "strlen_from m str len = (if m (str + len) \<noteq> 0 then strlen_from m str (len + 1) else Some len)"

definition strlen :: "ram \<Rightarrow> u32 \<Rightarrow> u32 option" where
  "strlen m str = strlen_from m str 0"

text \<open>The two loops of \<open>strncpy\<close>, which share their index.\<close>

function strncpy_copy :: "ram \<Rightarrow> u32 \<Rightarrow> u32 \<Rightarrow> nat \<Rightarrow> nat \<Rightarrow> ram \<times> nat" where
  "strncpy_copy m dest src i n = (if i < n \<and> m (src + of_nat i) \<noteq> 0
     then strncpy_copy (m(dest + of_nat i := m (src + of_nat i))) dest src (Suc i) n else (m, i))"
  by pat_completeness auto
termination by (relation "measure (\<lambda>(m, d, s, i, n). n - i)") auto

function strncpy_pad :: "ram \<Rightarrow> u32 \<Rightarrow> nat \<Rightarrow> nat \<Rightarrow> ram" where
  "strncpy_pad m dest i n =
     (if i < n then strncpy_pad (m(dest + of_nat i := 0)) dest (Suc i) n else m)"
  by pat_completeness auto
termination by (relation "measure (\<lambda>(m, d, i, n). n - i)") auto

definition strncpy :: "ram \<Rightarrow> u32 \<Rightarrow> u32 \<Rightarrow> u32 \<Rightarrow> ram" where
  "strncpy m dest src n =
     (let (m, i) = strncpy_copy m dest src 0 (unat n) in strncpy_pad m dest i (unat n))"

primrec memcmp_loop :: "ram \<Rightarrow> u32 \<Rightarrow> u32 \<Rightarrow> nat \<Rightarrow> int" where
  "memcmp_loop m a b 0 = 0"
| "memcmp_loop m a b (Suc n) =
     (if m a < m b then - 1 else if m b < m a then 1 else memcmp_loop m (a + 1) (b + 1) n)"

definition memcmp :: "ram \<Rightarrow> u32 \<Rightarrow> u32 \<Rightarrow> u32 \<Rightarrow> int" where
  "memcmp m aptr bptr sz = memcmp_loop m aptr bptr (unat sz)"

definition memcpy :: "ram \<Rightarrow> u32 \<Rightarrow> u32 \<Rightarrow> u32 \<Rightarrow> ram" where
  "memcpy m dst src sz = for_u32 (unat sz) (\<lambda>i m. m(dst + i := m (src + i))) m"

definition char_int :: "u8 \<Rightarrow> u32" where
  "char_int c = scast c"

partial_function (option) strrchr_from :: "ram \<Rightarrow> u32 \<Rightarrow> u32 \<Rightarrow> u32 \<Rightarrow> u32 option" where
  "strrchr_from m str c lst = (if m str \<noteq> 0
     then strrchr_from m (str + 1) c (if char_int (m str) = c then str else lst) else Some lst)"

definition strrchr :: "ram \<Rightarrow> u32 \<Rightarrow> u32 \<Rightarrow> u32 option" where
  "strrchr m str c = strrchr_from m str c 0"

text \<open>The downward loop counts \<open>i\<close> from \<open>sz\<close> to 1: at turn \<open>j\<close> it is \<open>sz - j\<close>.\<close>

definition memmove :: "ram \<Rightarrow> u32 \<Rightarrow> u32 \<Rightarrow> u32 \<Rightarrow> ram" where
  "memmove m dst src sz =
     (if dst < src then for_u32 (unat sz) (\<lambda>i m. m(dst + i := m (src + i))) m
      else for_u32 (unat sz) (\<lambda>j m. let i = sz - j in m(dst + (i - 1) := m (src + (i - 1)))) m)"

definition memset :: "ram \<Rightarrow> u32 \<Rightarrow> u32 \<Rightarrow> u32 \<Rightarrow> ram" where
  "memset m buf value sz = for_u32 (unat sz) (\<lambda>i m. m(buf + i := ucast value)) m"

partial_function (option) strchr :: "ram \<Rightarrow> u32 \<Rightarrow> u32 \<Rightarrow> u32 option" where
  "strchr m str c = (if m str \<noteq> 0
     then if char_int (m str) = c then Some str else strchr m (str + 1) c else Some 0)"

partial_function (option) strcmp :: "ram \<Rightarrow> u32 \<Rightarrow> u32 \<Rightarrow> int option" where
  "strcmp m str1 str2 = (if m str1 \<noteq> 0 \<and> m str1 = m str2 then strcmp m (str1 + 1) (str2 + 1)
     else Some (uint (m str1) - uint (m str2)))"

primrec strncmp_loop :: "ram \<Rightarrow> u32 \<Rightarrow> u32 \<Rightarrow> nat \<Rightarrow> int" where
  "strncmp_loop m str1 str2 0 = 0"
| "strncmp_loop m str1 str2 (Suc n) =
     (if m str1 \<noteq> 0 \<and> m str1 = m str2 then strncmp_loop m (str1 + 1) (str2 + 1) n
      else uint (m str1) - uint (m str2))"

definition strncmp :: "ram \<Rightarrow> u32 \<Rightarrow> u32 \<Rightarrow> u32 \<Rightarrow> int" where
  "strncmp m str1 str2 n = strncmp_loop m str1 str2 (unat n)"

partial_function (option) strcpy :: "ram \<Rightarrow> u32 \<Rightarrow> u32 \<Rightarrow> ram option" where
  "strcpy m dst src = (let c = m src; m = m(dst := c) in
     if c \<noteq> 0 then strcpy m (dst + 1) (src + 1) else Some m)"

text \<open>
  \<open>strtok\<close>: the static \<open>last\<close> (here \<open>lst\<close>) is an argument and part of the result (returned pointer, memory,
  \<open>last\<close>). The two loops stop at a NUL, and at a byte that is, or is not, a delimiter.
\<close>

partial_function (option) strtok_skip :: "ram \<Rightarrow> u32 \<Rightarrow> u32 \<Rightarrow> u32 option" where
  "strtok_skip m delim lst = (if m lst \<noteq> 0 then do {
       r \<leftarrow> strchr m delim (char_int (m lst));
       if r \<noteq> 0 then strtok_skip m delim (lst + 1) else Some lst } else Some lst)"

partial_function (option) strtok_scan :: "ram \<Rightarrow> u32 \<Rightarrow> u32 \<Rightarrow> u32 option" where
  "strtok_scan m delim lst = (if m lst \<noteq> 0 then do {
       r \<leftarrow> strchr m delim (char_int (m lst));
       if r = 0 then strtok_scan m delim (lst + 1) else Some lst } else Some lst)"

definition strtok :: "ram \<Rightarrow> u32 \<Rightarrow> u32 \<Rightarrow> u32 \<Rightarrow> (u32 \<times> ram \<times> u32) option" where
  "strtok m lst str delim =
     (if str = 0 \<and> lst = 0 then Some (0, m, lst)
      else do {
        lst \<leftarrow> strtok_skip m delim (if str \<noteq> 0 then str else lst);
        if m lst = 0 then Some (0, m, lst)
        else do {
          let start = lst;
          lst \<leftarrow> strtok_scan m delim lst;
          if m lst \<noteq> 0 then Some (start, m(lst := 0), lst + 1) else Some (start, m, lst)
        }
      })"

declare strncpy_copy.simps [simp del] strncpy_pad.simps [simp del]

section \<open>Memory functions\<close>

lemma memset_apply:
  "fits buf (unat n) \<Longrightarrow>
    memset m buf v n a = (if in_region a buf (unat n) then ucast v else m a)"
  by (simp add: memset_def fill_loop)

lemma memcpy_apply:
  "fits dst (unat n) \<Longrightarrow> fits src (unat n) \<Longrightarrow> apart dst (unat n) src (unat n) \<Longrightarrow>
    memcpy m dst src n a = (if in_region a dst (unat n) then m (src + (a - dst)) else m a)"
  by (simp add: memcpy_def copy_loop)

lemma memcpy_bytes:
  "fits dst (unat n) \<Longrightarrow> fits src (unat n) \<Longrightarrow> apart dst (unat n) src (unat n) \<Longrightarrow>
    bytes_at (memcpy m dst src n) dst (unat n) = bytes_at m src (unat n)"
  by (auto simp: bytes_at_def memcpy_apply in_region_offset)

text \<open>The downward copy, for a target above the source.\<close>

lemma copy_down:
  assumes "fits p n" "fits q n" "unat q \<le> unat p" "k \<le> n"
  shows "for_u32 k (\<lambda>j m. let i = of_nat n - j in m(p + (i - 1) := m (q + (i - 1)))) (m :: ram) a =
    (if in_region a (p + of_nat (n - k)) k then m (q + (a - p)) else m a)"
  using assms(4)
proof (induction k arbitrary: a)
  case 0
  then show ?case by (auto simp: in_region_def)
next
  case (Suc k)
  define i where "i = n - Suc k"
  define G where "G = (\<lambda>j m. let i = of_nat n - j in m(p + (i - 1) := m (q + (i - 1))) :: ram)"
  define m' where "m' = for_u32 k G m"
  have ni: "n = Suc (i + k)" using Suc.prems by (simp add: i_def)
  then have nk: "n - k = Suc i" by simp
  have i1: "of_nat n - of_nat k - 1 = (of_nat i :: u32)"
    by (simp add: ni)
  have P: "unat (p + of_nat i) = unat p + i" and Q: "unat (q + of_nat i) = unat q + i"
    using assms(1,2) by (simp_all add: ni fits_def unat_add_of_nat)
  have IH: "m' b = (if in_region b (p + of_nat (Suc i)) k then m (q + (b - p)) else m b)" for b
    using Suc.IH [of b, folded G_def] Suc.prems by (simp add: m'_def nk del: of_nat_Suc)
  have S: "k \<noteq> 0 \<Longrightarrow> unat (p + of_nat (Suc i)) = unat p + Suc i"
    using assms(1) by (subst unat_add_of_nat) (simp_all add: ni fits_def)
  have ins: "in_region a (p + of_nat i) (Suc k) \<longleftrightarrow> a = p + of_nat i \<or> in_region a (p + of_nat (Suc i)) k"
    unfolding in_region_def u32_eq_iff P using S by (cases "k = 0") auto
  have "\<not> in_region (q + of_nat i) (p + of_nat (Suc i)) k"
    unfolding in_region_def Q using S assms(3) by (cases "k = 0") auto
  then have "m' (q + of_nat i) = m (q + of_nat i)"
    by (simp add: IH)
  moreover have "for_u32 (Suc k) G m = m'(p + of_nat i := m' (q + of_nat i))"
    by (simp only: for_u32_Suc G_def [symmetric] m'_def [symmetric])
      (simp only: G_def Let_def i1)
  ultimately have "for_u32 (Suc k) G m a =
      (if in_region a (p + of_nat i) (Suc k) then m (q + (a - p)) else m a)"
    by (auto simp: ins IH)
  then show ?case by (simp only: G_def i_def)
qed

lemma memmove_apply:
  assumes "fits dst (unat n)" "fits src (unat n)"
  shows "memmove m dst src n a =
    (if in_region a dst (unat n) then m (src + (a - dst)) else m a)"
proof (cases "dst < src")
  case True
  then have "unat dst \<le> unat src" by (simp add: u32_less_iff)
  with assms True show ?thesis
    by (simp add: memmove_def copy_loop)
next
  case False
  then have "unat src \<le> unat dst" by (simp add: u32_less_iff)
  have n: "of_nat (unat n) = n" by simp
  show ?thesis
    using False copy_down [OF assms \<open>unat src \<le> unat dst\<close>, of "unat n" m a, unfolded n]
    by (simp add: memmove_def)
qed

text \<open>\<open>memcmp\<close> decides equality of the two byte ranges.\<close>

lemma memcmp_loop_0: "memcmp_loop m a b n = 0 \<longleftrightarrow> (\<forall>i < n. m (a + of_nat i) = m (b + of_nat i))"
proof (induction n arbitrary: a b)
  case 0
  then show ?case by simp
next
  case (Suc n)
  have "(\<forall>i < Suc n. m (a + of_nat i) = m (b + of_nat i)) \<longleftrightarrow>
      m a = m b \<and> (\<forall>i < n. m (a + 1 + of_nat i) = m (b + 1 + of_nat i))"
    by (subst All_less_Suc2 [where P = "\<lambda>i. m (a + of_nat i) = m (b + of_nat i)"]) (simp add: add.assoc)
  then show ?case
    using Suc.IH [of "a + 1" "b + 1"] by auto
qed

lemma memcmp_equal: "memcmp m a b n = 0 \<longleftrightarrow> bytes_at m a (unat n) = bytes_at m b (unat n)"
  by (simp add: memcmp_def memcmp_loop_0 list_eq_iff_nth_eq)

section \<open>String functions\<close>

lemma strlen_from_cstring:
  "cstring m (p + len) bs \<Longrightarrow> strlen_from m p len = Some (len + of_nat (length bs))"
proof (induction bs arbitrary: len)
  case Nil
  then show ?case by (simp add: strlen_from.simps)
next
  case (Cons b bs)
  then show ?case
    using Cons.IH [of "len + 1"] by (subst strlen_from.simps) (simp add: add.assoc)
qed

lemma strlen_cstring: "cstring m p bs \<Longrightarrow> strlen m p = Some (of_nat (length bs))"
  using strlen_from_cstring [of m p 0 bs] by (simp add: strlen_def)

text \<open>The reference order: the difference of the first bytes that differ, NUL below every byte.\<close>

fun str_diff :: "u8 list \<Rightarrow> u8 list \<Rightarrow> int" where
  "str_diff [] [] = 0"
| "str_diff [] (b # bs) = - uint b"
| "str_diff (a # as) [] = uint a"
| "str_diff (a # as) (b # bs) = (if a = b then str_diff as bs else uint a - uint b)"

lemma strcmp_cstring: "cstring m p as \<Longrightarrow> cstring m q bs \<Longrightarrow> strcmp m p q = Some (str_diff as bs)"
proof (induction as bs arbitrary: p q rule: str_diff.induct)
  case (4 a as b bs)
  then show ?case by (subst strcmp.simps) auto
qed (subst strcmp.simps, auto)+

lemma strncmp_cstring:
  "cstring m p as \<Longrightarrow> cstring m q bs \<Longrightarrow>
    strncmp_loop m p q n = str_diff (take n as) (take n bs)"
proof (induction n arbitrary: p q as bs)
  case 0
  then show ?case by simp
next
  case (Suc n)
  then show ?case by (cases as; cases bs) auto
qed

lemma str_diff_0: "0 \<notin> set as \<Longrightarrow> 0 \<notin> set bs \<Longrightarrow> str_diff as bs = 0 \<longleftrightarrow> as = bs"
  by (induction as bs rule: str_diff.induct) (auto simp: word_uint_eq_iff)

lemma str_diff_sym: "str_diff bs as = - str_diff as bs"
  by (induction as bs rule: str_diff.induct) auto

lemma str_diff_refl [simp]: "str_diff as as = 0"
  by (induction as) auto

lemma str_diff_lexord:
  "0 \<notin> set as \<Longrightarrow> 0 \<notin> set bs \<Longrightarrow> str_diff as bs < 0 \<longleftrightarrow> ord_class.lexordp as bs"
proof (induction as bs rule: str_diff.induct)
  case (2 b bs)
  then show ?case by (simp add: word_neq_0_conv word_less_def)
next
  case (4 a as b bs)
  then show ?case by (auto simp: word_less_def word_uint_eq_iff)
qed (auto simp: not_less)

lemma sint_char_int [simp]: "sint (char_int c) = sint c"
  using sint_ge [of c] sint_lt [of c]
  by (simp add: char_int_def signed_scast_eq signed_take_bit_int_eq_self)

lemma char_int_inj [simp]: "char_int a = char_int b \<longleftrightarrow> a = b"
  using sint_char_int [of a] sint_char_int [of b] by (metis signed_word_eqI)

lemma strcmp_equal:
  assumes "cstring m p as" "cstring m q bs"
  shows "strcmp m p q = Some 0 \<longleftrightarrow> as = bs"
  using assms str_diff_0 [of as bs] by (auto simp: strcmp_cstring cstring_nonzero)

text \<open>\<open>strcmp(p, p)\<close> is 0 wherever it returns.\<close>

lemma strcmp_same: "cstring m p as \<Longrightarrow> strcmp m p p = Some 0"
  by (simp add: strcmp_cstring)

text \<open>
  \<open>strchr\<close> returns the first occurrence, \<open>strrchr\<close> the last; a null pointer means that there is
  none, so the string must not lie across address 0.
\<close>

lemma strchr_cstring:
  "cstring m p bs \<Longrightarrow> strchr m p (char_int c) =
    Some (if c \<in> set bs then p + of_nat (length (takeWhile (\<lambda>b. b \<noteq> c) bs)) else 0)"
proof (induction m p bs rule: cstring.induct)
  case (1 m p)
  then show ?case by (simp add: strchr.simps [of m p])
next
  case (2 m p b bs)
  then show ?case by (simp add: strchr.simps [of m p] ac_simps)
qed

lemma strrchr_from_none:
  "cstring m p bs \<Longrightarrow> c \<notin> set bs \<Longrightarrow> strrchr_from m p (char_int c) q = Some q"
proof (induction m p bs arbitrary: q rule: cstring.induct)
  case (1 m p)
  then show ?case by (simp add: strrchr_from.simps [of m p])
next
  case (2 m p b bs)
  then show ?case by (auto simp: strrchr_from.simps [of m p])
qed

lemma strrchr_from_split:
  "cstring m p (us @ c # vs) \<Longrightarrow> c \<notin> set vs \<Longrightarrow>
    strrchr_from m p (char_int c) q = Some (p + of_nat (length us))"
proof (induction us arbitrary: p q)
  case Nil
  then show ?case
    using strrchr_from_none [of m "p + 1" vs c p] by (auto simp: strrchr_from.simps [of m p])
next
  case (Cons b us)
  then show ?case by (simp add: strrchr_from.simps [of m p] ac_simps)
qed

lemma strrchr_split:
  "cstring m p (us @ c # vs) \<Longrightarrow> c \<notin> set vs \<Longrightarrow>
    strrchr m p (char_int c) = Some (p + of_nat (length us))"
  by (simp add: strrchr_def strrchr_from_split)

lemma strrchr_none: "cstring m p bs \<Longrightarrow> c \<notin> set bs \<Longrightarrow> strrchr m p (char_int c) = Some 0"
  by (simp add: strrchr_def strrchr_from_none)

section \<open>strcpy and strncpy\<close>

lemma cstring_upd:
  "cstring m p bs \<Longrightarrow> fits p (Suc (length bs)) \<Longrightarrow> \<not> in_region a p (Suc (length bs)) \<Longrightarrow>
    cstring (m(a := v)) p bs"
  using cstring_agree [OF _ agree_on_upd] by blast

lemma strcpy_cstring:
  "cstring m src bs \<Longrightarrow> fits dst (Suc (length bs)) \<Longrightarrow> fits src (Suc (length bs)) \<Longrightarrow>
    apart dst (Suc (length bs)) src (Suc (length bs)) \<Longrightarrow>
    strcpy m dst src =
      Some (\<lambda>a. if in_region a dst (Suc (length bs)) then m (src + (a - dst)) else m a)"
proof (induction bs arbitrary: m dst src)
  case Nil
  then have "in_region a dst (Suc 0) \<longleftrightarrow> a = dst" for a
    by (auto simp: in_region_def u32_eq_iff)
  with Nil show ?case by (auto simp: strcpy.simps)
next
  case (Cons b bs)
  let ?n = "Suc (length bs)"
  have d1: "unat (dst + 1) = unat dst + 1" and s1: "unat (src + 1) = unat src + 1"
    using Cons.prems(2,3) by (simp_all add: fits_def unat_add_one)
  have reg: "in_region a dst (Suc ?n) \<longleftrightarrow> a = dst \<or> in_region a (dst + 1) ?n" for a
    unfolding in_region_def u32_eq_iff d1 by auto
  have "fits (dst + 1) ?n" "fits (src + 1) ?n" "apart (dst + 1) ?n (src + 1) ?n"
    using Cons.prems(2-4) by (auto simp: fits_def apart_def d1 s1)
  moreover have "cstring (m(dst := b)) (src + 1) bs"
    using Cons.prems calculation(2)
    by (intro cstring_upd) (auto simp: in_region_def apart_def s1)
  ultimately have IH: "strcpy (m(dst := b)) (dst + 1) (src + 1) = Some (\<lambda>a. if in_region a (dst + 1) ?n
      then (m(dst := b)) (src + 1 + (a - (dst + 1))) else (m(dst := b)) a)"
    using Cons.IH by blast
  have off: "src + (a - dst) \<noteq> dst" if "in_region a (dst + 1) ?n" for a
  proof
    assume eq: "src + (a - dst) = dst"
    have "unat (a - dst) = unat a - unat dst"
      using that by (intro unat_sub_u32) (simp add: in_region_def d1)
    moreover have "unat (src + (a - dst)) = unat src + unat (a - dst)"
      using that Cons.prems(3) calculation by (intro unat_add_u32) (auto simp: in_region_def fits_def d1)
    ultimately show False
      using eq that Cons.prems(4) by (auto simp: in_region_def apart_def d1)
  qed
  have b: "m src = b" "b \<noteq> 0"
    using Cons.prems(1) by auto
  have "strcpy m dst src = strcpy (m(dst := b)) (dst + 1) (src + 1)"
    using b by (subst strcpy.simps) (simp add: Let_def)
  also have "\<dots> = Some (\<lambda>a. if in_region a dst (Suc ?n) then m (src + (a - dst)) else m a)"
    using off by (auto simp: IH fun_eq_iff reg b)
  finally show ?case by simp
qed

text \<open>
  \<open>strncpy\<close> copies at most \<open>n\<close> bytes and pads with NULs; it writes all \<open>n\<close> bytes of the target,
  and a terminator only where the source is shorter than \<open>n\<close>.
\<close>

lemma strncpy_pad_apply:
  "i \<le> n \<Longrightarrow> fits dest n \<Longrightarrow> strncpy_pad m dest i n a =
    (if unat dest + i \<le> unat a \<and> unat a < unat dest + n then 0 else m a)"
proof (induction m dest i n rule: strncpy_pad.induct)
  case (1 m dest i n)
  show ?case
  proof (cases "i < n")
    case True
    then have d: "unat (dest + of_nat i) = unat dest + i"
      using "1.prems" by (simp add: fits_def unat_add_of_nat)
    have "strncpy_pad m dest i n a = strncpy_pad (m(dest + of_nat i := 0)) dest (Suc i) n a"
      using True by (subst strncpy_pad.simps) (simp del: fun_upd_apply)
    also have "\<dots> = (if unat dest + Suc i \<le> unat a \<and> unat a < unat dest + n then 0
        else (m(dest + of_nat i := 0)) a)"
      using True "1.prems" by (intro "1.IH") auto
    also have "\<dots> = (if unat dest + i \<le> unat a \<and> unat a < unat dest + n then 0 else m a)"
      using True by (auto simp: u32_eq_iff d)
    finally show ?thesis .
  next
    case False
    with 1 show ?thesis by (subst strncpy_pad.simps) auto
  qed
qed

lemma cstring_end: "cstring m p bs \<Longrightarrow> i \<le> length bs \<Longrightarrow> m (p + of_nat i) = 0 \<longleftrightarrow> i = length bs"
  by (auto simp: cstring_iff in_set_conv_nth le_less)

lemma strncpy_copy_apply:
  assumes "fits src (Suc (length bs))" "fits dest n" "apart dest n src (Suc (length bs))"
  shows "cstring m src bs \<Longrightarrow> i \<le> n \<Longrightarrow> i \<le> length bs \<Longrightarrow>
    strncpy_copy m dest src i n =
      (\<lambda>a. if unat dest + i \<le> unat a \<and> unat a < unat dest + min n (length bs)
         then m (src + (a - dest)) else m a, min n (length bs))"
  using assms
proof (induction m dest src i n rule: strncpy_copy.induct)
  case (1 m dest src i n)
  note stop = cstring_end [OF "1.prems"(1,3)]
  show ?case
  proof (cases "i < n \<and> i < length bs")
    case True
    let ?m = "m(dest + of_nat i := m (src + of_nat i))"
    have d: "unat (dest + of_nat i) = unat dest + i"
      using True "1.prems" by (simp add: fits_def unat_add_of_nat)
    have "cstring ?m src bs"
      using True "1.prems" by (intro cstring_upd) (auto simp: in_region_def apart_def d)
    moreover have "i < n \<and> m (src + of_nat i) \<noteq> 0" "Suc i \<le> n" "Suc i \<le> length bs"
      using True stop by auto
    ultimately have IH: "strncpy_copy ?m dest src (Suc i) n =
      (\<lambda>a. if unat dest + Suc i \<le> unat a \<and> unat a < unat dest + min n (length bs)
         then ?m (src + (a - dest)) else ?m a, min n (length bs))"
      using "1.IH" "1.prems"(4-6) by blast
    have old: "?m (src + (a - dest)) = m (src + (a - dest))"
      if "unat dest + Suc i \<le> unat a" "unat a < unat dest + min n (length bs)" for a
    proof -
      have "unat (a - dest) = unat a - unat dest"
        using that by (intro unat_sub_u32) simp
      then have u: "unat (src + (a - dest)) = unat src + (unat a - unat dest)"
        using that "1.prems"(4) by (subst unat_add_u32) (auto simp: fits_def)
      have "unat src + (unat a - unat dest) \<noteq> unat dest + i"
        using that "1.prems"(6) True unfolding apart_def by linarith
      then have "src + (a - dest) \<noteq> dest + of_nat i"
        unfolding u32_eq_iff u d .
      then show ?thesis by simp
    qed
    have step: "strncpy_copy m dest src i n = strncpy_copy ?m dest src (Suc i) n"
      using True stop by (subst strncpy_copy.simps) (simp del: fun_upd_apply)
    have "(if unat dest + Suc i \<le> unat a \<and> unat a < unat dest + min n (length bs)
         then ?m (src + (a - dest)) else ?m a) =
        (if unat dest + i \<le> unat a \<and> unat a < unat dest + min n (length bs)
         then m (src + (a - dest)) else m a)" for a
    proof (cases "a = dest + of_nat i")
      case hit: True
      show ?thesis
        using True by (simp add: hit d)
    next
      case False
      then have "unat a \<noteq> unat dest + i" by (simp add: u32_eq_iff d)
      with old [of a] False show ?thesis by auto
    qed
    then have "(\<lambda>a. if unat dest + Suc i \<le> unat a \<and> unat a < unat dest + min n (length bs)
         then ?m (src + (a - dest)) else ?m a) =
        (\<lambda>a. if unat dest + i \<le> unat a \<and> unat a < unat dest + min n (length bs)
         then m (src + (a - dest)) else m a)"
      by (rule ext)
    then show ?thesis
      unfolding step IH by (simp only:)
  next
    case False
    with "1.prems" stop show ?thesis
      by (subst strncpy_copy.simps) (auto simp: fun_eq_iff)
  qed
qed

lemma strncpy_cstring:
  assumes "cstring m src bs" "fits src (Suc (length bs))" "fits dest (unat n)"
    "apart dest (unat n) src (Suc (length bs))"
  shows "strncpy m dest src n a =
    (if in_region a dest (min (unat n) (length bs)) then m (src + (a - dest))
     else if in_region a dest (unat n) then 0 else m a)"
  using assms strncpy_copy_apply [of src bs dest "unat n" m 0]
  by (auto simp: strncpy_def strncpy_pad_apply in_region_def)

section \<open>strtok\<close>

text \<open>A byte is a delimiter when \<open>strchr\<close> finds it in the delimiter string.\<close>

lemma strchr_delim:
  assumes "cstring m delim ds" "fits delim (Suc (length ds))" "delim \<noteq> 0"
  obtains r where "strchr m delim (char_int b) = Some r" "r \<noteq> 0 \<longleftrightarrow> b \<in> set ds"
proof
  let ?r = "if b \<in> set ds then delim + of_nat (length (takeWhile (\<lambda>c. c \<noteq> b) ds)) else 0"
  show "strchr m delim (char_int b) = Some ?r"
    by (rule strchr_cstring [OF assms(1)])
  have "length (takeWhile (\<lambda>c. c \<noteq> b) ds) \<le> length ds"
    by (rule length_takeWhile_le)
  then have "unat (delim + of_nat (length (takeWhile (\<lambda>c. c \<noteq> b) ds))) =
      unat delim + length (takeWhile (\<lambda>c. c \<noteq> b) ds)"
    using assms(2) by (intro unat_add_of_nat) (simp add: fits_def)
  moreover have "0 < unat delim" using assms(3) by (simp add: unat_gt_0)
  ultimately have "delim + of_nat (length (takeWhile (\<lambda>c. c \<noteq> b) ds)) \<noteq> 0"
    by (metis add_gr_0 less_irrefl unat_0)
  then show "?r \<noteq> 0 \<longleftrightarrow> b \<in> set ds" by simp
qed

lemma strtok_skip_cstring:
  assumes "cstring m delim ds" "fits delim (Suc (length ds))" "delim \<noteq> 0"
  shows "cstring m p bs \<Longrightarrow>
    strtok_skip m delim p = Some (p + of_nat (length (takeWhile (\<lambda>b. b \<in> set ds) bs)))"
proof (induction bs arbitrary: p)
  case Nil
  then show ?case by (simp add: strtok_skip.simps [of m delim p])
next
  case (Cons b bs)
  obtain r where "strchr m delim (char_int b) = Some r" "r \<noteq> 0 \<longleftrightarrow> b \<in> set ds"
    by (rule strchr_delim [OF assms])
  with Cons show ?case
    by (subst strtok_skip.simps) (auto simp: add.assoc)
qed

lemma strtok_scan_cstring:
  assumes "cstring m delim ds" "fits delim (Suc (length ds))" "delim \<noteq> 0"
  shows "cstring m p bs \<Longrightarrow>
    strtok_scan m delim p = Some (p + of_nat (length (takeWhile (\<lambda>b. b \<notin> set ds) bs)))"
proof (induction bs arbitrary: p)
  case Nil
  then show ?case by (simp add: strtok_scan.simps [of m delim p])
next
  case (Cons b bs)
  obtain r where "strchr m delim (char_int b) = Some r" "r \<noteq> 0 \<longleftrightarrow> b \<in> set ds"
    by (rule strchr_delim [OF assms])
  with Cons show ?case
    by (subst strtok_scan.simps) (auto simp: add.assoc)
qed

end
