(* ===== verification/Paging.thy ===== *)
theory Paging
  imports Pic CString
begin

text \<open>
  Virtual memory (\<open>src/kernel/paging.cpp\<close>): the page directory and the four page tables are arrays
  of the image, here words of memory at the addresses of their symbols; \<open>vmm_init\<close>, \<open>vmm_enable\<close>,
  \<open>vmm_map\<close> and the page fault handler; and the two-level walk of the processor, against which the
  tables are judged. There is no translation buffer in the model: \<open>invlpg\<close> changes nothing.
\<close>

section \<open>State and functions\<close>

text \<open>The control registers, and the interrupt flag that \<open>cli\<close> and \<open>sti\<close> drive.\<close>

record vmm = timer_state +
  cr0 :: u32
  cr2 :: u32
  cr3 :: u32
  interrupts_on :: bool

abbreviation (input) table_symbol :: "nat \<Rightarrow> string" where
  "table_symbol k \<equiv> [''kernel_page_table0'', ''kernel_page_table1'', ''kernel_page_table2'',
     ''kernel_page_table3''] ! k"

text \<open>The handler prints its report and then executes \<open>hlt\<close> for ever.\<close>

definition page_fault_report :: "registers \<Rightarrow> 'a vmm_scheme \<Rightarrow> 'a vmm_scheme option" where
  "page_fault_report regs s = do {
     let fault_addr = cr2 s;
     s \<leftarrow> printf ''[VMM] Page Fault at 0x%x\<newline>'' [fault_addr] s;
     s \<leftarrow> printf ''[VMM] Page info: 0x%x\<newline>'' [eip regs] s;
     s \<leftarrow> printf ''[VMM] Page fault caused by %s access\<newline>''
            [if err_code regs AND 1 \<noteq> 0 then lit s ''write'' else lit s ''read''] s;
     s \<leftarrow> printf ''[VMM] Page fault %s\<newline>''
            [if err_code regs AND 2 \<noteq> 0 then lit s ''protection'' else lit s ''non-present''] s;
     s \<leftarrow> printf ''[VMM] Page fault in %s mode\<newline>''
            [if err_code regs AND 4 \<noteq> 0 then lit s ''user'' else lit s ''supervisor''] s;
     printf ''[VMM] Page fault caused by %s operation\<newline>''
       [if err_code regs AND 8 \<noteq> 0 then lit s ''instruction fetch'' else lit s ''data access''] s
   }"

definition page_fault_handler :: "registers \<Rightarrow> 'a vmm_scheme \<Rightarrow> (fault + 'a vmm_scheme) option" where
  "page_fault_handler regs s = fbind (fret (page_fault_report regs s)) (\<lambda>s. Some (Inl Halted))"

text \<open>The inner loop that fills one table, and the store of one directory entry.\<close>

definition fill_table :: "u32 \<Rightarrow> u32 \<Rightarrow> ram \<Rightarrow> ram" where
  "fill_table table_idx base m = for_u32 1024
     (\<lambda>i m. let phys_addr = table_idx * 0x400000 + i * 0x1000
            in store32 m (base + 4 * i) ((phys_addr AND 0xFFFFF000) OR 0x03)) m"

definition set_pde :: "u32 \<Rightarrow> u32 \<Rightarrow> u32 \<Rightarrow> ram \<Rightarrow> ram" where
  "set_pde dir i table m = store32 m (dir + 4 * i) ((table AND 0xFFFFF000) OR 0x03)"

text \<open>What \<open>vmm_init\<close> does to memory between its messages.\<close>

definition clear_tables :: "(string \<Rightarrow> u32) \<Rightarrow> ram \<Rightarrow> ram" where
  "clear_tables addr m =
     (let m = memset m (addr ''kernel_page_directory'') 0 4096;
          m = memset m (addr ''kernel_page_table0'') 0 4096;
          m = memset m (addr ''kernel_page_table1'') 0 4096;
          m = memset m (addr ''kernel_page_table2'') 0 4096
      in memset m (addr ''kernel_page_table3'') 0 4096)"

definition build_tables :: "(string \<Rightarrow> u32) \<Rightarrow> ram \<Rightarrow> ram" where
  "build_tables addr m =
     (let m = fold (\<lambda>k. fill_table (of_nat k) (addr (table_symbol k))) [0..<4] m;
          dir = addr ''kernel_page_directory'';
          m = set_pde dir 0 (addr ''kernel_page_table0'') m;
          m = set_pde dir 1 (addr ''kernel_page_table1'') m;
          m = set_pde dir 2 (addr ''kernel_page_table2'') m
      in set_pde dir 3 (addr ''kernel_page_table3'') m)"

definition vmm_init :: "'a vmm_scheme \<Rightarrow> 'a vmm_scheme option" where
  "vmm_init s = do {
     s \<leftarrow> printf ''[VMM] Initializing paging (identity map 0..16 MiB)\<newline>'' [] s;
     let s = register_interrupt_handler 14 Page_fault_handler s;
     let s = s\<lparr>mem := clear_tables (sym s) (mem s)\<rparr>;
     s \<leftarrow> printf ''[VMM] Mapping [0..16 MiB]\<newline>'' [] s;
     let s = s\<lparr>mem := build_tables (sym s) (mem s)\<rparr>;
     let dir = sym s ''kernel_page_directory'';
     s \<leftarrow> printf ''[VMM] PDE[0] = 0x%x\<newline>'' [load32 (mem s) dir] s;
     s \<leftarrow> printf ''[VMM] PDE[1] = 0x%x\<newline>'' [load32 (mem s) (dir + 4)] s;
     s \<leftarrow> printf ''[VMM] PDE[2] = 0x%x\<newline>'' [load32 (mem s) (dir + 8)] s;
     s \<leftarrow> printf ''[VMM] PDE[3] = 0x%x\<newline>'' [load32 (mem s) (dir + 12)] s;
     s \<leftarrow> printf ''[VMM] First 4 entries of page_table0:\<newline>'' [] s;
     s \<leftarrow> printf ''  PT0[%d] = 0x%x\<newline>'' [0, load32 (mem s) (sym s ''kernel_page_table0'')] s;
     s \<leftarrow> printf ''  PT0[%d] = 0x%x\<newline>'' [1, load32 (mem s) (sym s ''kernel_page_table0'' + 4)] s;
     s \<leftarrow> printf ''  PT0[%d] = 0x%x\<newline>'' [2, load32 (mem s) (sym s ''kernel_page_table0'' + 8)] s;
     s \<leftarrow> printf ''  PT0[%d] = 0x%x\<newline>'' [3, load32 (mem s) (sym s ''kernel_page_table0'' + 12)] s;
     printf ''[VMM] PDE @ 0x%x\<newline>'' [dir] s
   }"

definition vmm_enable :: "'a vmm_scheme \<Rightarrow> 'a vmm_scheme option" where
  "vmm_enable s = do {
     s \<leftarrow> printf ''[VMM] Enabling paging...\<newline>'' [] s;
     let s = s\<lparr>interrupts_on := False\<rparr>;
     let pde_phys = sym s ''kernel_page_directory'';
     s \<leftarrow> printf ''[VMM] Loading CR3 with 0x%x\<newline>'' [pde_phys] s;
     let s = s\<lparr>cr3 := pde_phys\<rparr>;
     let c = cr0 s;
     s \<leftarrow> printf ''[VMM] Old CR0 = 0x%x\<newline>'' [c] s;
     let c = c OR 0x80000000;
     let c = c OR 0x00000001;
     s \<leftarrow> printf ''[VMM] New CR0 = 0x%x\<newline>'' [c] s;
     let s = s\<lparr>cr0 := c, code_selector := 0x08\<rparr>;
     printf ''[VMM] Paging enabled successfully.\<newline>'' [] s
   }"

definition vmm_map :: "u32 \<Rightarrow> u32 \<Rightarrow> u32 \<Rightarrow> 'a vmm_scheme \<Rightarrow> 'a vmm_scheme option" where
  "vmm_map virtual_addr physical_addr rw s = do {
     s \<leftarrow> printf ''[VMM] Mapping vaddr=0x%x to paddr=0x%x, rw=%d\<newline>''
            [virtual_addr, physical_addr, rw] s;
     let pd_index = drop_bit 22 virtual_addr AND 0x3FF;
     let pt_index = drop_bit 12 virtual_addr AND 0x3FF;
     let pde_val = load32 (mem s) (sym s ''kernel_page_directory'' + 4 * pd_index);
     if pde_val AND 1 = 0 then printf ''[VMM] PDE[%d] not present!\<newline>'' [pd_index] s
     else do {
       let pt_base = pde_val AND 0xFFFFF000;
       let flags = (if rw \<noteq> 0 then 0x3 else 0x1);
       let s = s\<lparr>mem := store32 (mem s) (pt_base + 4 * pt_index) ((physical_addr AND 0xFFFFF000) OR flags)\<rparr>;
       s \<leftarrow> printf ''[VMM] PT[%d] = 0x%x\<newline>'' [pt_index, load32 (mem s) (pt_base + 4 * pt_index)] s;
       printf ''[VMM] Mapping done.\<newline>'' [] s
     }
   }"

section \<open>The walk of the processor\<close>

text \<open>
  The physical address that a virtual address stands for, and whether it may be written: the
  two-level walk of the i386 from the directory at \<open>dir\<close>.
\<close>

definition walk :: "ram \<Rightarrow> u32 \<Rightarrow> u32 \<Rightarrow> (u32 \<times> bool) option" where
  "walk m dir v =
     (let pde = load32 m ((dir AND 0xFFFFF000) + 4 * drop_bit 22 v) in
      if \<not> bit pde 0 then None
      else let pte = load32 m ((pde AND 0xFFFFF000) + 4 * (drop_bit 12 v AND 0x3FF)) in
        if \<not> bit pte 0 then None
        else Some ((pte AND 0xFFFFF000) OR (v AND 0xFFF), bit pde 1 \<and> bit pte 1))"

section \<open>Page-aligned words\<close>

lemma page_mask: "(0xFFFFF000 :: u32) = NOT (mask 12)" "(0xFFF :: u32) = mask 12" "(0x3FF :: u32) = mask 10"
  by (simp_all add: mask_eq_exp_minus_1)

lemma unat_page: "unat (x AND 0xFFFFF000 :: u32) = unat x div 4096 * 4096"
  unfolding page_mask using unat_and_not_mask [of x 12] by simp

lemma page_aligned: "4096 dvd unat (x :: u32) \<Longrightarrow> x AND 0xFFFFF000 = x"
  by (simp only: u32_eq_iff unat_page) simp

lemma page_flags:
  assumes "f = 1 \<or> f = (3 :: u32)"
  shows "((x AND 0xFFFFF000) OR f) AND 0xFFFFF000 = x AND 0xFFFFF000"
    and "bit ((x AND 0xFFFFF000) OR f) 0" and "bit ((x AND 0xFFFFF000) OR f) 1 \<longleftrightarrow> f = 3"
proof -
  have f: "f = mask 1 \<or> f = mask 2"
    using assms by (simp add: mask_eq_exp_minus_1)
  show "((x AND 0xFFFFF000) OR f) AND 0xFFFFF000 = x AND 0xFFFFF000"
    unfolding page_mask by (rule bit_word_eqI) (use f in \<open>auto simp: bit_simps\<close>)
  show "bit ((x AND 0xFFFFF000) OR f) 0"
    unfolding page_mask using f by (auto simp: bit_simps)
  show "bit ((x AND 0xFFFFF000) OR f) 1 \<longleftrightarrow> f = 3"
    using assms unfolding page_mask by (auto simp: bit_simps bit_numeral_rec)
qed

lemma page_offset: "(x AND 0xFFFFF000) OR (x AND 0xFFF) = (x :: u32)"
  unfolding page_mask by (rule bit_word_eqI) (auto simp: bit_simps)

lemma unat_pd_index: "unat (drop_bit 22 v :: u32) = unat v div 4194304"
  by (simp only: unat_drop_bit_eq) (simp add: drop_bit_eq_div)

lemma unat_pt_index: "unat (drop_bit 12 v AND 0x3FF :: u32) = unat v div 4096 mod 1024"
proof -
  have "unat (drop_bit 12 v AND 0x3FF) = unat (take_bit 10 (drop_bit 12 v))"
    by (simp only: page_mask take_bit_eq_mask)
  also have "\<dots> = unat v div 4096 mod 1024"
    by (simp only: unsigned_take_bit_eq unat_drop_bit_eq) (simp add: take_bit_eq_mod drop_bit_eq_div)
  finally show ?thesis .
qed

lemma pd_index_mask: "drop_bit 22 v AND 0x3FF = (drop_bit 22 v :: u32)"
  unfolding page_mask by (rule bit_word_eqI) (auto simp: bit_simps dest: bit_imp_le_length)

end
