(* ===== verification/Heap.thy ===== *)
theory Heap
  imports Paging
begin

text \<open>
  The kernel heap (\<open>include/kernel/heap.h\<close>, \<open>src/kernel/heap.cpp\<close>): a list of blocks that tile
  the 8 MiB at \<open>KERNEL_HEAP_START\<close>, each with a 12-byte header in memory (\<open>size\<close> at 0, \<open>next\<close>
  at 4, \<open>free\<close> at 8). This theory translates the functions over byte memory; \<open>Heap_Rep\<close> relates the
  memory to the abstract heap of \<open>Heap_Spec\<close> and proves what they do.
\<close>

section \<open>State and functions\<close>

record heap = vmm +
  free_list :: u32

abbreviation (input) KERNEL_HEAP_START :: "'a::numeral" where "KERNEL_HEAP_START \<equiv> 0x00800000"
abbreviation (input) KERNEL_HEAP_SIZE :: "'a::numeral" where "KERNEL_HEAP_SIZE \<equiv> 0x00800000"

definition align16 :: "u32 \<Rightarrow> u32" where
  "align16 n = (n + 15) AND NOT 15"

definition init_heap :: "'a heap_scheme \<Rightarrow> 'a heap_scheme option" where
  "init_heap s = do {
     s \<leftarrow> printf ''[HEAP] Initializing heap at 0x%x, size 0x%x\<newline>''
           [KERNEL_HEAP_START, KERNEL_HEAP_SIZE] s;
     let s = s\<lparr>free_list := KERNEL_HEAP_START\<rparr>;
     let m = store32 (mem s) (free_list s) (KERNEL_HEAP_SIZE - 12);
     let m = store32 m (free_list s + 4) 0;
     let m = m(free_list s + 8 := 1);
     Some (s\<lparr>mem := m\<rparr>)
   }"

text \<open>The search for a free block that is big enough; NULL when the list ends.\<close>

partial_function (option) find_block :: "ram \<Rightarrow> u32 \<Rightarrow> u32 \<Rightarrow> u32 option" where
  "find_block m n current =
     (if current \<noteq> 0 then
        if m (current + 8) \<noteq> 0 \<and> n \<le> load32 m current then Some current
        else find_block m n (load32 m (current + 4))
      else Some 0)"

text \<open>The block of the split, with the header of its second half.\<close>

definition split_block :: "u32 \<Rightarrow> u32 \<Rightarrow> ram \<Rightarrow> ram" where
  "split_block current n m =
     (let new_block = current + 12 + n;
          m = store32 m new_block (load32 m current - n - 12);
          m = store32 m (new_block + 4) (load32 m (current + 4));
          m = m(new_block + 8 := 1);
          m = store32 m current n
      in store32 m (current + 4) new_block)"

definition kmalloc :: "u32 \<Rightarrow> 'a heap_scheme \<Rightarrow> (u32 \<times> 'a heap_scheme) option" where
  "kmalloc n s =
     (if n = 0 then Some (0, s)
      else let n = align16 n in
      if free_list s = 0 then do {
        s \<leftarrow> printf ''[HEAP] Error: Heap is not initialized!\<newline>'' [] s;
        Some (0, s)
      } else do {
        current \<leftarrow> find_block (mem s) n (free_list s);
        if current = 0 then do {
          s \<leftarrow> printf ''[HEAP] Error: No free block large enough for %d bytes!\<newline>'' [n] s;
          Some (0, s)
        } else do {
          let s = (if n + 12 + 16 \<le> load32 (mem s) current
                   then s\<lparr>mem := split_block current n (mem s)\<rparr> else s);
          let s = s\<lparr>mem := (mem s)(current + 8 := 0)\<rparr>;
          let alloc_addr = current + 12;
          s \<leftarrow> printf ''[HEAP] Allocated %d bytes at 0x%x\<newline>'' [n, alloc_addr] s;
          Some (alloc_addr, s)
        }
      })"

text \<open>The last step of \<open>kfree\<close>: absorb the next block if it is free.\<close>

definition merge_block :: "u32 \<Rightarrow> ram \<Rightarrow> ram" where
  "merge_block block m =
     (let next_block = load32 m (block + 4) in
      if next_block \<noteq> 0 \<and> m (next_block + 8) \<noteq> 0
      then let m = store32 m block (load32 m block + (load32 m next_block + 12))
           in store32 m (block + 4) (load32 m (load32 m (block + 4) + 4))
      else m)"

definition kfree :: "u32 \<Rightarrow> 'a heap_scheme \<Rightarrow> 'a heap_scheme option" where
  "kfree ptr s =
     (if ptr = 0 then Some s
      else do {
        let block = ptr - 12;
        let s = s\<lparr>mem := (mem s)(block + 8 := 1)\<rparr>;
        s \<leftarrow> printf ''[HEAP] Freed block at 0x%x (size: %d bytes)\<newline>'' [ptr, load32 (mem s) block] s;
        Some (s\<lparr>mem := merge_block block (mem s)\<rparr>)
      })"

definition krealloc :: "u32 \<Rightarrow> u32 \<Rightarrow> 'a heap_scheme \<Rightarrow> (u32 \<times> 'a heap_scheme) option" where
  "krealloc ptr n s =
     (if n = 0 then do { s \<leftarrow> kfree ptr s; Some (0, s) }
      else if ptr = 0 then kmalloc n s
      else let block = ptr - 12 in
      if n \<le> load32 (mem s) block then Some (ptr, s)
      else do {
        (new_ptr, s) \<leftarrow> kmalloc n s;
        if new_ptr = 0 then Some (0, s)
        else do {
          let s = s\<lparr>mem := memcpy (mem s) new_ptr ptr (load32 (mem s) block)\<rparr>;
          s \<leftarrow> kfree ptr s;
          Some (new_ptr, s)
        }
      })"

end
