(* ===== verification/Ramfs.thy ===== *)
theory Ramfs
  imports Heap
begin

text \<open>
  The file system in memory (\<open>include/kernel/ramfs.h\<close>, \<open>src/kernel/ramfs.cpp\<close>). A node is the
  88-byte structure that \<open>kmalloc\<close> returned, with its fields at their offsets; a pointer to a node
  is its address. Local arrays of the functions (\<open>temp\<close>, \<open>parent_path\<close>, \<open>name\<close>) lie at the
  addresses that \<open>sym\<close> gives them; a string that does not fit into \<open>parent_path\<close> or \<open>name\<close> is the
  fault \<open>StackOverrun\<close>.
\<close>

section \<open>Nodes and descriptors\<close>

datatype fs_node_type = FS_FILE | FS_DIRECTORY

fun type_code :: "fs_node_type \<Rightarrow> u32" where
  "type_code FS_FILE = 0"
| "type_code FS_DIRECTORY = 1"

abbreviation (input) NODE_SIZE :: "'a::numeral" where "NODE_SIZE \<equiv> 88"
abbreviation (input) MAX_CHILDREN :: "'a::numeral" where "MAX_CHILDREN \<equiv> 32"
abbreviation (input) MAX_OPEN_FILES :: "'a::numeral" where "MAX_OPEN_FILES \<equiv> 64"

text \<open>The fields of a node; \<open>name\<close> is the array at its start.\<close>

definition type_at :: "u32 \<Rightarrow> u32" where "type_at node = node + 64"
definition size_at :: "u32 \<Rightarrow> u32" where "size_at node = node + 68"
definition data_at :: "u32 \<Rightarrow> u32" where "data_at node = node + 72"
definition parent_at :: "u32 \<Rightarrow> u32" where "parent_at node = node + 76"
definition children_at :: "u32 \<Rightarrow> u32" where "children_at node = node + 80"
definition child_count_at :: "u32 \<Rightarrow> u32" where "child_count_at node = node + 84"

lemmas node_layout = type_at_def size_at_def data_at_def parent_at_def children_at_def child_count_at_def

definition node_type :: "ram \<Rightarrow> u32 \<Rightarrow> u32" where "node_type m node = load32 m (type_at node)"
definition child_count :: "ram \<Rightarrow> u32 \<Rightarrow> u32" where "child_count m node = load32 m (child_count_at node)"

text \<open>\<open>&node->children[i]\<close> and its value.\<close>

definition slot :: "ram \<Rightarrow> u32 \<Rightarrow> u32 \<Rightarrow> u32" where
  "slot m node i = load32 m (children_at node) + 4 * i"

definition child_at :: "ram \<Rightarrow> u32 \<Rightarrow> u32 \<Rightarrow> u32" where
  "child_at m node i = load32 m (slot m node i)"

record file_descriptor =
  fd_node :: u32
  fd_offset :: u32
  fd_used :: u32

record ramfs = heap +
  root :: u32
  fd_table :: "file_descriptor list"

section \<open>The tree\<close>

text \<open>The loop that copies the name, cut after 63 bytes.\<close>

function copy_name :: "u32 \<Rightarrow> u32 \<Rightarrow> nat \<Rightarrow> ram \<Rightarrow> ram" where
  "copy_name node name i m =
     (if i < 63 \<and> m (name + of_nat i) \<noteq> 0
      then copy_name node name (Suc i) (m(node + of_nat i := m (name + of_nat i))) else m)"
  by pat_completeness auto
termination by (relation "measure (\<lambda>(node, name, i, m). 63 - i)") auto

declare copy_name.simps [simp del]

text \<open>What \<open>fs_create_node\<close> writes into the fresh node.\<close>

definition init_node :: "u32 \<Rightarrow> u32 \<Rightarrow> fs_node_type \<Rightarrow> ram \<Rightarrow> ram" where
  "init_node node name ty m =
     (let m = memset m node 0 NODE_SIZE;
          m = copy_name node name 0 m;
          m = store32 m (type_at node) (type_code ty);
          m = store32 m (size_at node) 0;
          m = store32 m (data_at node) 0;
          m = store32 m (parent_at node) 0
      in store32 m (child_count_at node) 0)"

definition fs_create_node :: "u32 \<Rightarrow> fs_node_type \<Rightarrow> 'a ramfs_scheme \<Rightarrow> (u32 \<times> 'a ramfs_scheme) option" where
  "fs_create_node name ty s = do {
     (node, s) \<leftarrow> kmalloc NODE_SIZE s;
     if node = 0 then Some (0, s)
     else do {
       let s = s\<lparr>mem := init_node node name ty (mem s)\<rparr>;
       if ty = FS_DIRECTORY then do {
         (kids, s) \<leftarrow> kmalloc (4 * MAX_CHILDREN) s;
         let s = s\<lparr>mem := store32 (mem s) (children_at node) kids\<rparr>;
         let s = (if kids \<noteq> 0 then s\<lparr>mem := memset (mem s) kids 0 (4 * MAX_CHILDREN)\<rparr> else s);
         Some (node, s)
       } else Some (node, s)
     }
   }"

text \<open>\<open>parent->children[parent->child_count++] = child; child->parent = parent\<close>.\<close>

definition link_child :: "u32 \<Rightarrow> u32 \<Rightarrow> ram \<Rightarrow> ram" where
  "link_child par child m =
     (let n = child_count m par;
          m = store32 m (child_count_at par) (n + 1);
          m = store32 m (slot m par n) child
      in store32 m (parent_at child) par)"

definition fs_add_child :: "u32 \<Rightarrow> u32 \<Rightarrow> 'a ramfs_scheme \<Rightarrow> 'a ramfs_scheme option" where
  "fs_add_child par child s =
     (if par = 0 \<or> node_type (mem s) par \<noteq> type_code FS_DIRECTORY then Some s
      else if MAX_CHILDREN \<le> child_count (mem s) par
      then printf ''Error: directory '%s' is full.\<newline>'' [par] s
      else Some (s\<lparr>mem := link_child par child (mem s)\<rparr>))"

text \<open>
  \<open>fs_remove_child\<close>: the position of the child, the loop that shifts its later siblings, and the
  recursion over the child's own children, which re-reads the count that the recursion lowers.
  On a cyclic structure the recursion does not end.
\<close>

definition child_index :: "ram \<Rightarrow> u32 \<Rightarrow> u32 \<Rightarrow> u32 option" where
  "child_index m par child =
     map_option of_nat (find (\<lambda>i. child_at m par (of_nat i) = child) [0..<unat (child_count m par)])"

partial_function (option) shift_children :: "ram \<Rightarrow> u32 \<Rightarrow> u32 \<Rightarrow> ram option" where
  "shift_children m par j =
     (if j < child_count m par - 1
      then shift_children (store32 m (slot m par j) (child_at m par (j + 1))) par (j + 1)
      else Some m)"

definition unlink_child :: "ram \<Rightarrow> u32 \<Rightarrow> u32 \<Rightarrow> ram option" where
  "unlink_child m par i = do {
     m \<leftarrow> shift_children m par i;
     Some (store32 m (child_count_at par) (child_count m par - 1))
   }"

partial_function (option) remove_children :: "ram \<Rightarrow> u32 \<Rightarrow> u32 \<Rightarrow> ram option" where
  "remove_children m par j =
     (if j < child_count m par then do {
        let child = child_at m par j;
        m \<leftarrow> (if par = 0 \<or> node_type m par \<noteq> type_code FS_DIRECTORY then Some m
              else case child_index m par child of
                  None \<Rightarrow> Some m
                | Some i \<Rightarrow> do {
                    m \<leftarrow> (if node_type m child = type_code FS_DIRECTORY
                          then remove_children m child 0 else Some m);
                    unlink_child m par i
                  });
        remove_children m par (j + 1)
      } else Some m)"

definition fs_remove_child :: "u32 \<Rightarrow> u32 \<Rightarrow> ram \<Rightarrow> ram option" where
  "fs_remove_child par child m =
     (if par = 0 \<or> node_type m par \<noteq> type_code FS_DIRECTORY then Some m
      else case child_index m par child of
          None \<Rightarrow> Some m
        | Some i \<Rightarrow> do {
            m \<leftarrow> (if node_type m child = type_code FS_DIRECTORY
                  then remove_children m child 0 else Some m);
            unlink_child m par i
          })"

text \<open>The recursion is the function itself, on every child that the loop visits.\<close>

lemma remove_children_step:
  "remove_children m par j =
     (if j < child_count m par
      then do { m \<leftarrow> fs_remove_child par (child_at m par j) m; remove_children m par (j + 1) }
      else Some m)"
  by (subst remove_children.simps) (simp add: fs_remove_child_def Let_def cong: if_cong option.case_cong)

fun find_child_loop :: "ram \<Rightarrow> u32 \<Rightarrow> u32 \<Rightarrow> nat list \<Rightarrow> u32 option" where
  "find_child_loop m par name [] = Some 0"
| "find_child_loop m par name (i # is) = do {
     r \<leftarrow> strcmp m (child_at m par (of_nat i)) name;
     if r = 0 then Some (child_at m par (of_nat i)) else find_child_loop m par name is
   }"

definition fs_find_child :: "ram \<Rightarrow> u32 \<Rightarrow> u32 \<Rightarrow> u32 option" where
  "fs_find_child m par name =
     (if par = 0 \<or> node_type m par \<noteq> type_code FS_DIRECTORY then Some 0
      else find_child_loop m par name [0..<unat (child_count m par)])"

definition fs_init :: "'a ramfs_scheme \<Rightarrow> 'a ramfs_scheme option" where
  "fs_init s = do {
     (r, s) \<leftarrow> fs_create_node (lit s ''/'') FS_DIRECTORY s;
     let s = s\<lparr>root := r\<rparr>;
     if root s = 0
     then printf ''Error initializing filesystem: could not allocate root directory.\<newline>'' [] s
     else printf ''[RAMFS] Filesystem initialized.\<newline>'' [] s
   }"

definition fs_get_root :: "'a ramfs_scheme \<Rightarrow> u32" where
  "fs_get_root s = root s"

section \<open>Files\<close>

text \<open>The results are C's \<open>int\<close>.\<close>

definition fs_read :: "u32 \<Rightarrow> u32 \<Rightarrow> u32 \<Rightarrow> u32 \<Rightarrow> 'a machine_scheme \<Rightarrow> int \<times> 'a machine_scheme" where
  "fs_read file offset n buffer s =
     (if file = 0 \<or> node_type (mem s) file \<noteq> type_code FS_FILE then (- 1, s)
      else let file_size = load32 (mem s) (size_at file) in
      if file_size < offset then (- 1, s)
      else let read_size = (if file_size < offset + n then file_size - offset else n) in
        (sint read_size,
         s\<lparr>mem := memcpy (mem s) buffer (load32 (mem s) (data_at file) + offset) read_size\<rparr>))"

definition fs_write :: "u32 \<Rightarrow> u32 \<Rightarrow> u32 \<Rightarrow> u32 \<Rightarrow> 'a heap_scheme \<Rightarrow> (int \<times> 'a heap_scheme) option" where
  "fs_write file offset n buffer s =
     (if file = 0 \<or> node_type (mem s) file \<noteq> type_code FS_FILE then Some (- 1, s)
      else do {
        (failed, s) \<leftarrow> (if load32 (mem s) (size_at file) < offset + n then do {
            (new_data, s) \<leftarrow> krealloc (load32 (mem s) (data_at file)) (offset + n) s;
            if new_data = 0 then do {
              s \<leftarrow> printf ''Write error: Out of memory for '%s'\<newline>'' [file] s;
              Some (True, s)
            } else Some (False, s\<lparr>mem := store32 (store32 (mem s) (data_at file) new_data)
                                             (size_at file) (offset + n)\<rparr>)
          } else Some (False, s));
        if failed then Some (- 1, s)
        else Some (sint n,
          s\<lparr>mem := memcpy (mem s) (load32 (mem s) (data_at file) + offset) buffer n\<rparr>)
      })"

definition fs_open :: "u32 \<Rightarrow> 'a ramfs_scheme \<Rightarrow> int \<times> 'a ramfs_scheme" where
  "fs_open node s =
     (case find (\<lambda>i. fd_used (fd_table s ! i) = 0) [0..<MAX_OPEN_FILES] of
        Some i \<Rightarrow> (int i, s\<lparr>fd_table := (fd_table s)[i := \<lparr>fd_node = node, fd_offset = 0, fd_used = 1\<rparr>]\<rparr>)
      | None \<Rightarrow> (- 1, s))"

definition fs_close :: "int \<Rightarrow> 'a ramfs_scheme \<Rightarrow> 'a ramfs_scheme" where
  "fs_close fd s =
     (if 0 \<le> fd \<and> fd < MAX_OPEN_FILES \<and> fd_used (fd_table s ! nat fd) \<noteq> 0
      then s\<lparr>fd_table := (fd_table s)[nat fd := (fd_table s ! nat fd)\<lparr>fd_used := 0\<rparr>]\<rparr> else s)"

section \<open>Paths\<close>

text \<open>
  The loop that both overloads of \<open>fs_find_by_path\<close> run: components are collected in \<open>temp\<close>, and a
  \<open>/\<close> looks the component up. The result is \<open>None\<close> for the early return of NULL, otherwise the node
  reached and the length of the component not yet looked up.
\<close>

partial_function (option) path_loop :: "u32 \<Rightarrow> u32 \<Rightarrow> u32 \<Rightarrow> u32 \<Rightarrow> ram \<Rightarrow> ((u32 \<times> u32) option \<times> ram) option" where
  "path_loop temp path i current m =
     (if m path \<noteq> 0 then
        if m path = 47 \<or> m path = 0 then do {
          let m = m(temp + i := 0);
          n \<leftarrow> strlen m temp;
          if 0 < n then do {
            c \<leftarrow> fs_find_child m current temp;
            if c = 0 then Some (None, m) else path_loop temp (path + 1) 0 c m
          } else path_loop temp (path + 1) 0 current m
        } else path_loop temp (path + 1) (i + 1) current (m(temp + i := m path))
      else Some (Some (current, i), m))"

definition fs_find_by_path :: "u32 \<Rightarrow> 'a ramfs_scheme \<Rightarrow> (u32 \<times> 'a ramfs_scheme) option" where
  "fs_find_by_path path s =
     (if path = 0 \<or> mem s path \<noteq> 47 then Some (0, s)
      else do {
        (r, m) \<leftarrow> path_loop (sym s ''fs_find_by_path:temp'') path 0 (fs_get_root s) (mem s);
        Some (case r of None \<Rightarrow> 0 | Some (current, i) \<Rightarrow> current, s\<lparr>mem := m\<rparr>)
      })"

text \<open>The overload with a starting directory.\<close>

definition fs_find_by_path_from :: "u32 \<Rightarrow> u32 \<Rightarrow> 'a ramfs_scheme \<Rightarrow> (u32 \<times> 'a ramfs_scheme) option" where
  "fs_find_by_path_from path current s =
     (if path = 0 then Some (0, s)
      else do {
        let temp = sym s ''fs_find_by_path_from:temp'';
        let (current, path) = (if mem s path = 47 then (fs_get_root s, path + 1) else (current, path));
        (r, m) \<leftarrow> path_loop temp path 0 current (mem s);
        case r of
          None \<Rightarrow> Some (0, s\<lparr>mem := m\<rparr>)
        | Some (current, i) \<Rightarrow> do {
            let m = m(temp + i := 0);
            n \<leftarrow> strlen m temp;
            if 0 < n then do {
              current \<leftarrow> fs_find_child m current temp;
              Some (current, s\<lparr>mem := m\<rparr>)
            } else Some (current, s\<lparr>mem := m\<rparr>)
          }
      })"

text \<open>
  \<open>strcpy\<close> into a local array of \<open>n\<close> bytes: a string that has no room with its terminator is written
  past the end of the array, on the stack.
\<close>

definition strcpy_array :: "u32 \<Rightarrow> ram \<Rightarrow> u32 \<Rightarrow> u32 \<Rightarrow> (fault + ram) option" where
  "strcpy_array n m dest src = fbind (fret (strlen m src)) (\<lambda>k.
     if n \<le> k then Some (Inl StackOverrun) else fret (strcpy m dest src))"

text \<open>
  The arrays are those of the two callers, \<open>char parent_path[128], name[64]\<close>. The directory part is
  copied without a bound too, with its terminator at \<open>parent_path[parent_len]\<close>.
\<close>

definition split_path :: "u32 \<Rightarrow> u32 \<Rightarrow> u32 \<Rightarrow> 'a machine_scheme \<Rightarrow> (fault + 'a machine_scheme) option" where
  "split_path path parent_path name s =
     fbind (fret (strrchr (mem s) path 47)) (\<lambda>last_slash.
       if last_slash \<noteq> 0 then
         let parent_len = last_slash - path in
         if 128 \<le> parent_len then Some (Inl StackOverrun)
         else
           let m = strncpy (mem s) parent_path path parent_len;
               m = m(parent_path + parent_len := 0)
           in fbind (strcpy_array 64 m name (last_slash + 1)) (\<lambda>m. fret (Some (s\<lparr>mem := m\<rparr>)))
       else
         fbind (strcpy_array 128 (mem s) parent_path (lit s '''')) (\<lambda>m.
           fbind (strcpy_array 64 m name path) (\<lambda>m. fret (Some (s\<lparr>mem := m\<rparr>)))))"

definition fs_mkdir :: "u32 \<Rightarrow> 'a ramfs_scheme \<Rightarrow> (fault + u32 \<times> 'a ramfs_scheme) option" where
  "fs_mkdir path s =
     (let parent_path = sym s ''fs_mkdir:parent_path'';
          name = sym s ''fs_mkdir:name''
      in fbind (split_path path parent_path name s) (\<lambda>s. fret (do {
        (par, s) \<leftarrow> fs_find_by_path parent_path s;
        if par = 0 \<or> node_type (mem s) par \<noteq> type_code FS_DIRECTORY then Some (0, s)
        else do {
          (new_dir, s) \<leftarrow> fs_create_node name FS_DIRECTORY s;
          s \<leftarrow> fs_add_child par new_dir s;
          Some (new_dir, s)
        }
      })))"

definition fs_touch :: "u32 \<Rightarrow> 'a ramfs_scheme \<Rightarrow> (fault + u32 \<times> 'a ramfs_scheme) option" where
  "fs_touch path s =
     (let parent_path = sym s ''fs_touch:parent_path'';
          name = sym s ''fs_touch:name''
      in fbind (split_path path parent_path name s) (\<lambda>s. fret (do {
        (par, s) \<leftarrow> fs_find_by_path parent_path s;
        if par = 0 \<or> node_type (mem s) par \<noteq> type_code FS_DIRECTORY then Some (0, s)
        else do {
          (new_file, s) \<leftarrow> fs_create_node name FS_FILE s;
          (data, s) \<leftarrow> kmalloc 1024 s;
          let s = s\<lparr>mem := store32 (mem s) (data_at new_file) data\<rparr>;
          let s = s\<lparr>mem := store32 (mem s) (size_at new_file) 0\<rparr>;
          s \<leftarrow> fs_add_child par new_file s;
          Some (new_file, s)
        }
      })))"

end
