(* ===== verification/Heap_Spec.thy ===== *)
theory Heap_Spec
  imports RAM
begin

text \<open>
  What a heap promises. First an abstract first-fit heap: a list of blocks, each with its payload
  size and its free flag, that tile an area from a base address on, so that every address follows
  from the list. Then the contract between an allocator and its clients: the locale
  \<open>allocator\<close>, with the behaviour of an arbitrary client proved from it.
\<close>

section \<open>First fit over a list of blocks\<close>

type_synonym block = "nat \<times> bool"

fun extent :: "block list \<Rightarrow> nat" where
  "extent [] = 0"
| "extent ((k, f) # bs) = 12 + k + extent bs"

text \<open>The allocated blocks: where the payload starts and how long it is.\<close>

fun payloads :: "nat \<Rightarrow> block list \<Rightarrow> (nat \<times> nat) list" where
  "payloads p [] = []"
| "payloads p ((k, f) # bs) = (if f then [] else [(p + 12, k)]) @ payloads (p + 12 + k) bs"

definition use_block :: "nat \<Rightarrow> nat \<Rightarrow> block list" where
  "use_block n k = (if n + 28 \<le> k then [(n, False), (k - n - 12, True)] else [(k, False)])"

fun first_fit :: "nat \<Rightarrow> nat \<Rightarrow> block list \<Rightarrow> (nat \<times> block list) option" where
  "first_fit n p [] = None"
| "first_fit n p ((k, f) # bs) =
     (if f \<and> n \<le> k then Some (p + 12, use_block n k @ bs)
      else map_option (apsnd ((#) (k, f))) (first_fit n (p + 12 + k) bs))"

definition merge_next :: "nat \<Rightarrow> block list \<Rightarrow> block list" where
  "merge_next k bs = (case bs of
      [] \<Rightarrow> [(k, True)]
    | (k', f) # bs' \<Rightarrow> if f then (k + (k' + 12), True) # bs' else (k, True) # bs)"

fun release :: "nat \<Rightarrow> nat \<Rightarrow> block list \<Rightarrow> block list" where
  "release q p [] = []"
| "release q p ((k, f) # bs) =
     (if p + 12 = q then merge_next k bs else (k, f) # release q (p + 12 + k) bs)"

lemma extent_append [simp]: "extent (xs @ ys) = extent xs + extent ys"
  by (induction xs rule: extent.induct) auto

lemma payloads_append [simp]:
  "payloads p (xs @ ys) = payloads p xs @ payloads (p + extent xs) ys"
  by (induction p xs rule: payloads.induct) (auto simp: add.assoc)

lemma extent_use_block [simp]: "n \<le> k \<Longrightarrow> extent (use_block n k) = 12 + k"
  by (simp add: use_block_def)

lemma extent_merge_next [simp]: "extent (merge_next k bs) = 12 + k + extent bs"
  by (auto simp: merge_next_def split: list.splits)

text \<open>Where the search stops, and where a payload comes from.\<close>

lemma first_fit_split:
  "first_fit n p bs = Some (q, bs') \<Longrightarrow> \<exists>xs k ys. bs = xs @ (k, True) # ys \<and>
     (\<forall>(j, f) \<in> set xs. f \<longrightarrow> j < n) \<and> n \<le> k \<and> q = p + extent xs + 12 \<and>
     bs' = xs @ use_block n k @ ys"
proof (induction n p bs arbitrary: bs' rule: first_fit.induct)
  case (1 n p)
  then show ?case by simp
next
  case (2 n p k f bs)
  show ?case
  proof (cases "f \<and> n \<le> k")
    case True
    with 2 show ?thesis by (intro exI [of _ "[]"]) auto
  next
    case False
    with 2(2) obtain cs where cs: "first_fit n (p + 12 + k) bs = Some (q, cs)" "bs' = (k, f) # cs"
      by (auto simp: apsnd_def map_prod_def)
    from 2(1) [OF False cs(1)] obtain xs j ys where "bs = xs @ (j, True) # ys"
      "\<forall>(j, f) \<in> set xs. f \<longrightarrow> j < n" "n \<le> j" "q = p + 12 + k + extent xs + 12"
      "cs = xs @ use_block n j @ ys"
      by blast
    with False cs(2) show ?thesis
      by (intro exI [of _ "(k, f) # xs"] exI [of _ j] exI [of _ ys]) auto
  qed
qed

lemma first_fit_None: "first_fit n p bs = None \<longleftrightarrow> (\<forall>(k, f) \<in> set bs. f \<longrightarrow> k < n)"
  by (induction n p bs rule: first_fit.induct) auto

lemma payload_split:
  "(q, k) \<in> set (payloads p bs) \<longleftrightarrow>
    (\<exists>xs ys. bs = xs @ (k, False) # ys \<and> q = p + extent xs + 12)"
proof (induction p bs rule: payloads.induct)
  case (2 p j f bs)
  show ?case (is "?L \<longleftrightarrow> ?R")
  proof
    assume ?L
    then consider "f = False" "q = p + 12" "k = j" | "(q, k) \<in> set (payloads (p + 12 + j) bs)"
      by (auto split: if_splits)
    then show ?R
    proof cases
      case 1
      then show ?thesis by (intro exI [of _ "[]"] exI [of _ bs]) simp
    next
      case two: 2
      with 2 obtain xs ys where "bs = xs @ (k, False) # ys" "q = p + 12 + j + extent xs + 12"
        by blast
      then show ?thesis
        by (intro exI [of _ "(j, f) # xs"] exI [of _ ys]) simp
    qed
  next
    assume ?R
    then show ?L
      using 2 by (fastforce simp: Cons_eq_append_conv)
  qed
qed simp

lemma release_split:
  "release (p + extent xs + 12) p (xs @ (k, f) # ys) = xs @ merge_next k ys"
  by (induction "p + extent xs + 12" p xs rule: release.induct) (auto simp: algebra_simps)

lemma payload_bounds:
  "(q, k) \<in> set (payloads p bs) \<Longrightarrow> p + 12 \<le> q \<and> q + k \<le> p + extent bs"
  by (auto simp: payload_split)

lemma payload_disjoint:
  "(q, k) \<in> set (payloads p bs) \<Longrightarrow> (q', k') \<in> set (payloads p bs) \<Longrightarrow>
    (q, k) = (q', k') \<or> q + k + 12 \<le> q' \<or> q' + k' + 12 \<le> q"
proof (induction p bs rule: payloads.induct)
  case (2 p j f bs)
  then show ?case
    using payload_bounds [of q k "p + 12 + j" bs] payload_bounds [of q' k' "p + 12 + j" bs]
    by (auto split: if_splits)
qed simp

lemma payloads_use_block:
  "n \<le> k \<Longrightarrow> payloads p (use_block n k) = [(p + 12, if n + 28 \<le> k then n else k)]"
  by (simp add: use_block_def)

lemma payloads_merge_next [simp]: "payloads p (merge_next k bs) = payloads (p + 12 + k) bs"
  by (auto simp: merge_next_def algebra_simps split: list.splits)

lemma first_fit_payloads:
  assumes "first_fit n p bs = Some (q, bs')"
  obtains k where "n \<le> k" "k < n + 28" "extent bs' = extent bs"
    "\<And>j. (q, j) \<notin> set (payloads p bs)"
    "set (payloads p bs') = insert (q, k) (set (payloads p bs))"
proof -
  from assms obtain xs k ys where bs: "bs = xs @ (k, True) # ys" "n \<le> k"
    "q = p + extent xs + 12" "bs' = xs @ use_block n k @ ys"
    using first_fit_split by blast
  have "(q, j) \<notin> set (payloads p bs)" for j
    using payload_bounds [of q j "p + extent xs + 12 + k" ys] payload_bounds [of q j p xs]
    by (auto simp: bs)
  then show thesis
    using bs by (intro that [of "if n + 28 \<le> k then n else k"])
      (auto simp: payloads_use_block add.assoc)
qed

lemma release_payloads:
  assumes "(q, k) \<in> set (payloads p bs)"
  shows "extent (release q p bs) = extent bs"
    and "set (payloads p (release q p bs)) = set (payloads p bs) - {(q, k)}"
proof -
  from assms obtain xs ys where bs: "bs = xs @ (k, False) # ys" "q = p + extent xs + 12"
    by (auto simp: payload_split)
  have rel: "release q p bs = xs @ merge_next k ys"
    by (simp add: bs release_split)
  then show "extent (release q p bs) = extent bs"
    by (simp add: bs)
  have "(q, k) \<notin> set (payloads p xs)" "(q, k) \<notin> set (payloads (p + extent xs + 12 + k) ys)"
    using payload_bounds [of q k p xs] payload_bounds [of q k "p + extent xs + 12 + k" ys]
    by (auto simp: bs(2))
  then show "set (payloads p (release q p bs)) = set (payloads p bs) - {(q, k)}"
    unfolding rel by (auto simp: bs add.assoc)
qed

text \<open>Every payload size and every address is a multiple of 4.\<close>

definition words4 :: "block list \<Rightarrow> bool" where
  "words4 bs \<longleftrightarrow> (\<forall>(k, f) \<in> set bs. 4 dvd k)"

lemma words4_simps [simp]:
  "words4 []" "words4 ((k, f) # bs) \<longleftrightarrow> 4 dvd k \<and> words4 bs"
  "words4 (xs @ ys) \<longleftrightarrow> words4 xs \<and> words4 ys"
  by (auto simp: words4_def)

lemma words4_extent: "words4 bs \<Longrightarrow> 4 dvd extent bs"
  by (induction bs rule: extent.induct) auto

lemma words4_payload:
  "words4 bs \<Longrightarrow> 4 dvd p \<Longrightarrow> (q, k) \<in> set (payloads p bs) \<Longrightarrow> 4 dvd q \<and> 4 dvd k"
  by (auto simp: payload_split words4_extent)

lemma words4_first_fit: "words4 bs \<Longrightarrow> 4 dvd n \<Longrightarrow> first_fit n p bs = Some (q, bs') \<Longrightarrow> words4 bs'"
  by (drule first_fit_split) (auto simp: use_block_def dvd_diff_nat)

lemma words4_release: "words4 bs \<Longrightarrow> words4 (release q p bs)"
  by (induction q p bs rule: release.induct) (auto simp: merge_next_def split: list.splits)

section \<open>The contract of an allocator\<close>

text \<open>
  \<open>rep s a\<close>: the state \<open>s\<close> holds the abstract heap \<open>a\<close>, whose allocated blocks are \<open>live a\<close>.
  The allocator's own bookkeeping stays in \<open>area\<close>, and out of the allocated blocks.
\<close>

definition keeps :: "u32 set \<Rightarrow> (u32 \<times> nat) set \<Rightarrow> ram \<Rightarrow> ram \<Rightarrow> bool" where
  "keeps A L m m' \<longleftrightarrow> (\<forall>x. x \<notin> A \<longrightarrow> m' x = m x) \<and> (\<forall>(p, k) \<in> L. agree_on m m' p k)"

locale allocator =
  fixes area :: "u32 set"
    and rep :: "'s \<Rightarrow> 'a \<Rightarrow> bool"
    and live :: "'a \<Rightarrow> (u32 \<times> nat) set"
    and ram_of :: "'s \<Rightarrow> ram"
    and set_ram :: "ram \<Rightarrow> 's \<Rightarrow> 's"
    and acquire :: "u32 \<Rightarrow> 's \<Rightarrow> (u32 \<times> 's) option"
    and dispose :: "u32 \<Rightarrow> 's \<Rightarrow> 's option"
  assumes acquire_ok: "rep s a \<Longrightarrow> 0 < n \<Longrightarrow> n \<le> 0xFFFFFFF0 \<Longrightarrow>
      \<exists>p s' a'. acquire n s = Some (p, s') \<and> rep s' a' \<and> keeps area (live a) (ram_of s) (ram_of s') \<and>
        (if p = 0 then live a' = live a
         else (\<forall>k. (p, k) \<notin> live a) \<and> (\<exists>k \<ge> unat n. live a' = insert (p, k) (live a)))"
    and dispose_ok: "rep s a \<Longrightarrow> (p, k) \<in> live a \<Longrightarrow>
      \<exists>s' a'. dispose p s = Some s' \<and> rep s' a' \<and> live a' = live a - {(p, k)} \<and>
        keeps area (live a') (ram_of s) (ram_of s')"
    and live_apart: "rep s a \<Longrightarrow> (p, k) \<in> live a \<Longrightarrow> (q, l) \<in> live a \<Longrightarrow>
      (p, k) = (q, l) \<or> (p \<noteq> q \<and> apart p k q l)"
    and live_fits: "rep s a \<Longrightarrow> (p, k) \<in> live a \<Longrightarrow> p \<noteq> 0 \<and> fits p k"
    and live_area: "rep s a \<Longrightarrow> (p, k) \<in> live a \<Longrightarrow> in_region x p k \<Longrightarrow> x \<in> area"
    and write_ok: "rep s a \<Longrightarrow> (p, k) \<in> live a \<Longrightarrow>
      (\<And>x. \<not> in_region x p k \<Longrightarrow> m x = ram_of s x) \<Longrightarrow> rep (set_ram m s) a"
    and ram_of_set_ram: "ram_of (set_ram m s) = m"
begin

lemma write_keeps:
  assumes "rep s a" "(p, k) \<in> live a" "\<And>x. \<not> in_region x p k \<Longrightarrow> m x = ram_of s x"
  shows "keeps area (live a - {(p, k)}) (ram_of s) m"
proof -
  have "agree_on (ram_of s) m q l" if "(q, l) \<in> live a" "(q, l) \<noteq> (p, k)" for q l
    using live_apart [OF assms(1,2) that(1)] that(2) assms(3)
    by (auto simp: agree_on_def apart_sym dest: apart_in_region)
  moreover have "m x = ram_of s x" if "x \<notin> area" for x
    using live_area [OF assms(1,2)] that by (intro assms(3)) blast
  ultimately show ?thesis by (auto simp: keeps_def)
qed

end

section \<open>An arbitrary client\<close>

text \<open>
  A client acquires blocks, disposes of blocks it owns, and stores bytes into blocks it owns. It
  keeps the list of its blocks with the sizes that it asked for, and remembers the last byte that
  it stored at each offset of each block (\<open>shadow\<close>).
\<close>

datatype client_op = Get u32 | Put u32 | Store u32 nat u8

type_synonym shadow = "u32 \<times> nat \<Rightarrow> u8 option"

fun client_step :: "('s \<Rightarrow> ram) \<Rightarrow> (ram \<Rightarrow> 's \<Rightarrow> 's) \<Rightarrow> (u32 \<Rightarrow> 's \<Rightarrow> (u32 \<times> 's) option) \<Rightarrow>
    (u32 \<Rightarrow> 's \<Rightarrow> 's option) \<Rightarrow> client_op \<Rightarrow> 's \<times> (u32 \<times> nat) list \<times> shadow \<Rightarrow>
    ('s \<times> (u32 \<times> nat) list \<times> shadow) option" where
  "client_step rd wr acq dis (Get n) (s, own, sh) =
     map_option (\<lambda>(p, s'). if p = 0 then (s', own, sh)
       else (s', (p, unat n) # own, \<lambda>(q, i). if q = p then None else sh (q, i))) (acq n s)"
| "client_step rd wr acq dis (Put p) (s, own, sh) =
     (if p \<in> fst ` set own
      then map_option (\<lambda>s'. (s', filter (\<lambda>(q, n). q \<noteq> p) own, sh)) (dis p s)
      else Some (s, own, sh))"
| "client_step rd wr acq dis (Store p i v) (s, own, sh) =
     (if \<exists>(q, n) \<in> set own. q = p \<and> i < n
      then Some (wr ((rd s)(p + of_nat i := v)) s, own, sh((p, i) \<mapsto> v))
      else Some (s, own, sh))"

fun client_run :: "('s \<Rightarrow> ram) \<Rightarrow> (ram \<Rightarrow> 's \<Rightarrow> 's) \<Rightarrow> (u32 \<Rightarrow> 's \<Rightarrow> (u32 \<times> 's) option) \<Rightarrow>
    (u32 \<Rightarrow> 's \<Rightarrow> 's option) \<Rightarrow> client_op list \<Rightarrow> 's \<times> (u32 \<times> nat) list \<times> shadow \<Rightarrow>
    ('s \<times> (u32 \<times> nat) list \<times> shadow) option" where
  "client_run rd wr acq dis [] c = Some c"
| "client_run rd wr acq dis (x # xs) c =
     Option.bind (client_step rd wr acq dis x c) (client_run rd wr acq dis xs)"

text \<open>What the client may rely on: its blocks are its own and hold what it stored.\<close>

definition owns :: "(u32 \<times> nat) set \<Rightarrow> (u32 \<times> nat) list \<Rightarrow> bool" where
  "owns L own \<longleftrightarrow> distinct (map fst own) \<and> (\<forall>(p, n) \<in> set own. \<exists>k \<ge> n. (p, k) \<in> L)"

definition holds_shadow :: "ram \<Rightarrow> (u32 \<times> nat) list \<Rightarrow> shadow \<Rightarrow> bool" where
  "holds_shadow m own sh \<longleftrightarrow>
     (\<forall>(p, n) \<in> set own. \<forall>i < n. \<forall>v. sh (p, i) = Some v \<longrightarrow> m (p + of_nat i) = v)"

fun sane_op :: "client_op \<Rightarrow> bool" where
  "sane_op (Get n) \<longleftrightarrow> 0 < n \<and> n \<le> 0xFFFFFFF0"
| "sane_op (Put p) \<longleftrightarrow> True"
| "sane_op (Store p i v) \<longleftrightarrow> True"

lemma holds_shadow_agree:
  assumes "holds_shadow m own sh" "set own' \<subseteq> set own"
    "\<And>p n. (p, n) \<in> set own' \<Longrightarrow> agree_on m m' p n \<and> fits p n"
  shows "holds_shadow m' own' sh"
  using assms by (fastforce simp: holds_shadow_def agree_on_offset)

lemma ownsD: "owns L own \<Longrightarrow> (p, n) \<in> set own \<Longrightarrow> \<exists>k \<ge> n. (p, k) \<in> L"
  by (auto simp: owns_def)

lemma keepsD: "keeps A L m m' \<Longrightarrow> (p, k) \<in> L \<Longrightarrow> agree_on m m' p k"
  by (auto simp: keeps_def)

lemma keeps_agree: "keeps A L m m' \<Longrightarrow> (p, k) \<in> L \<Longrightarrow> n \<le> k \<Longrightarrow> agree_on m m' p n"
  by (auto simp: keeps_def intro: agree_on_sub)

lemma owns_mono:
  "owns L own \<Longrightarrow> (\<And>p n k. (p, n) \<in> set own' \<Longrightarrow> (p, k) \<in> L \<Longrightarrow> (p, k) \<in> L') \<Longrightarrow>
    set own' \<subseteq> set own \<Longrightarrow> distinct (map fst own') \<Longrightarrow> owns L' own'"
  by (fastforce simp: owns_def)

context allocator
begin

text \<open>The step from one heap to another in which the remaining blocks of the client survive.\<close>

lemma shadow_keeps:
  assumes "rep s a" "owns (live a) own" "holds_shadow (ram_of s) own sh"
    and "set own' \<subseteq> set own" "keeps A L (ram_of s) m"
    and "\<And>p n k. (p, n) \<in> set own' \<Longrightarrow> (p, k) \<in> live a \<Longrightarrow> (p, k) \<in> L"
  shows "holds_shadow m own' sh"
proof (rule holds_shadow_agree [OF assms(3,4)])
  fix p n
  assume pn: "(p, n) \<in> set own'"
  with assms(2,4) obtain k where k: "n \<le> k" "(p, k) \<in> live a"
    using ownsD by blast
  then have "agree_on (ram_of s) m p n"
    using keeps_agree [OF assms(5) assms(6) [OF pn]] by blast
  moreover have "fits p n"
    using live_fits [OF assms(1) k(2)] k(1) by (simp add: fits_def)
  ultimately show "agree_on (ram_of s) m p n \<and> fits p n" ..
qed

abbreviation good :: "'s \<times> (u32 \<times> nat) list \<times> shadow \<Rightarrow> bool" where
  "good c \<equiv> (case c of (s, own, sh) \<Rightarrow>
     \<exists>a. rep s a \<and> owns (live a) own \<and> holds_shadow (ram_of s) own sh)"

lemma get_ok:
  assumes "rep s a" "owns (live a) own" "holds_shadow (ram_of s) own sh" "0 < n" "n \<le> 0xFFFFFFF0"
  shows "\<exists>c. client_step ram_of set_ram acquire dispose (Get n) (s, own, sh) = Some c \<and> good c"
proof -
  obtain p s' a' where acq: "acquire n s = Some (p, s')" "rep s' a'"
    "keeps area (live a) (ram_of s) (ram_of s')"
    "if p = 0 then live a' = live a
     else (\<forall>k. (p, k) \<notin> live a) \<and> (\<exists>k \<ge> unat n. live a' = insert (p, k) (live a))"
    using acquire_ok [OF assms(1,4,5)] by blast
  have sh: "holds_shadow (ram_of s') own sh"
    using shadow_keeps [OF assms(1-3) _ acq(3)] by blast
  show ?thesis
  proof (cases "p = 0")
    case True
    with acq assms(2) sh show ?thesis by auto
  next
    case False
    then obtain k where k: "unat n \<le> k" "live a' = insert (p, k) (live a)" "\<forall>k. (p, k) \<notin> live a"
      using acq(4) by auto
    then have fresh: "p \<notin> fst ` set own"
      using assms(2) by (force simp: owns_def)
    then have "holds_shadow (ram_of s') ((p, unat n) # own) (\<lambda>(q, i). if q = p then None else sh (q, i))"
      using sh by (auto simp: holds_shadow_def)
    moreover have "owns (live a') ((p, unat n) # own)"
      using assms(2) k fresh by (auto simp: owns_def)
    ultimately show ?thesis
      using False acq by auto
  qed
qed

lemma put_ok:
  assumes "rep s a" "owns (live a) own" "holds_shadow (ram_of s) own sh"
  shows "\<exists>c. client_step ram_of set_ram acquire dispose (Put p) (s, own, sh) = Some c \<and> good c"
proof (cases "p \<in> fst ` set own")
  case True
  then obtain n k where k: "(p, k) \<in> live a"
    using assms(2) by (force simp: owns_def)
  obtain s' a' where dis: "dispose p s = Some s'" "rep s' a'" "live a' = live a - {(p, k)}"
    "keeps area (live a') (ram_of s) (ram_of s')"
    using dispose_ok [OF assms(1) k] by blast
  let ?own = "filter (\<lambda>(q, n). q \<noteq> p) own"
  have sub: "(q, j) \<in> live a'" if "(q, n) \<in> set ?own" "(q, j) \<in> live a" for q n j
    using that by (auto simp: dis(3))
  have dist: "distinct (map fst ?own)"
    using assms(2) by (auto simp: owns_def distinct_map inj_on_def)
  have "holds_shadow (ram_of s') ?own sh"
    using sub by (intro shadow_keeps [OF assms _ dis(4)]) auto
  moreover have "owns (live a') ?own"
    by (rule owns_mono [OF assms(2) _ _ dist]) (use sub in auto)
  ultimately show ?thesis
    using True dis(1,2) by auto
next
  case False
  with assms show ?thesis by auto
qed

lemma store_ok:
  assumes "rep s a" "owns (live a) own" "holds_shadow (ram_of s) own sh"
  shows "\<exists>c. client_step ram_of set_ram acquire dispose (Store p i v) (s, own, sh) = Some c \<and> good c"
proof (cases "\<exists>(q, n) \<in> set own. q = p \<and> i < n")
  case True
  then obtain n where n: "(p, n) \<in> set own" "i < n" by auto
  then obtain k where k: "(p, k) \<in> live a" "n \<le> k"
    using assms(2) by (auto simp: owns_def)
  let ?m = "(ram_of s)(p + of_nat i := v)"
  have fit: "fits p k" using live_fits [OF assms(1) k(1)] by simp
  have out: "?m x = ram_of s x" if "\<not> in_region x p k" for x
    using that in_region_offset [OF fit, of i] n k by auto
  have rep: "rep (set_ram ?m s) a"
    by (rule write_ok [OF assms(1) k(1) out])
  have keep: "keeps area (live a - {(p, k)}) (ram_of s) ?m"
    by (rule write_keeps [OF assms(1) k(1) out])
  have "holds_shadow ?m own (sh((p, i) \<mapsto> v))"
    unfolding holds_shadow_def
  proof (safe)
    fix q l j w
    assume q: "(q, l) \<in> set own" and j: "j < l" and w: "(sh((p, i) \<mapsto> v)) (q, j) = Some w"
    obtain k' where k': "(q, k') \<in> live a" "l \<le> k'"
      using q assms(2) by (auto simp: owns_def)
    show "?m (q + of_nat j) = w"
    proof (cases "q = p")
      case True
      have "p + of_nat j = p + of_nat i \<longleftrightarrow> j = i"
        using fit k n j k' True live_apart [OF assms(1) k(1) k'(1)]
        by (auto simp: u32_eq_iff fits_def unat_add_of_nat)
      with assms(3) q j w True show ?thesis
        by (auto simp: holds_shadow_def split: if_splits)
    next
      case False
      then have "(q, k') \<in> live a - {(p, k)}" using k' by simp
      then have "agree_on (ram_of s) ?m q k'" by (rule keepsD [OF keep])
      then have "?m (q + of_nat j) = ram_of s (q + of_nat j)"
        by (rule agree_on_offset) (use live_fits [OF assms(1) k'(1)] k'(2) j in auto)
      also have "\<dots> = w"
        using assms(3) q j w False by (auto simp: holds_shadow_def)
      finally show ?thesis .
    qed
  qed
  moreover have "ram_of (set_ram ?m s) = ?m"
    by (rule ram_of_set_ram)
  ultimately show ?thesis
    using True assms(2) rep by auto
next
  case False
  with assms show ?thesis by auto
qed

theorem client_run_ok:
  "(\<And>x. x \<in> set ops \<Longrightarrow> sane_op x) \<Longrightarrow> good c \<Longrightarrow>
    \<exists>c'. client_run ram_of set_ram acquire dispose ops c = Some c' \<and> good c'"
proof (induction ops arbitrary: c)
  case (Cons x ops)
  obtain s own sh a where c: "c = (s, own, sh)" "rep s a" "owns (live a) own"
    "holds_shadow (ram_of s) own sh"
    using Cons.prems(2) by (cases c) auto
  have "\<exists>c'. client_step ram_of set_ram acquire dispose x c = Some c' \<and> good c'"
    using get_ok [OF c(2-4)] put_ok [OF c(2-4)] store_ok [OF c(2-4)] Cons.prems(1) [of x]
    unfolding c(1) by (cases x) simp_all
  then obtain c' where "client_step ram_of set_ram acquire dispose x c = Some c'" "good c'"
    by blast
  with Cons show ?case by auto
qed auto

text \<open>Two blocks that a client owns never overlap.\<close>

lemma owned_apart:
  assumes "rep s a" "owns (live a) own" "(p, n) \<in> set own" "(q, l) \<in> set own" "p \<noteq> q"
  shows "apart p n q l"
proof -
  obtain k k' where "n \<le> k" "(p, k) \<in> live a" "l \<le> k'" "(q, k') \<in> live a"
    using ownsD [OF assms(2,3)] ownsD [OF assms(2,4)] by blast
  with live_apart [OF assms(1), of p k q k'] assms(5) show ?thesis
    by (auto simp: apart_def)
qed

end

end
