(* ===== verification/Heap_Rep.thy ===== *)
theory Heap_Rep
  imports Heap Heap_Spec
begin

text \<open>
  The kernel heap implements the abstract heap: the relation between the headers in memory and a
  list of blocks, what each function of \<open>src/kernel/heap.cpp\<close> does to that list, and the
  interpretation of the allocator's contract by \<open>kmalloc\<close> and \<open>kfree\<close>.
\<close>

section \<open>The representation\<close>

text \<open>
  \<open>chain m p bs e\<close>: from address \<open>p\<close> on, memory holds the headers of the blocks \<open>bs\<close>, one right
  after the other, and the \<open>next\<close> of the last one is \<open>e\<close>.
\<close>

definition hdr :: "ram \<Rightarrow> nat \<Rightarrow> nat \<Rightarrow> u32 \<Rightarrow> bool \<Rightarrow> bool" where
  "hdr m p k nx f \<longleftrightarrow> load32 m (of_nat p) = of_nat k \<and> load32 m (of_nat p + 4) = nx \<and>
     m (of_nat p + 8) = (if f then 1 else 0)"

fun chain :: "ram \<Rightarrow> nat \<Rightarrow> block list \<Rightarrow> u32 \<Rightarrow> bool" where
  "chain m p [] e \<longleftrightarrow> True"
| "chain m p ((k, f) # bs) e \<longleftrightarrow>
     hdr m p k (if bs = [] then e else of_nat (p + 12 + k)) f \<and> chain m (p + 12 + k) bs e"

definition heap_area :: "u32 set" where
  "heap_area = {x. 0x800000 \<le> unat x \<and> unat x < 0x1000000}"

definition heap_rep :: "'a heap_scheme \<Rightarrow> block list \<Rightarrow> bool" where
  "heap_rep s bs \<longleftrightarrow> free_list s = KERNEL_HEAP_START \<and> extent bs = KERNEL_HEAP_SIZE \<and> words4 bs \<and>
     chain (mem s) KERNEL_HEAP_START bs 0"

definition heap_live :: "block list \<Rightarrow> (u32 \<times> nat) set" where
  "heap_live bs = (\<lambda>(q, k). (of_nat q, k)) ` set (payloads KERNEL_HEAP_START bs)"

lemma hdr_agree:
  "hdr m p k nx f \<Longrightarrow> p + 12 \<le> 4294967296 \<Longrightarrow> (\<And>x. p \<le> unat x \<Longrightarrow> unat x < p + 12 \<Longrightarrow> m' x = m x) \<Longrightarrow>
    hdr m' p k nx f"
proof -
  assume h: "hdr m p k nx f" and p: "p + 12 \<le> 4294967296"
    and m: "\<And>x. p \<le> unat x \<Longrightarrow> unat x < p + 12 \<Longrightarrow> m' x = m x"
  have u: "unat (of_nat p :: u32) = p" "unat (of_nat p + 4 :: u32) = p + 4" "unat (of_nat p + 8 :: u32) = p + 8"
    using p by (simp_all add: unat_of_nat_u32 unat_add_numeral)
  have "load32 m' (of_nat p) = load32 m (of_nat p)" "load32 m' (of_nat p + 4) = load32 m (of_nat p + 4)"
    using m p by (intro agree_on_load32; simp add: agree_on_def in_region_def fits_def u)+
  moreover have "m' (of_nat p + 8) = m (of_nat p + 8)"
    by (rule m) (simp_all add: u)
  ultimately show ?thesis
    using h by (simp add: hdr_def)
qed

lemma chain_agree:
  "chain m p bs e \<Longrightarrow> p + extent bs \<le> 4294967296 \<Longrightarrow>
    (\<And>x. p \<le> unat x \<Longrightarrow> unat x < p + extent bs \<Longrightarrow> m' x = m x) \<Longrightarrow> chain m' p bs e"
proof (induction m p bs e rule: chain.induct)
  case (2 m p k f bs e)
  then show ?case
    by (auto elim!: hdr_agree)
qed simp

lemma chain_append:
  "ys \<noteq> [] \<Longrightarrow> chain m p (xs @ ys) e \<longleftrightarrow>
    chain m p xs (of_nat (p + extent xs)) \<and> chain m (p + extent xs) ys e"
  by (induction xs arbitrary: p rule: extent.induct) (simp_all add: add.assoc del: of_nat_add)

lemma chain_payload:
  assumes "\<And>x. unat x < q \<or> q + k \<le> unat x \<Longrightarrow> m' x = m x"
  shows "chain m p bs e \<Longrightarrow> p + extent bs \<le> 4294967296 \<Longrightarrow> (q, k) \<in> set (payloads p bs) \<Longrightarrow>
    chain m' p bs e"
proof (induction bs arbitrary: p)
  case (Cons b bs)
  obtain j f where b: "b = (j, f)" by (cases b)
  let ?nx = "if bs = [] then e else of_nat (p + 12 + j)"
  have prems: "hdr m p j ?nx f" "chain m (p + 12 + j) bs e" "p + 12 + j + extent bs \<le> 4294967296"
    using Cons.prems(1,2) by (simp_all add: b)
  have "p + 12 \<le> q"
    using payload_bounds [OF Cons.prems(3)] by simp
  then have h: "hdr m' p j ?nx f"
    using prems(3) by (intro hdr_agree [OF prems(1)] assms) auto
  moreover have "chain m' (p + 12 + j) bs e"
  proof (cases "(q, k) \<in> set (payloads (p + 12 + j) bs)")
    case True
    show ?thesis by (rule Cons.IH [OF prems(2,3) True])
  next
    case False
    with Cons.prems(3) have "q = p + 12" "k = j" by (auto simp: b split: if_splits)
    then show ?thesis
      by (intro chain_agree [OF prems(2,3)] assms) simp
  qed
  ultimately show ?case by (simp add: b)
qed simp

lemma find_block_chain:
  "chain m p bs 0 \<Longrightarrow> 0 < p \<Longrightarrow> p + extent bs \<le> 0x1000000 \<Longrightarrow>
    find_block m n (if bs = [] then 0 else of_nat p) =
      Some (case first_fit (unat n) p bs of None \<Rightarrow> 0 | Some (q, bs') \<Rightarrow> of_nat (q - 12))"
proof (induction bs arbitrary: p)
  case Nil
  then show ?case by (simp add: find_block.simps)
next
  case (Cons b bs)
  obtain k f where b: "b = (k, f)" by (cases b)
  have u: "unat (of_nat p :: u32) = p" "unat (of_nat k :: u32) = k"
    using Cons.prems by (simp_all add: b unat_of_nat_u32)
  then have nz: "(of_nat p :: u32) \<noteq> 0"
    using Cons.prems by (auto simp: u32_eq_iff)
  have h: "load32 m (of_nat p) = of_nat k" "m (of_nat p + 8) = (if f then 1 else 0)"
    "load32 m (of_nat p + 4) = (if bs = [] then 0 else of_nat (p + 12 + k))"
    using Cons.prems by (simp_all add: b hdr_def)
  have le: "n \<le> of_nat k \<longleftrightarrow> unat n \<le> k"
    by (simp add: u32_le_iff u)
  have IH: "find_block m n (if bs = [] then 0 else of_nat (p + 12 + k)) =
      Some (case first_fit (unat n) (p + 12 + k) bs of None \<Rightarrow> 0 | Some (q, bs') \<Rightarrow> of_nat (q - 12))"
    using Cons.prems by (intro Cons.IH) (simp_all add: b)
  show ?case
  proof (cases "f \<and> unat n \<le> k")
    case True
    then show ?thesis
      using nz h le by (subst find_block.simps) (simp add: b)
  next
    case False
    then have "find_block m n (of_nat p) = find_block m n (if bs = [] then 0 else of_nat (p + 12 + k))"
      using nz h le by (subst find_block.simps) auto
    with False IH show ?thesis
      by (auto simp: b split: option.splits)
  qed
qed

section \<open>Updates of headers\<close>

lemma hdr_set_free:
  assumes "hdr m p k nx f" "p + 12 \<le> 4294967296" "b = (if g then 1 else 0)"
  shows "hdr (m(of_nat p + 8 := b)) p k nx g"
    and "\<not> (p \<le> unat x \<and> unat x < p + 12) \<Longrightarrow> (m(of_nat p + 8 := b)) x = m x"
proof -
  have u: "unat (of_nat p :: u32) = p" "unat (of_nat p + 4 :: u32) = p + 4" "unat (of_nat p + 8 :: u32) = p + 8"
    using assms(2) by (simp_all add: unat_of_nat_u32 unat_add_numeral)
  have "load32 (m(of_nat p + 8 := b)) q = load32 m q" if "unat q = p \<or> unat q = p + 4" for q
    using that assms(2) by (intro agree_on_load32 agree_on_upd) (auto simp: in_region_def fits_def u)
  then show "hdr (m(of_nat p + 8 := b)) p k nx g"
    using assms(1,3) by (simp add: hdr_def u)
  show "(m(of_nat p + 8 := b)) x = m x" if "\<not> (p \<le> unat x \<and> unat x < p + 12)"
    using that by (auto simp: u)
qed

text \<open>A header written field by field; the fields of the code are stored in this order.\<close>

lemma hdr_write:
  assumes "p + 12 \<le> 4294967296"
  shows "hdr ((store32 (store32 m (of_nat p) (of_nat k)) (of_nat p + 4) nx)(of_nat p + 8 := 1)) p k nx True"
    and "\<not> (p \<le> unat x \<and> unat x < p + 12) \<Longrightarrow>
      ((store32 (store32 m (of_nat p) (of_nat k)) (of_nat p + 4) nx)(of_nat p + 8 := 1)) x = m x"
proof -
  have u: "unat (of_nat p :: u32) = p" "unat (of_nat p + 4 :: u32) = p + 4" "unat (of_nat p + 8 :: u32) = p + 8"
    using assms by (simp_all add: unat_of_nat_u32 unat_add_numeral)
  have fit: "fits (of_nat p) 4" "fits (of_nat p + 4) 4" "apart (of_nat p + 4) 4 (of_nat p) 4"
    using assms by (simp_all add: fits_def apart_def u)
  let ?m = "store32 (store32 m (of_nat p) (of_nat k)) (of_nat p + 4) nx"
  have "load32 (?m(of_nat p + 8 := 1)) q = load32 ?m q" if "unat q = p \<or> unat q = p + 4" for q
    using that assms by (intro agree_on_load32 agree_on_upd) (auto simp: in_region_def fits_def u)
  then show "hdr (?m(of_nat p + 8 := 1)) p k nx True"
    by (simp add: hdr_def u load32_store32_other fit)
  show "(?m(of_nat p + 8 := 1)) x = m x" if "\<not> (p \<le> unat x \<and> unat x < p + 12)"
    using that fit by (auto simp: u store32_other in_region_def)
qed

lemma hdr_resize:
  assumes "hdr m p k nx f" "p + 12 \<le> 4294967296"
  shows "hdr (store32 (store32 m (of_nat p) (of_nat k')) (of_nat p + 4) nx') p k' nx' f"
    and "\<not> (p \<le> unat x \<and> unat x < p + 12) \<Longrightarrow>
      store32 (store32 m (of_nat p) (of_nat k')) (of_nat p + 4) nx' x = m x"
proof -
  have u: "unat (of_nat p :: u32) = p" "unat (of_nat p + 4 :: u32) = p + 4" "unat (of_nat p + 8 :: u32) = p + 8"
    using assms(2) by (simp_all add: unat_of_nat_u32 unat_add_numeral)
  have fit: "fits (of_nat p) 4" "fits (of_nat p + 4) 4" "apart (of_nat p + 4) 4 (of_nat p) 4"
    using assms(2) by (simp_all add: fits_def apart_def u)
  let ?m = "store32 (store32 m (of_nat p) (of_nat k')) (of_nat p + 4) nx'"
  have "?m (of_nat p + 8) = m (of_nat p + 8)"
    using fit by (simp add: store32_other in_region_def u)
  then show "hdr ?m p k' nx' f"
    using assms(1) by (simp add: hdr_def load32_store32_other fit)
  show "?m x = m x" if "\<not> (p \<le> unat x \<and> unat x < p + 12)"
    using that fit by (auto simp: u store32_other in_region_def)
qed

lemma split_block_hdr:
  assumes h: "hdr m p k nx f" and k: "n + 28 \<le> k" and p: "p + 12 + k \<le> 0x1000000"
  defines "m' \<equiv> split_block (of_nat p) (of_nat n) m"
  shows "hdr m' p n (of_nat (p + 12 + n)) f" "hdr m' (p + 12 + n) (k - n - 12) nx True"
    and "\<And>x. \<not> (p \<le> unat x \<and> unat x < p + 12 + k) \<Longrightarrow> m' x = m x"
proof -
  let ?b = "p + 12 + n"
  define m1 where "m1 = (store32 (store32 m (of_nat ?b) (of_nat (k - n - 12))) (of_nat ?b + 4) nx)(of_nat ?b + 8 := 1)"
  have b: "?b + 12 \<le> 4294967296" "p + 12 \<le> 4294967296"
    using k p by simp_all
  have load: "load32 m (of_nat p) = of_nat k" "load32 m (of_nat p + 4) = nx"
    using h by (simp_all add: hdr_def)
  have addr: "(of_nat p + 12 + of_nat n :: u32) = of_nat ?b"
    by simp
  have sz: "(of_nat k - of_nat n - 12 :: u32) = of_nat (k - n - 12)"
    using k by (simp add: of_nat_diff)
  have u: "unat (of_nat p :: u32) = p" "unat (of_nat p + 4 :: u32) = p + 4" "unat (of_nat ?b :: u32) = ?b"
    using b by (simp_all add: unat_of_nat_u32 unat_add_numeral del: of_nat_add)
  have nx: "load32 (store32 m (of_nat ?b) v) (of_nat p + 4) = nx" for v
    unfolding load(2) [symmetric] using b
    by (intro load32_store32_other) (simp_all add: fits_def apart_def u del: of_nat_add)
  have m': "m' = store32 (store32 m1 (of_nat p) (of_nat n)) (of_nat p + 4) (of_nat ?b)"
    unfolding m'_def split_block_def Let_def addr m1_def nx load(1) sz by simp
  have out1: "m1 x = m x" if "\<not> (?b \<le> unat x \<and> unat x < ?b + 12)" for x
    unfolding m1_def by (rule hdr_write(2) [OF b(1) that])
  have h1: "hdr m1 p k nx f"
    using k by (intro hdr_agree [OF h b(2)] out1) simp
  have m1: "hdr m1 ?b (k - n - 12) nx True"
    unfolding m1_def by (rule hdr_write(1) [OF b(1)])
  have out: "m' x = m1 x" if "\<not> (p \<le> unat x \<and> unat x < p + 12)" for x
    unfolding m' by (rule hdr_resize(2) [OF h1 b(2) that])
  show "hdr m' p n (of_nat ?b) f"
    unfolding m' by (rule hdr_resize(1) [OF h1 b(2)])
  show "hdr m' ?b (k - n - 12) nx True"
    by (intro hdr_agree [OF m1 b(1)] out) simp
  show "m' x = m x" if "\<not> (p \<le> unat x \<and> unat x < p + 12 + k)" for x
  proof -
    have "m' x = m1 x" using that k by (intro out) linarith
    also have "\<dots> = m x" using that k by (intro out1) linarith
    finally show ?thesis .
  qed
qed

section \<open>Allocation and release on the chain\<close>

lemma chain_middle:
  "chain m p (xs @ (k, f) # ys) 0 \<longleftrightarrow> chain m p xs (of_nat (p + extent xs)) \<and>
     hdr m (p + extent xs) k (if ys = [] then 0 else of_nat (p + extent xs + 12 + k)) f \<and>
     chain m (p + extent xs + 12 + k) ys 0"
  by (simp add: chain_append del: of_nat_add)

lemma use_block_chain:
  assumes ch: "chain m p (xs @ (k, True) # ys) 0" and sz: "p + extent (xs @ (k, True) # ys) \<le> 0x1000000"
    and n: "n \<le> k" and P: "P = p + extent xs"
  defines "m' \<equiv> (if n + 28 \<le> k then split_block (of_nat P) (of_nat n) m else m)(of_nat P + 8 := 0)"
  shows "chain m' p (xs @ use_block n k @ ys) 0"
    and "\<And>x. \<not> (P \<le> unat x \<and> unat x < P + 12 + k) \<Longrightarrow> m' x = m x"
proof -
  let ?nx = "if ys = [] then 0 else of_nat (P + 12 + k)"
  have pre: "chain m p xs (of_nat P)" "hdr m P k ?nx True" "chain m (P + 12 + k) ys 0"
    using ch by (simp_all only: chain_middle P)
  have le: "P + 12 + k + extent ys \<le> 0x1000000" "P + 12 + k \<le> 0x1000000" "P + 12 \<le> 4294967296"
    using sz by (simp_all add: P)
  define m1 where "m1 = (if n + 28 \<le> k then split_block (of_nat P) (of_nat n) m else m)"
  have m': "m' = m1(of_nat P + 8 := 0)"
    by (simp only: m'_def m1_def)
  have out1: "m1 x = m x" if "\<not> (P \<le> unat x \<and> unat x < P + 12 + k)" for x
    using split_block_hdr(3) [OF pre(2) _ le(2) that] by (cases "n + 28 \<le> k") (simp_all add: m1_def)
  obtain k1 nx1 where h1: "hdr m1 P k1 nx1 True"
    using split_block_hdr(1) [OF pre(2) _ le(2)] pre(2) by (cases "n + 28 \<le> k") (fastforce simp: m1_def)+
  have out2: "m' x = m1 x" if "\<not> (P \<le> unat x \<and> unat x < P + 12)" for x
    unfolding m' by (rule hdr_set_free(2) [OF h1 le(3) _ that, of 0 False]) simp
  show out: "m' x = m x" if "\<not> (P \<le> unat x \<and> unat x < P + 12 + k)" for x
  proof -
    have "m' x = m1 x" using that by (intro out2) linarith
    also have "\<dots> = m x" by (rule out1 [OF that])
    finally show ?thesis .
  qed
  have left: "chain m' p xs (of_nat P)"
    using le by (intro chain_agree [OF pre(1)] out) (simp_all add: P)
  have right: "chain m' (P + 12 + k) ys 0"
    using le by (intro chain_agree [OF pre(3)] out) simp_all
  have "chain m' P (use_block n k @ ys) 0"
  proof (cases "n + 28 \<le> k")
    case True
    note split = split_block_hdr(1,2) [OF pre(2) True le(2)]
    have m1: "m1 = split_block (of_nat P) (of_nat n) m"
      using True by (simp add: m1_def)
    have "hdr m' P n (of_nat (P + 12 + n)) False"
      unfolding m' m1 by (rule hdr_set_free(1) [OF split(1) le(3)]) simp
    moreover have "hdr m' (P + 12 + n) (k - n - 12) ?nx True"
      using True le(2) by (intro hdr_agree [OF split(2) _ out2 [unfolded m1]]) simp_all
    moreover have "P + 12 + n + 12 + (k - n - 12) = P + 12 + k"
      using True by simp
    ultimately have "chain m' P ((n, False) # (k - n - 12, True) # ys) 0"
      using right by (simp only: chain.simps simp_thms list.distinct if_False)
    with True show ?thesis
      by (simp add: use_block_def del: of_nat_add chain.simps)
  next
    case False
    then have "hdr m' P k ?nx False"
      unfolding m' m1_def by (simp only: if_False) (rule hdr_set_free(1) [OF pre(2) le(3)], simp)
    with False right show ?thesis
      by (simp add: use_block_def del: of_nat_add)
  qed
  then show "chain m' p (xs @ use_block n k @ ys) 0"
    using left by (subst chain_append) (auto simp: use_block_def P)
qed

lemma merge_block_free:
  assumes "load32 m (q + 4) = r" "r \<noteq> 0" "m (r + 8) \<noteq> 0"
    "\<And>v. load32 (store32 m q v) (q + 4) = r" "\<And>v. load32 (store32 m q v) (r + 4) = nx"
  shows "merge_block q m = store32 (store32 m q (load32 m q + (load32 m r + 12))) (q + 4) nx"
  using assms by (simp add: merge_block_def Let_def)

lemma merge_block_stop:
  "load32 m (q + 4) = r \<Longrightarrow> r = 0 \<or> m (r + 8) = 0 \<Longrightarrow> merge_block q m = m"
  by (auto simp: merge_block_def Let_def)

lemma merge_block_chain:
  assumes ch: "chain m p (xs @ (k, False) # ys) 0" and sz: "p + extent (xs @ (k, False) # ys) \<le> 0x1000000"
    and P: "P = p + extent xs"
  defines "m' \<equiv> merge_block (of_nat P) (m(of_nat P + 8 := 1))"
  shows "chain m' p (xs @ merge_next k ys) 0"
    and "\<And>x. \<not> (P \<le> unat x \<and> unat x < P + 12) \<Longrightarrow> m' x = m x"
    and "load32 (m(of_nat P + 8 := 1)) (of_nat P) = of_nat k"
proof -
  let ?nx = "if ys = [] then 0 else of_nat (P + 12 + k)"
  define m1 where "m1 = m(of_nat P + 8 := 1)"
  have pre: "chain m p xs (of_nat P)" "hdr m P k ?nx False" "chain m (P + 12 + k) ys 0"
    using ch by (simp_all only: chain_middle P)
  have le: "P + 12 + k + extent ys \<le> 0x1000000" "P + 12 \<le> 4294967296" "P + 12 + k \<le> 0x1000000"
    using sz by (simp_all add: P)
  have h1: "hdr m1 P k ?nx True"
    unfolding m1_def by (rule hdr_set_free(1) [OF pre(2) le(2)]) simp
  have out1: "m1 x = m x" if "\<not> (P \<le> unat x \<and> unat x < P + 12)" for x
    unfolding m1_def by (rule hdr_set_free(2) [OF pre(2) le(2) _ that, of 1 True]) simp
  have right1: "chain m1 (P + 12 + k) ys 0"
    using le by (intro chain_agree [OF pre(3)] out1) simp_all
  have load: "load32 m1 (of_nat P) = of_nat k" "load32 m1 (of_nat P + 4) = ?nx"
    using h1 by (simp_all add: hdr_def)
  then show "load32 (m(of_nat P + 8 := 1)) (of_nat P) = of_nat k"
    by (simp only: m1_def)
  have "chain m' P (merge_next k ys) 0 \<and> (\<forall>x. \<not> (P \<le> unat x \<and> unat x < P + 12) \<longrightarrow> m' x = m x)"
  proof (cases ys)
    case Nil
    then have "m' = m1"
      unfolding m'_def m1_def [symmetric] using load by (intro merge_block_stop) auto
    with h1 out1 Nil show ?thesis by (simp add: merge_next_def)
  next
    case (Cons y zs)
    obtain k' f where y: "y = (k', f)" by (cases y)
    let ?N = "P + 12 + k" and ?nx' = "if zs = [] then 0 else of_nat (P + 12 + k + 12 + k')"
    have h2: "hdr m1 ?N k' ?nx' f" and right2: "chain m1 (?N + 12 + k') zs 0"
      using right1 by (simp_all add: Cons y del: of_nat_add)
    have N: "unat (of_nat ?N :: u32) = ?N" "unat (of_nat ?N + 4 :: u32) = ?N + 4"
      "unat (of_nat P :: u32) = P" "unat (of_nat P + 4 :: u32) = P + 4" "?N + 8 \<le> 4294967296"
      using le by (simp_all add: Cons y unat_of_nat_u32 unat_add_numeral del: of_nat_add)
    have nx: "load32 m1 (of_nat P + 4) = of_nat ?N" "(of_nat ?N :: u32) \<noteq> 0"
      using N(1) load(2) by (auto simp: Cons simp del: of_nat_add)
    have next2: "load32 m1 (of_nat ?N) = of_nat k'" "load32 m1 (of_nat ?N + 4) = ?nx'"
      "m1 (of_nat ?N + 8) = (if f then 1 else 0)"
      using h2 by (simp_all only: hdr_def)
    have keep: "load32 (store32 m1 (of_nat P) v) q = load32 m1 q"
      if "q = of_nat P + 4 \<or> q = of_nat ?N + 4" for q v
      using that N by (intro load32_store32_other) (auto simp: fits_def apart_def simp del: of_nat_add)
    have keepP: "load32 (store32 m1 (of_nat P) v) (of_nat P + 4) = of_nat ?N" for v
      by (subst keep) (simp_all only: nx simp_thms)
    have keepN: "load32 (store32 m1 (of_nat P) v) (of_nat ?N + 4) = ?nx'" for v
      by (subst keep) (simp_all only: next2 simp_thms)
    show ?thesis
    proof (cases f)
      case True
      have "m' = store32 (store32 m1 (of_nat P) (load32 m1 (of_nat P) + (load32 m1 (of_nat ?N) + 12)))
          (of_nat P + 4) ?nx'"
        unfolding m'_def m1_def [symmetric] using True next2(3)
        by (intro merge_block_free nx keepP keepN) simp
      then have m': "m' = store32 (store32 m1 (of_nat P) (of_nat (k + (k' + 12)))) (of_nat P + 4) ?nx'"
        by (simp add: load(1) next2(1) del: of_nat_add) simp
      have h: "hdr m' P (k + (k' + 12)) ?nx' True"
        unfolding m' by (rule hdr_resize(1) [OF h1 le(2)])
      have out: "m' x = m1 x" if "\<not> (P \<le> unat x \<and> unat x < P + 12)" for x
        unfolding m' by (rule hdr_resize(2) [OF h1 le(2) that])
      have "chain m' (?N + 12 + k') zs 0"
        using le by (intro chain_agree [OF right2] out) (simp_all add: Cons y)
      moreover have "P + 12 + (k + (k' + 12)) = ?N + 12 + k'"
        by simp
      ultimately have "chain m' P ((k + (k' + 12), True) # zs) 0"
        using h by (simp only: chain.simps simp_thms)
      then show ?thesis
        using True out out1 by (simp add: Cons y merge_next_def del: of_nat_add chain.simps)
    next
      case False
      then have "m' = m1"
        unfolding m'_def m1_def [symmetric] using next2(3) by (intro merge_block_stop [OF nx(1)]) simp
      with False h1 right1 out1 show ?thesis
        by (simp add: Cons y merge_next_def del: of_nat_add)
    qed
  qed
  then have mid: "chain m' P (merge_next k ys) 0"
    and out: "\<And>x. \<not> (P \<le> unat x \<and> unat x < P + 12) \<Longrightarrow> m' x = m x"
    by blast+
  show "m' x = m x" if "\<not> (P \<le> unat x \<and> unat x < P + 12)" for x
    by (rule out [OF that])
  have left: "chain m' p xs (of_nat P)"
    using le by (intro chain_agree [OF pre(1)] out) (simp_all add: P)
  have "merge_next k ys \<noteq> []"
    by (simp add: merge_next_def split: list.splits)
  with left mid show "chain m' p (xs @ merge_next k ys) 0"
    by (simp add: chain_append P del: of_nat_add)
qed

section \<open>Refinement\<close>

definition heap_after :: "'a heap_scheme \<Rightarrow> u8 list \<Rightarrow> ram \<Rightarrow> 'a heap_scheme" where
  "heap_after s out m = s\<lparr>mem := m, con := term_write out (con s)\<rparr>"

lemma heap_after_sel [simp]:
  "mem (heap_after s out m) = m" "free_list (heap_after s out m) = free_list s"
  "sym (heap_after s out m) = sym s" "lit (heap_after s out m) = lit s"
  "con (heap_after s out m) = term_write out (con s)"
  by (simp_all add: heap_after_def)

lemma heap_after_twice: "heap_after (heap_after s out m) out' m' = heap_after s (out @ out') m'"
  by (simp add: heap_after_def)

lemma unat_align16: "n \<le> 0xFFFFFFF0 \<Longrightarrow> unat (align16 n) = (unat n + 15) div 16 * 16"
  by (simp only: align16_def unat_and_not_15) (simp add: u32_le_iff unat_add_numeral)

lemma align16_wrap: "0xFFFFFFF0 < n \<Longrightarrow> align16 n = 0"
proof -
  assume "0xFFFFFFF0 < n"
  then have n: "4294967280 < unat n"
    by (simp add: u32_less_iff)
  have "unat (n + 15) = unat n + 15 - 4294967296"
    using n unat_add_wrap_u32 [of n 15] by simp
  then have "unat (n + 15) < 15"
    using n unat_u32_less [of n] by linarith
  then have "unat (align16 n) = 0"
    by (simp only: align16_def unat_and_not_15) simp
  then show ?thesis by simp
qed

lemma align16_dvd: "16 dvd unat (align16 n)"
  by (simp only: align16_def unat_and_not_15) simp

lemma heap_rep_nonempty: "heap_rep s bs \<Longrightarrow> bs \<noteq> []"
  by (auto simp: heap_rep_def)

lemma kmalloc_none:
  assumes rep: "heap_rep s bs" and n: "n \<noteq> 0"
    and none: "first_fit (unat (align16 n)) KERNEL_HEAP_START bs = None"
  shows "\<exists>out. kmalloc n s = Some (0, heap_after s out (mem s))"
proof -
  have "find_block (mem s) (align16 n) (free_list s) = Some 0"
    using find_block_chain [of "mem s" KERNEL_HEAP_START bs "align16 n"] rep none
    by (simp add: heap_rep_def heap_rep_nonempty [OF rep])
  moreover have "\<exists>out. printf ''[HEAP] Error: No free block large enough for %d bytes!\<newline>''
      [align16 n] s = Some (s\<lparr>con := term_write out (con s)\<rparr>)"
    by (rule numeric_printf) simp
  then obtain out where "printf ''[HEAP] Error: No free block large enough for %d bytes!\<newline>''
      [align16 n] s = Some (s\<lparr>con := term_write out (con s)\<rparr>)" ..
  ultimately have "kmalloc n s = Some (0, heap_after s out (mem s))"
    using n rep by (simp add: kmalloc_def Let_def heap_rep_def heap_after_def)
  then show ?thesis ..
qed

lemma first_fit_address:
  assumes "heap_rep s bs" "first_fit n KERNEL_HEAP_START bs = Some (q, bs')"
  shows "0x80000C \<le> q" "q \<le> 0x1000000"
proof -
  obtain k where "(q, k) \<in> set (payloads KERNEL_HEAP_START bs')" "extent bs' = extent bs"
    using first_fit_payloads [OF assms(2)] by blast
  then show "0x80000C \<le> q" "q \<le> 0x1000000"
    using payload_bounds [of q k KERNEL_HEAP_START bs'] assms(1) by (auto simp: heap_rep_def)
qed

lemma kmalloc_some:
  assumes rep: "heap_rep s bs" and n: "n \<noteq> 0"
    and some: "first_fit (unat (align16 n)) KERNEL_HEAP_START bs = Some (q, bs')"
  shows "\<exists>out m'. kmalloc n s = Some (of_nat q, heap_after s out m') \<and>
    heap_rep (heap_after s out m') bs' \<and> keeps heap_area (heap_live bs) (mem s) m'"
proof -
  obtain xs k ys where bs: "bs = xs @ (k, True) # ys" and k: "unat (align16 n) \<le> k"
    and q: "q = KERNEL_HEAP_START + extent xs + 12" and bs': "bs' = xs @ use_block (unat (align16 n)) k @ ys"
    using first_fit_split [OF some] by blast
  define P where "P = KERNEL_HEAP_START + extent xs"
  have ch: "chain (mem s) KERNEL_HEAP_START (xs @ (k, True) # ys) 0"
    and ext: "extent bs = KERNEL_HEAP_SIZE" and fl: "free_list s = KERNEL_HEAP_START"
    using rep by (simp_all add: heap_rep_def bs)
  have sz: "KERNEL_HEAP_START + extent (xs @ (k, True) # ys) \<le> (0x1000000 :: nat)"
    using ext by (simp add: bs)
  have P: "0x800000 \<le> P" "P + 12 + k \<le> 0x1000000"
    using sz by (simp_all add: P_def)
  have u: "unat (of_nat P :: u32) = P" "unat (of_nat k :: u32) = k"
    using P by (simp_all add: unat_of_nat_u32)
  then have nz: "(of_nat P :: u32) \<noteq> 0"
    using P by (auto simp: u32_eq_iff)
  have find: "find_block (mem s) (align16 n) KERNEL_HEAP_START = Some (of_nat P)"
    using find_block_chain [of "mem s" KERNEL_HEAP_START bs "align16 n"] rep
    by (simp add: heap_rep_def heap_rep_nonempty [OF rep] some q P_def)
  have load: "load32 (mem s) (of_nat P) = of_nat k"
    using ch by (simp only: chain_middle hdr_def P_def)
  have "unat (28 + align16 n) = 28 + unat (align16 n)"
    by (subst unat_add_u32) (use k P in simp_all)
  then have "unat (align16 n + 12 + 16) = unat (align16 n) + 28"
    by simp
  then have split: "align16 n + 12 + 16 \<le> of_nat k \<longleftrightarrow> unat (align16 n) + 28 \<le> k"
    by (simp only: u32_le_iff u)
  define m' where "m' = (if unat (align16 n) + 28 \<le> k
     then split_block (of_nat P) (of_nat (unat (align16 n))) (mem s) else mem s)(of_nat P + 8 := 0)"
  note upd = use_block_chain [OF ch sz k P_def, folded m'_def]
  have m'_eq: "m' = (if align16 n + 12 + 16 \<le> of_nat k
     then split_block (of_nat P) (align16 n) (mem s) else mem s)(of_nat P + 8 := 0)"
    by (simp only: m'_def split) simp
  have "\<exists>out. printf ''[HEAP] Allocated %d bytes at 0x%x\<newline>'' [align16 n, of_nat P + 12]
      (s\<lparr>mem := m'\<rparr>) = Some ((s\<lparr>mem := m'\<rparr>)\<lparr>con := term_write out (con (s\<lparr>mem := m'\<rparr>))\<rparr>)"
    by (rule numeric_printf) simp
  then obtain out where out: "printf ''[HEAP] Allocated %d bytes at 0x%x\<newline>''
      [align16 n, of_nat P + 12] (s\<lparr>mem := m'\<rparr>) = Some (heap_after s out m')"
    by (auto simp: heap_after_def)
  have "kmalloc n s = Some (of_nat P + 12, heap_after s out m')"
    using n nz out by (cases "align16 n + 12 + 16 \<le> of_nat k")
      (simp_all add: kmalloc_def Let_def fl find load m'_eq del: fun_upd_apply)
  moreover have "(of_nat P + 12 :: u32) = of_nat q"
    by (simp add: q P_def)
  moreover have "heap_rep (heap_after s out m') bs'"
    unfolding heap_rep_def bs' heap_after_sel
  proof (intro conjI)
    show "chain m' KERNEL_HEAP_START (xs @ use_block (unat (align16 n)) k @ ys) 0"
      by (rule upd(1))
    show "extent (xs @ use_block (unat (align16 n)) k @ ys) = KERNEL_HEAP_SIZE"
      using ext k by (simp add: bs)
    have "4 dvd unat (align16 n)"
      using align16_dvd [of n] by (rule dvd_trans [rotated]) simp
    moreover have "words4 bs" using rep by (simp add: heap_rep_def)
    ultimately show "words4 (xs @ use_block (unat (align16 n)) k @ ys)"
      using words4_first_fit [OF _ _ some] by (simp add: bs')
  qed (rule fl)
  moreover have "keeps heap_area (heap_live bs) (mem s) m'"
    unfolding keeps_def
  proof (intro conjI allI impI ballI)
    show "m' x = mem s x" if "x \<notin> heap_area" for x
      using that P by (intro upd(2)) (auto simp: heap_area_def)
    show "case x of (p, j) \<Rightarrow> agree_on (mem s) m' p j" if x: "x \<in> heap_live bs" for x
    proof -
      obtain r j where r: "x = (of_nat r, j)" "(r, j) \<in> set (payloads KERNEL_HEAP_START bs)"
        using x by (auto simp: heap_live_def)
      then have "r + j \<le> P \<or> P + 12 + k \<le> r" "r < 4294967296"
        using payload_bounds [of r j KERNEL_HEAP_START xs] sz
          payload_bounds [of r j "P + 12 + k" ys] by (auto simp: bs P_def add.assoc)
      then show ?thesis
        by (auto simp: r agree_on_def in_region_def unat_of_nat_u32 intro!: upd(2))
    qed
  qed
  ultimately show ?thesis by auto
qed

lemma kfree_live:
  assumes rep: "heap_rep s bs" and live: "(q, k) \<in> set (payloads KERNEL_HEAP_START bs)"
  shows "\<exists>out m'. kfree (of_nat q) s = Some (heap_after s out m') \<and>
    heap_rep (heap_after s out m') (release q KERNEL_HEAP_START bs) \<and>
    keeps heap_area (heap_live bs) (mem s) m'"
proof -
  obtain xs ys where bs: "bs = xs @ (k, False) # ys" and q: "q = KERNEL_HEAP_START + extent xs + 12"
    using live by (auto simp: payload_split)
  define P where "P = KERNEL_HEAP_START + extent xs"
  have ch: "chain (mem s) KERNEL_HEAP_START (xs @ (k, False) # ys) 0"
    and ext: "extent bs = KERNEL_HEAP_SIZE" and fl: "free_list s = KERNEL_HEAP_START"
    using rep by (simp_all add: heap_rep_def bs)
  have sz: "KERNEL_HEAP_START + extent (xs @ (k, False) # ys) \<le> (0x1000000 :: nat)"
    using ext by (simp add: bs)
  have P: "0x800000 \<le> P" "P + 12 + k \<le> 0x1000000"
    using sz by (simp_all add: P_def)
  have qP: "q = P + 12" by (simp add: q P_def)
  have "unat (of_nat q :: u32) = q"
    using P by (simp only: qP) (rule unat_of_nat_u32, simp)
  then have q0: "(of_nat q :: u32) \<noteq> 0"
    by (auto simp: qP simp del: of_nat_add)
  have block: "(of_nat q - 12 :: u32) = of_nat P"
    by (simp add: qP)
  note upd = merge_block_chain [OF ch sz P_def]
  let ?m = "(mem s)(of_nat P + 8 := 1)" and ?m' = "merge_block (of_nat P) ((mem s)(of_nat P + 8 := 1))"
  have "\<exists>out. printf ''[HEAP] Freed block at 0x%x (size: %d bytes)\<newline>'' [of_nat q, of_nat k]
      (s\<lparr>mem := ?m\<rparr>) = Some ((s\<lparr>mem := ?m\<rparr>)\<lparr>con := term_write out (con (s\<lparr>mem := ?m\<rparr>))\<rparr>)"
    by (rule numeric_printf) simp
  then obtain out where out: "printf ''[HEAP] Freed block at 0x%x (size: %d bytes)\<newline>''
      [of_nat q, of_nat k] (s\<lparr>mem := ?m\<rparr>) = Some (s\<lparr>mem := ?m, con := term_write out (con s)\<rparr>)"
    by auto
  have "kfree (of_nat q) s = Some (heap_after s out ?m')"
    using q0 out by (simp add: kfree_def Let_def block upd(3) heap_after_def del: fun_upd_apply)
  moreover have "release q KERNEL_HEAP_START bs = xs @ merge_next k ys"
    by (simp only: bs q release_split)
  then have "heap_rep (heap_after s out ?m') (release q KERNEL_HEAP_START bs)"
    using upd(1) ext fl rep words4_release [of bs q KERNEL_HEAP_START]
    by (simp add: heap_rep_def bs del: fun_upd_apply)
  moreover have "keeps heap_area (heap_live bs) (mem s) ?m'"
    unfolding keeps_def
  proof (intro conjI allI impI ballI)
    show "?m' x = mem s x" if "x \<notin> heap_area" for x
      using that P by (intro upd(2)) (auto simp: heap_area_def)
    show "case x of (p, j) \<Rightarrow> agree_on (mem s) ?m' p j" if x: "x \<in> heap_live bs" for x
    proof -
      obtain r j where r: "x = (of_nat r, j)" "(r, j) \<in> set (payloads KERNEL_HEAP_START bs)"
        using x by (auto simp: heap_live_def)
      then have "r + j \<le> P \<or> P + 12 \<le> r" "r < 4294967296"
        using payload_bounds [of r j KERNEL_HEAP_START xs] sz
          payload_bounds [of r j "P + 12 + k" ys] by (auto simp: bs P_def add.assoc)
      then show ?thesis
        by (auto simp: r agree_on_def in_region_def unat_of_nat_u32 intro!: upd(2))
    qed
  qed
  ultimately show ?thesis by blast
qed

lemma init_heap_rep:
  "\<exists>out m'. init_heap s = Some (heap_after s out m'\<lparr>free_list := KERNEL_HEAP_START\<rparr>) \<and>
    heap_rep (heap_after s out m'\<lparr>free_list := KERNEL_HEAP_START\<rparr>) [(KERNEL_HEAP_SIZE - 12, True)] \<and>
    (\<forall>x. x \<notin> heap_area \<longrightarrow> m' x = mem s x)"
proof -
  have "\<exists>out. printf ''[HEAP] Initializing heap at 0x%x, size 0x%x\<newline>''
      [KERNEL_HEAP_START, KERNEL_HEAP_SIZE] s = Some (s\<lparr>con := term_write out (con s)\<rparr>)"
    by (rule numeric_printf) simp
  then obtain out where out: "printf ''[HEAP] Initializing heap at 0x%x, size 0x%x\<newline>''
      [KERNEL_HEAP_START, KERNEL_HEAP_SIZE] s = Some (s\<lparr>con := term_write out (con s)\<rparr>)" ..
  define m' where "m' = (store32 (store32 (mem s) 0x800000 0x7FFFF4) 0x800004 0)(0x800008 := 1)"
  note w = hdr_write [where p = "0x800000" and m = "mem s" and k = "0x7FFFF4" and nx = 0, simplified, folded m'_def]
  have "init_heap s = Some (heap_after s out m'\<lparr>free_list := KERNEL_HEAP_START\<rparr>)"
    by (simp add: init_heap_def out Let_def heap_after_def m'_def del: fun_upd_apply)
  moreover have "m' x = mem s x" if "x \<notin> heap_area" for x
    using that hdr_write(2) [where p = "0x800000" and x = x and m = "mem s" and k = "0x7FFFF4" and nx = 0]
    by (auto simp: heap_area_def m'_def simp del: fun_upd_apply)
  ultimately show ?thesis
    using w(1) by (auto simp: heap_rep_def)
qed

section \<open>The contract\<close>

lemma heap_live_payload:
  assumes "heap_rep s bs" "(p, k) \<in> heap_live bs"
  obtains q where "p = of_nat q" "(q, k) \<in> set (payloads KERNEL_HEAP_START bs)"
    "unat p = q" "0x80000C \<le> q" "q + k \<le> 0x1000000"
proof -
  obtain q where q: "p = of_nat q" "(q, k) \<in> set (payloads KERNEL_HEAP_START bs)"
    using assms(2) by (auto simp: heap_live_def)
  then have "0x80000C \<le> q" "q + k \<le> 0x1000000"
    using payload_bounds [OF q(2)] assms(1) by (auto simp: heap_rep_def)
  with q show thesis
    by (intro that [of q]) (simp_all add: unat_of_nat_u32)
qed

lemma heap_live_insert:
  assumes "set (payloads KERNEL_HEAP_START bs') = insert (q, k) (set (payloads KERNEL_HEAP_START bs))"
  shows "heap_live bs' = insert (of_nat q, k) (heap_live bs)"
  by (simp add: heap_live_def assms)

text \<open>
  What \<open>kmalloc\<close> does to the state, to the allocated blocks and to the free space: a free block
  that is large enough for the request, a header and \<open>x\<close> further bytes leaves one of \<open>x\<close> bytes.
\<close>

definition space :: "nat \<Rightarrow> block list \<Rightarrow> bool" where
  "space x bs \<longleftrightarrow> (\<exists>k \<ge> x. (k, True) \<in> set bs)"

lemma first_fit_space:
  assumes "first_fit n p bs = Some (q, bs')" "space (n + 12 + x) bs" "16 \<le> x"
  shows "space x bs'"
proof -
  obtain xs k ys where bs: "bs = xs @ (k, True) # ys" "bs' = xs @ use_block n k @ ys"
    using first_fit_split [OF assms(1)] by blast
  obtain j where j: "n + 12 + x \<le> j" "(j, True) \<in> set bs"
    using assms(2) by (auto simp: space_def)
  show ?thesis
  proof (cases "(j, True) \<in> set xs \<union> set ys")
    case True
    then show ?thesis using j(1) by (auto simp: space_def bs(2) intro: exI [of _ j])
  next
    case False
    then have "k = j" using j(2) by (simp add: bs(1))
    then have "(k - n - 12, True) \<in> set bs'" "x \<le> k - n - 12"
      using j(1) assms(3) by (simp_all add: bs(2) use_block_def)
    then show ?thesis by (auto simp: space_def)
  qed
qed

lemma kmalloc_after:
  assumes rep: "heap_rep s bs" and n: "0 < n" "n \<le> 0xFFFFFFF0"
  shows "\<exists>p out m bs'. kmalloc n s = Some (p, heap_after s out m) \<and> heap_rep (heap_after s out m) bs' \<and>
    keeps heap_area (heap_live bs) (mem s) m \<and>
    (if p = 0 then bs' = bs \<and> \<not> space (unat (align16 n)) bs
     else (\<forall>k. (p, k) \<notin> heap_live bs) \<and> (\<exists>k \<ge> unat n. heap_live bs' = insert (p, k) (heap_live bs))) \<and>
    (\<forall>x \<ge> 16. space (unat (align16 n) + 12 + x) bs \<longrightarrow> space x bs')"
proof (cases "first_fit (unat (align16 n)) KERNEL_HEAP_START bs")
  case None
  obtain out where "kmalloc n s = Some (0, heap_after s out (mem s))"
    using kmalloc_none [OF rep _ None] n by auto
  moreover have "heap_rep (heap_after s out (mem s)) bs"
    using rep by (simp add: heap_rep_def)
  moreover have "\<not> space (unat (align16 n)) bs"
    using None by (auto simp: first_fit_None space_def)
  moreover from this have "\<not> space (unat (align16 n) + 12 + x) bs" for x
    unfolding space_def by (meson add_leE)
  ultimately show ?thesis by (intro exI conjI) (assumption | simp add: keeps_def)+
next
  case (Some r)
  obtain q bs' where r: "r = (q, bs')" by (cases r)
  obtain out m where *: "kmalloc n s = Some (of_nat q, heap_after s out m)"
    "heap_rep (heap_after s out m) bs'" "keeps heap_area (heap_live bs) (mem s) m"
    using kmalloc_some [OF rep _ Some [unfolded r]] n by auto
  obtain k where k: "unat (align16 n) \<le> k" "\<And>j. (q, j) \<notin> set (payloads KERNEL_HEAP_START bs)"
    "set (payloads KERNEL_HEAP_START bs') = insert (q, k) (set (payloads KERNEL_HEAP_START bs))"
    using first_fit_payloads [OF Some [unfolded r]] by metis
  have q: "0x80000C \<le> q" "q \<le> 0x1000000"
    using first_fit_address [OF rep Some [unfolded r]] .
  then have uq: "unat (of_nat q :: u32) = q" by (simp add: unat_of_nat_u32)
  with q have nz: "(of_nat q :: u32) \<noteq> 0" by (auto simp: u32_eq_iff)
  have "unat n \<le> k" using n k(1) by (simp add: unat_align16)
  then have "\<exists>k \<ge> unat n. heap_live bs' = insert (of_nat q, k) (heap_live bs)"
    using heap_live_insert [OF k(3)] by blast
  moreover have "(of_nat q, j) \<notin> heap_live bs" for j
    using k(2) uq heap_live_payload [OF rep] by metis
  moreover have "\<forall>x \<ge> 16. space (unat (align16 n) + 12 + x) bs \<longrightarrow> space x bs'"
    using first_fit_space [OF Some [unfolded r]] by blast
  ultimately show ?thesis using * nz by (intro exI conjI) (assumption | simp)+
qed

lemma kmalloc_ok:
  assumes rep: "heap_rep s bs" and n: "0 < n" "n \<le> 0xFFFFFFF0"
  shows "\<exists>p s' bs'. kmalloc n s = Some (p, s') \<and> heap_rep s' bs' \<and>
    keeps heap_area (heap_live bs) (mem s) (mem s') \<and>
    (if p = 0 then heap_live bs' = heap_live bs
     else (\<forall>k. (p, k) \<notin> heap_live bs) \<and> (\<exists>k \<ge> unat n. heap_live bs' = insert (p, k) (heap_live bs)))"
proof -
  obtain p out m bs' where "kmalloc n s = Some (p, heap_after s out m)" "heap_rep (heap_after s out m) bs'"
    "keeps heap_area (heap_live bs) (mem s) m"
    "if p = 0 then bs' = bs \<and> \<not> space (unat (align16 n)) bs
     else (\<forall>k. (p, k) \<notin> heap_live bs) \<and> (\<exists>k \<ge> unat n. heap_live bs' = insert (p, k) (heap_live bs))"
    using kmalloc_after [OF assms] by blast
  then show ?thesis
    by (intro exI conjI) (assumption | auto split: if_splits)+
qed

lemma of_nat_payload_inj:
  assumes "heap_rep s bs"
  shows "inj_on (\<lambda>(q, k). (of_nat q :: u32, k :: nat)) (set (payloads KERNEL_HEAP_START bs))"
proof (rule inj_onI)
  fix x y
  assume mem: "x \<in> set (payloads KERNEL_HEAP_START bs)" "y \<in> set (payloads KERNEL_HEAP_START bs)"
    and eq: "(\<lambda>(q, k). (of_nat q :: u32, k :: nat)) x = (\<lambda>(q, k). (of_nat q, k)) y"
  obtain r j r' j' where xy: "x = (r, j)" "y = (r', j')"
    by (cases x, cases y)
  have "r < 4294967296" "r' < 4294967296"
    using payload_bounds [of r j KERNEL_HEAP_START bs] payload_bounds [of r' j' KERNEL_HEAP_START bs]
      mem assms by (auto simp: xy heap_rep_def)
  moreover have "(of_nat r :: u32) = of_nat r'" "j = j'"
    using eq unfolding xy by (simp_all only: prod.case prod.inject)
  ultimately show "x = y"
    unfolding xy by (metis unat_of_nat_u32)
qed

lemma kfree_ok:
  assumes rep: "heap_rep s bs" and live: "(p, k) \<in> heap_live bs"
  shows "\<exists>s' bs'. kfree p s = Some s' \<and> heap_rep s' bs' \<and> heap_live bs' = heap_live bs - {(p, k)} \<and>
    keeps heap_area (heap_live bs') (mem s) (mem s')"
proof -
  obtain q where q: "p = of_nat q" "(q, k) \<in> set (payloads KERNEL_HEAP_START bs)"
    using heap_live_payload [OF rep live] .
  have "heap_live (release q KERNEL_HEAP_START bs) = heap_live bs - {(p, k)}"
    using inj_on_image_set_diff [OF of_nat_payload_inj [OF rep],
        of "set (payloads KERNEL_HEAP_START bs)" "{(q, k)}"] q
    by (simp add: heap_live_def release_payloads(2) [OF q(2)])
  then show ?thesis
    using kfree_live [OF rep q(2)] by (fastforce simp: q(1) keeps_def)
qed

lemma heap_live_apart:
  assumes rep: "heap_rep s bs" and live: "(p, k) \<in> heap_live bs" "(q, l) \<in> heap_live bs"
  shows "(p, k) = (q, l) \<or> (p \<noteq> q \<and> apart p k q l)"
proof -
  obtain p' where p: "p = of_nat p'" "(p', k) \<in> set (payloads KERNEL_HEAP_START bs)" "unat p = p'"
    using heap_live_payload [OF rep live(1)] .
  obtain q' where q: "q = of_nat q'" "(q', l) \<in> set (payloads KERNEL_HEAP_START bs)" "unat q = q'"
    using heap_live_payload [OF rep live(2)] .
  show ?thesis
    using payload_disjoint [OF p(2) q(2)] p(3) q(3) unfolding apart_def p(1) q(1) by auto
qed

lemma heap_live_area:
  assumes rep: "heap_rep s bs" and live: "(p, k) \<in> heap_live bs"
  shows "p \<noteq> 0" "fits p k" "in_region x p k \<Longrightarrow> x \<in> heap_area"
proof -
  obtain q where "unat p = q" "0x80000C \<le> q" "q + k \<le> 0x1000000"
    using heap_live_payload [OF rep live] .
  then show "p \<noteq> 0" "fits p k" "in_region x p k \<Longrightarrow> x \<in> heap_area"
    by (auto simp: fits_def heap_area_def in_region_def)
qed

lemma heap_live_write:
  assumes rep: "heap_rep s bs" and live: "(p, k) \<in> heap_live bs"
    and m: "\<And>x. \<not> in_region x p k \<Longrightarrow> m x = mem s x"
  shows "heap_rep (s\<lparr>mem := m\<rparr>) bs"
proof -
  obtain q where q: "(q, k) \<in> set (payloads KERNEL_HEAP_START bs)" "unat p = q"
    using heap_live_payload [OF rep live] .
  have out: "m x = mem s x" if "unat x < q \<or> q + k \<le> unat x" for x
    using that q(2) by (intro m) (auto simp: in_region_def)
  have "chain m KERNEL_HEAP_START bs 0"
    by (rule chain_payload [OF out _ _ q(1)]) (use rep in \<open>simp_all add: heap_rep_def\<close>)
  then show ?thesis
    using rep by (simp add: heap_rep_def)
qed

interpretation kheap: allocator heap_area heap_rep heap_live "mem :: 'a heap_scheme \<Rightarrow> ram"
  "\<lambda>m s. s\<lparr>mem := m\<rparr>" kmalloc kfree
  by unfold_locales
    (fact kmalloc_ok kfree_ok heap_live_apart heap_live_write | auto dest: heap_live_area)+

section \<open>Reallocation\<close>

lemma heap_live_size:
  assumes rep: "heap_rep s bs" and live: "(p, k) \<in> heap_live bs"
  shows "load32 (mem s) (p - 12) = of_nat k" "k < 0x800000"
proof -
  obtain q where q: "p = of_nat q" "(q, k) \<in> set (payloads KERNEL_HEAP_START bs)" "0x80000C \<le> q"
    "q + k \<le> 0x1000000"
    using heap_live_payload [OF rep live] .
  then obtain xs ys where bs: "bs = xs @ (k, False) # ys" "q = KERNEL_HEAP_START + extent xs + 12"
    by (auto simp: payload_split)
  have "(of_nat q - 12 :: u32) = of_nat (KERNEL_HEAP_START + extent xs)"
    by (simp add: bs(2))
  moreover have "load32 (mem s) (of_nat (KERNEL_HEAP_START + extent xs)) = of_nat k"
    using rep unfolding heap_rep_def bs(1) chain_middle hdr_def by blast
  ultimately show "load32 (mem s) (p - 12) = of_nat k"
    by (simp only: q(1))
  show "k < 0x800000" using q by simp
qed

lemma krealloc_ok:
  assumes rep: "heap_rep s bs" and live: "(p, k) \<in> heap_live bs" and n: "0 < n" "n \<le> 0xFFFFFFF0"
  shows "\<exists>r s' bs'. krealloc p n s = Some (r, s') \<and> heap_rep s' bs' \<and>
    keeps heap_area (heap_live bs - {(p, k)}) (mem s) (mem s') \<and>
    bytes_at (mem s') (if r = 0 then p else r) k = bytes_at (mem s) p k \<and>
    (if r = 0 then heap_live bs' = heap_live bs
     else (\<forall>i. (r, i) \<notin> heap_live bs - {(p, k)}) \<and>
       (\<exists>j \<ge> unat n. heap_live bs' = insert (r, j) (heap_live bs - {(p, k)})))"
proof -
  note area = heap_live_area [OF rep live]
  note sz = heap_live_size [OF rep live]
  have uk: "unat (of_nat k :: u32) = k"
    using sz(2) by (simp add: unat_of_nat_u32)
  have nz: "n \<noteq> 0"
    using n(1) by auto
  show ?thesis
  proof (cases "unat n \<le> k")
    case True
    then have "krealloc p n s = Some (p, s)"
      using n(1) area(1) by (auto simp: krealloc_def sz(1) u32_le_iff uk)
    moreover have "(p, i) \<notin> heap_live bs - {(p, k)}" for i
      using heap_live_apart [OF rep _ live] by blast
    moreover have "\<exists>j \<ge> unat n. heap_live bs = insert (p, j) (heap_live bs - {(p, k)})"
      using True live by blast
    moreover have "keeps heap_area (heap_live bs - {(p, k)}) (mem s) (mem s)"
      by (simp add: keeps_def split_beta)
    ultimately show ?thesis
      using rep area(1) by (intro exI [of _ p] exI [of _ s] exI [of _ bs]) (simp del: insert_Diff_single)
  next
    case False
    obtain r s1 bs1 where al: "kmalloc n s = Some (r, s1)" "heap_rep s1 bs1"
      "keeps heap_area (heap_live bs) (mem s) (mem s1)"
      "if r = 0 then heap_live bs1 = heap_live bs
       else (\<forall>k. (r, k) \<notin> heap_live bs) \<and> (\<exists>k \<ge> unat n. heap_live bs1 = insert (r, k) (heap_live bs))"
      using kheap.acquire_ok [OF rep n] by blast
    have keep1: "agree_on (mem s) (mem s1) p k"
      by (rule keepsD [OF al(3) live])
    have step: "krealloc p n s = (if r = 0 then Some (0, s1) else
        map_option (Pair r) (kfree p (s1\<lparr>mem := memcpy (mem s1) r p (load32 (mem s1) (p - 12))\<rparr>)))"
      using False nz area(1) al(1)
      by (simp add: krealloc_def sz(1) u32_le_iff uk Let_def map_conv_bind_option comp_def)
    show ?thesis
    proof (cases "r = 0")
      case True
      then show ?thesis
        using step al keep1 area by (auto simp: keeps_def agree_on_bytes_at)
    next
      case r: False
      then obtain j where j: "unat n \<le> j" "heap_live bs1 = insert (r, j) (heap_live bs)"
        "\<And>k. (r, k) \<notin> heap_live bs"
        using al(4) by auto
      have live1: "(r, j) \<in> heap_live bs1" "(p, k) \<in> heap_live bs1" "(r, j) \<noteq> (p, k)"
        using j live by auto
      have ap: "apart r j p k"
        using kheap.live_apart [OF al(2) live1(1,2)] live1(3) by blast
      have fit: "fits r j" by (rule heap_live_area(2) [OF al(2) live1(1)])
      have kj: "k \<le> j" using j(1) False by simp
      have fit': "fits r k" "fits p k" "apart r k p k"
        using fit kj area ap by (auto simp: fits_def apart_def)
      let ?m = "memcpy (mem s1) r p (of_nat k)"
      have out: "?m x = mem s1 x" if "\<not> in_region x r j" for x
        using that kj fit' by (subst memcpy_apply) (auto simp: uk in_region_def)
      have rep2: "heap_rep (s1\<lparr>mem := ?m\<rparr>) bs1"
        by (rule heap_live_write [OF al(2) live1(1) out])
      obtain s' bs' where fr: "kfree p (s1\<lparr>mem := ?m\<rparr>) = Some s'" "heap_rep s' bs'"
        "heap_live bs' = heap_live bs1 - {(p, k)}" "keeps heap_area (heap_live bs') ?m (mem s')"
        using kheap.dispose_ok [OF rep2 live1(2)] by auto
      have live': "(r, j) \<in> heap_live bs'" using fr(3) live1 by simp
      have "bytes_at (mem s') r k = bytes_at ?m r k"
        by (rule agree_on_bytes_at [OF keeps_agree [OF fr(4) live' kj] fit'(1)])
      also have "\<dots> = bytes_at (mem s1) p k"
        using memcpy_bytes [of r "of_nat k" p "mem s1"] fit' by (simp add: uk)
      also have "\<dots> = bytes_at (mem s) p k"
        by (rule agree_on_bytes_at [OF keep1 fit'(2)])
      finally have bytes: "bytes_at (mem s') r k = bytes_at (mem s) p k" .
      have wr: "keeps heap_area (heap_live bs1 - {(r, j)}) (mem s1) ?m"
        by (rule kheap.write_keeps [OF al(2) live1(1) out])
      have "keeps heap_area (heap_live bs - {(p, k)}) (mem s) (mem s')"
        unfolding keeps_def
      proof (intro conjI allI impI ballI)
        show "mem s' x = mem s x" if "x \<notin> heap_area" for x
          using that al(3) wr fr(4) by (simp add: keeps_def)
        show "case x of (q, l) \<Rightarrow> agree_on (mem s) (mem s') q l" if x: "x \<in> heap_live bs - {(p, k)}" for x
        proof -
          obtain q l where q: "x = (q, l)" by (cases x)
          have "(q, l) \<in> heap_live bs1 - {(r, j)}" "(q, l) \<in> heap_live bs'" "(q, l) \<in> heap_live bs"
            using x j live fr(3) by (auto simp: q)
          then have "agree_on (mem s) (mem s1) q l" "agree_on (mem s1) ?m q l" "agree_on ?m (mem s') q l"
            using keepsD al(3) wr fr(4) by blast+
          then show ?thesis
            by (auto simp: q intro: agree_on_trans)
        qed
      qed
      moreover have "krealloc p n s = Some (r, s')"
        using step r fr(1) heap_live_size(1) [OF al(2) live1(2)] by simp
      moreover have "heap_live bs' = insert (r, j) (heap_live bs - {(p, k)})"
        using fr(3) j(2) live1(3) by auto
      moreover have "(r, i) \<notin> heap_live bs - {(p, k)}" for i using j(3) by blast
      ultimately show ?thesis
        using bytes fr(2) r j(1) by auto
    qed
  qed
qed

end
