(* ===== verification/Fs_Rep.thy ===== *)
theory Fs_Rep
  imports Ramfs Heap_Rep
begin

text \<open>
  The nodes of the file system as an abstract store: which addresses hold a node, and what it is.
  The relation between the store and memory, what it depends on, and what each function of
  \<open>src/kernel/ramfs.cpp\<close> that works on nodes does to the store.
\<close>

section \<open>The abstract store\<close>

text \<open>
  A file is its name, parent, size and data pointer; a directory its name, parent, the address of
  its array of children, and the children.
\<close>

datatype fnode =
    File "u8 list" u32 u32 u32
  | Dir "u8 list" u32 u32 "u32 list"

type_synonym store = "u32 \<rightharpoonup> fnode"

fun name_of :: "fnode \<Rightarrow> u8 list" where
  "name_of (File nm par sz dat) = nm"
| "name_of (Dir nm par arr kids) = nm"

fun parent_of :: "fnode \<Rightarrow> u32" where
  "parent_of (File nm par sz dat) = par"
| "parent_of (Dir nm par arr kids) = par"

fun type_of :: "fnode \<Rightarrow> fs_node_type" where
  "type_of (File nm par sz dat) = FS_FILE"
| "type_of (Dir nm par arr kids) = FS_DIRECTORY"

fun set_parent :: "u32 \<Rightarrow> fnode \<Rightarrow> fnode" where
  "set_parent par (File nm _ sz dat) = File nm par sz dat"
| "set_parent par (Dir nm _ arr kids) = Dir nm par arr kids"

fun kids_of :: "fnode \<Rightarrow> u32 list" where
  "kids_of (File nm par sz dat) = []"
| "kids_of (Dir nm par arr kids) = kids"

text \<open>The regions of memory that belong to a node.\<close>

fun parts :: "u32 \<Rightarrow> fnode \<Rightarrow> (u32 \<times> nat) set" where
  "parts a (File nm par sz dat) = insert (a, 88) (if dat = 0 then {} else {(dat, unat sz)})"
| "parts a (Dir nm par arr kids) = insert (a, 88) (if arr = 0 then {} else {(arr, 128)})"

definition head_rep :: "ram \<Rightarrow> u32 \<Rightarrow> u8 list \<Rightarrow> fs_node_type \<Rightarrow> u32 \<Rightarrow> bool" where
  "head_rep m a nm ty par \<longleftrightarrow> cstring m a nm \<and> length nm < 64 \<and> node_type m a = type_code ty \<and>
     load32 m (parent_at a) = par"

fun node_rep :: "ram \<Rightarrow> u32 \<Rightarrow> fnode \<Rightarrow> bool" where
  "node_rep m a (File nm par sz dat) \<longleftrightarrow> head_rep m a nm FS_FILE par \<and>
     load32 m (size_at a) = sz \<and> load32 m (data_at a) = dat"
| "node_rep m a (Dir nm par arr kids) \<longleftrightarrow> head_rep m a nm FS_DIRECTORY par \<and>
     load32 m (children_at a) = arr \<and> child_count m a = of_nat (length kids) \<and>
     length kids \<le> MAX_CHILDREN \<and> (arr = 0 \<longrightarrow> kids = []) \<and>
     (\<forall>i < length kids. load32 m (arr + 4 * of_nat i) = kids ! i)"

text \<open>
  \<open>store_rep L m fs\<close>: memory holds the nodes of \<open>fs\<close>, each of whose regions lies in a live block of
  the heap of its own.
\<close>

definition owned :: "(u32 \<times> nat) set \<Rightarrow> store \<Rightarrow> bool" where
  "owned L fs \<longleftrightarrow>
     (\<forall>a nd q n. fs a = Some nd \<longrightarrow> (q, n) \<in> parts a nd \<longrightarrow> (\<exists>k \<ge> n. (q, k) \<in> L)) \<and>
     (\<forall>a nd. fs a = Some nd \<longrightarrow> inj_on fst (parts a nd)) \<and>
     (\<forall>a nd b nd'. fs a = Some nd \<longrightarrow> fs b = Some nd' \<longrightarrow> a \<noteq> b \<longrightarrow>
        fst ` parts a nd \<inter> fst ` parts b nd' = {})"

definition store_rep :: "(u32 \<times> nat) set \<Rightarrow> ram \<Rightarrow> store \<Rightarrow> bool" where
  "store_rep L m fs \<longleftrightarrow> owned L fs \<and> (\<forall>a nd. fs a = Some nd \<longrightarrow> node_rep m a nd)"

text \<open>
  A well-formed store: the children of a directory are nodes of the store that name it as their
  parent, without repetition, and the descent along children ends.
\<close>

definition kids_ok :: "store \<Rightarrow> bool" where
  "kids_ok fs \<longleftrightarrow> (\<forall>a nm par arr kids. fs a = Some (Dir nm par arr kids) \<longrightarrow> distinct kids \<and>
     (\<forall>c \<in> set kids. \<exists>nd. fs c = Some nd \<and> parent_of nd = a))"

definition ranked :: "(u32 \<Rightarrow> nat) \<Rightarrow> store \<Rightarrow> bool" where
  "ranked h fs \<longleftrightarrow> (\<forall>a nd. fs a = Some nd \<longrightarrow> (\<forall>c \<in> set (kids_of nd). h c < h a))"

definition store_ok :: "store \<Rightarrow> bool" where
  "store_ok fs \<longleftrightarrow> kids_ok fs \<and> (\<exists>h. ranked h fs)"

section \<open>The fields of a node in memory\<close>

lemma node_unat:
  assumes "fits a 88"
  shows "unat (type_at a) = unat a + 64" "unat (size_at a) = unat a + 68" "unat (data_at a) = unat a + 72"
    "unat (parent_at a) = unat a + 76" "unat (children_at a) = unat a + 80" "unat (child_count_at a) = unat a + 84"
  using assms by (simp_all add: node_layout fits_def unat_add_numeral)

lemmas field_simps32 = node_unat fits_def apart_def load32_store32_other

lemma field_read:
  assumes "fits a 88" "unat p = unat a + i" "unat q = unat a + j" "i + 4 \<le> 88" "j + 4 \<le> 88" "i + 4 \<le> j \<or> j + 4 \<le> i"
  shows "load32 (store32 m p v) q = load32 m q"
  using assms by (intro load32_store32_other) (auto simp: fits_def apart_def)

lemma load32_upd_other: "fits q 4 \<Longrightarrow> \<not> in_region a q 4 \<Longrightarrow> load32 (m(a := v)) q = load32 m q"
  by (rule agree_on_load32 [OF agree_on_upd])

lemma agree_field:
  assumes "agree_on m m' a n" "fits a 88" "unat q = unat a + i" "i + 4 \<le> n" "n \<le> 88"
  shows "load32 m' q = load32 m q"
  using assms by (intro agree_on_load32 agree_on_sub [OF assms(1)]) (auto simp: fits_def)

lemma head_rep_parent:
  assumes "head_rep m a nm ty par" "agree_on m m' a 76" "fits a 88" "load32 m' (parent_at a) = par'"
  shows "head_rep m' a nm ty par'"
proof -
  have "load32 m' (type_at a) = load32 m (type_at a)"
    by (rule agree_field [OF assms(2,3) node_unat(1) [OF assms(3)]]) simp_all
  moreover have "fits a 76" using assms(3) by (simp add: fits_def)
  ultimately show ?thesis
    using assms cstring_agree [OF _ assms(2), of nm] by (auto simp: head_rep_def node_type_def)
qed

lemma head_rep_agree:
  assumes "head_rep m a nm ty par" "agree_on m m' a 88" "fits a 88"
  shows "head_rep m' a nm ty par"
proof (rule head_rep_parent [OF assms(1) _ assms(3)])
  show "agree_on m m' a 76" by (rule agree_on_sub [OF assms(2)]) simp_all
  have "load32 m' (parent_at a) = load32 m (parent_at a)"
    by (rule agree_field [OF assms(2,3) node_unat(4) [OF assms(3)]]) simp_all
  then show "load32 m' (parent_at a) = par" using assms(1) by (simp add: head_rep_def)
qed

lemma field_agree:
  assumes "agree_on m m' a 88" "fits a 88"
  shows "load32 m' (type_at a) = load32 m (type_at a)" "load32 m' (size_at a) = load32 m (size_at a)"
    "load32 m' (data_at a) = load32 m (data_at a)" "load32 m' (parent_at a) = load32 m (parent_at a)"
    "load32 m' (children_at a) = load32 m (children_at a)" "load32 m' (child_count_at a) = load32 m (child_count_at a)"
proof -
  have *: "load32 m' q = load32 m q" if "unat q = unat a + i" "i + 4 \<le> 88" for q i
    using assms that by (intro agree_on_load32 agree_on_sub [OF assms(1)]) (auto simp: fits_def)
  show "load32 m' (type_at a) = load32 m (type_at a)" "load32 m' (size_at a) = load32 m (size_at a)"
    "load32 m' (data_at a) = load32 m (data_at a)" "load32 m' (parent_at a) = load32 m (parent_at a)"
    "load32 m' (children_at a) = load32 m (children_at a)" "load32 m' (child_count_at a) = load32 m (child_count_at a)"
    by (rule *, rule node_unat [OF assms(2)], simp)+
qed

lemma unat_slot: "fits p 128 \<Longrightarrow> i < 32 \<Longrightarrow> unat (p + 4 * of_nat i) = unat p + 4 * i"
  by (subst unat_add_u32) (auto simp: fits_def unat_word_ariths unat_of_nat_u32)

lemma node_rep_agree:
  assumes "node_rep m a nd" "\<And>q n. (q, n) \<in> parts a nd \<Longrightarrow> agree_on m m' q n \<and> fits q n"
  shows "node_rep m' a nd"
proof -
  have a: "agree_on m m' a 88" "fits a 88"
    using assms(2) [of a 88] by (cases nd; simp)+
  note f = field_agree [OF a] head_rep_agree [OF _ a]
  show ?thesis
  proof (cases nd)
    case (File nm par sz dat)
    then show ?thesis using assms(1) f by simp
  next
    case (Dir nm par arr kids)
    have "load32 m' (arr + 4 * of_nat i) = load32 m (arr + 4 * of_nat i)" if i: "i < length kids" for i
    proof -
      have "i < 32" "arr \<noteq> 0"
        using assms(1) i by (auto simp: Dir)
      then have arr: "agree_on m m' arr 128" "fits arr 128"
        using assms(2) [of arr 128] by (simp_all add: Dir)
      have u: "unat (arr + 4 * of_nat i) = unat arr + 4 * i"
        by (rule unat_slot [OF arr(2) \<open>i < 32\<close>])
      show ?thesis
        using arr \<open>i < 32\<close> by (intro agree_on_load32 agree_on_sub [OF arr(1)]) (auto simp: fits_def u)
    qed
    then show ?thesis
      using assms(1) f by (auto simp: Dir child_count_def)
  qed
qed

section \<open>Writing into nodes\<close>

text \<open>What the live blocks of a heap are like.\<close>

definition blocks :: "(u32 \<times> nat) set \<Rightarrow> bool" where
  "blocks L \<longleftrightarrow> (\<forall>(p, k) \<in> L. p \<noteq> 0 \<and> fits p k) \<and>
     (\<forall>(p, k) \<in> L. \<forall>(q, l) \<in> L. (p, k) = (q, l) \<or> p \<noteq> q \<and> apart p k q l)"

lemma blocks_heap: "heap_rep s bs \<Longrightarrow> blocks (heap_live bs)"
  unfolding blocks_def using kheap.live_fits kheap.live_apart by fast

lemma blocks_apart:
  assumes "blocks L" "(p, k) \<in> L" "(q, l) \<in> L" "p \<noteq> q" "n \<le> k" "j \<le> l"
  shows "apart p n q j"
proof -
  have "apart p k q l"
    using assms(1-4) by (fastforce simp: blocks_def)
  with assms(5,6) show ?thesis by (auto simp: apart_def)
qed

lemma ownedD:
  assumes "owned L fs" "fs a = Some nd" "(q, n) \<in> parts a nd"
  obtains k where "n \<le> k" "(q, k) \<in> L"
  using assms unfolding owned_def by blast

lemma part_fits: "blocks L \<Longrightarrow> owned L fs \<Longrightarrow> fs a = Some nd \<Longrightarrow> (q, n) \<in> parts a nd \<Longrightarrow> q \<noteq> 0 \<and> fits q n"
  by (erule ownedD, assumption, assumption) (fastforce simp: blocks_def fits_def)

lemma head_part [simp]: "(a, 88) \<in> parts a nd"
  by (cases nd) simp_all

lemma node_fits: "blocks L \<Longrightarrow> owned L fs \<Longrightarrow> fs a = Some nd \<Longrightarrow> a \<noteq> 0 \<and> fits a 88"
  using part_fits [OF _ _ _ head_part] by blast

lemma parts_apart:
  assumes "blocks L" "owned L fs" "fs a = Some nd" "(q, n) \<in> parts a nd" "fs b = Some nd'" "(q', n') \<in> parts b nd'"
  shows "(a, q, n) = (b, q', n') \<or> q \<noteq> q' \<and> apart q n q' n'"
proof -
  obtain k k' where k: "n \<le> k" "(q, k) \<in> L" "n' \<le> k'" "(q', k') \<in> L"
    using ownedD [OF assms(2,3,4)] ownedD [OF assms(2,5,6)] by metis
  show ?thesis
  proof (cases "q = q'")
    case True
    have "a = b"
    proof (rule ccontr)
      assume "a \<noteq> b"
      then have "fst ` parts a nd \<inter> fst ` parts b nd' = {}"
        using assms(2,3,5) by (simp add: owned_def)
      with assms(4,6) True show False by force
    qed
    moreover have "n = n'"
      using assms(2-6) True \<open>a = b\<close> inj_onD [of fst "parts a nd" "(q, n)" "(q', n')"] by (auto simp: owned_def)
    ultimately show ?thesis using True by simp
  next
    case False
    then show ?thesis using blocks_apart [OF assms(1) k(2,4) False k(1,3)] by simp
  qed
qed

lemma store_repD: "store_rep L m fs \<Longrightarrow> fs a = Some nd \<Longrightarrow> node_rep m a nd"
  by (simp add: store_rep_def)

lemma store_rep_agree:
  assumes "blocks L" "store_rep L m fs" "\<And>p k. (p, k) \<in> L \<Longrightarrow> agree_on m m' p k" "L \<subseteq> L'"
  shows "store_rep L' m' fs"
proof -
  have own: "owned L fs" using assms(2) by (simp add: store_rep_def)
  have "node_rep m' a nd" if nd: "fs a = Some nd" for a nd
  proof (rule node_rep_agree [OF store_repD [OF assms(2) nd]])
    fix q n
    assume q: "(q, n) \<in> parts a nd"
    then obtain k where k: "n \<le> k" "(q, k) \<in> L"
      using ownedD [OF own nd] by blast
    then have "agree_on m m' q n"
      using assms(3) [OF k(2)] by (auto simp: agree_on_def in_region_def)
    with part_fits [OF assms(1) own nd q] show "agree_on m m' q n \<and> fits q n" by simp
  qed
  moreover have "owned L' fs"
    using own assms(4) unfolding owned_def by (meson subsetD)
  ultimately show ?thesis by (simp add: store_rep_def)
qed

text \<open>Writes inside the regions of the nodes \<open>A\<close> leave every other node as it is.\<close>

lemma store_write:
  assumes L: "blocks L" and rep: "store_rep L m fs"
    and changed: "\<And>x. m' x \<noteq> m x \<Longrightarrow> \<exists>a \<in> A. \<exists>nd. fs a = Some nd \<and> (\<exists>(q, n) \<in> parts a nd. in_region x q n)"
    and same: "\<And>a. a \<notin> A \<Longrightarrow> fs' a = fs a"
    and new: "\<And>a. a \<in> A \<Longrightarrow> \<exists>nd nd'. fs a = Some nd \<and> fs' a = Some nd' \<and> parts a nd' = parts a nd \<and> node_rep m' a nd'"
  shows "store_rep L m' fs'"
proof -
  have own: "owned L fs" using rep by (simp add: store_rep_def)
  have old: "\<exists>nd'. fs a = Some nd' \<and> parts a nd = parts a nd'" if "fs' a = Some nd" for a nd
    using that same [of a] new [of a] by (cases "a \<in> A") auto
  have "owned L fs'"
    unfolding owned_def
  proof (intro conjI allI impI)
    fix a nd q n assume "fs' a = Some nd" "(q, n) \<in> parts a nd"
    with old [of a nd] own show "\<exists>k\<ge>n. (q, k) \<in> L" by (auto simp: owned_def)
  next
    fix a nd assume "fs' a = Some nd"
    with old [of a nd] own show "inj_on fst (parts a nd)" by (auto simp: owned_def)
  next
    fix a nd b nd' assume *: "fs' a = Some nd" "fs' b = Some nd'" and ab: "a \<noteq> b"
    obtain x y where "fs a = Some x" "parts a nd = parts a x" "fs b = Some y" "parts b nd' = parts b y"
      using old [OF *(1)] old [OF *(2)] by blast
    with own ab show "fst ` parts a nd \<inter> fst ` parts b nd' = {}"
      by (simp add: owned_def)
  qed
  moreover have "node_rep m' a nd" if nd: "fs' a = Some nd" for a nd
  proof (cases "a \<in> A")
    case True
    then show ?thesis using new [of a] nd by auto
  next
    case False
    then have a: "fs a = Some nd" using same nd by simp
    show ?thesis
    proof (rule node_rep_agree [OF store_repD [OF rep a]])
      fix q n
      assume q: "(q, n) \<in> parts a nd"
      have "m' x = m x" if x: "in_region x q n" for x
      proof (rule ccontr)
        assume "m' x \<noteq> m x"
        then obtain b nb q' n' where b: "b \<in> A" "fs b = Some nb" "(q', n') \<in> parts b nb" "in_region x q' n'"
          using changed by blast
        with parts_apart [OF L own a q b(2,3)] False x show False
          by (auto dest: apart_in_region)
      qed
      then show "agree_on m m' q n \<and> fits q n"
        using part_fits [OF L own a q] by (simp add: agree_on_def)
    qed
  qed
  ultimately show ?thesis by (simp add: store_rep_def)
qed

lemma store_rep_less:
  assumes "store_rep L m fs" "fs' \<subseteq>\<^sub>m fs"
  shows "store_rep L m fs'"
proof -
  have le: "fs a = Some nd" if "fs' a = Some nd" for a nd
    using assms(2) that by (force simp: map_le_def)
  have own: "owned L fs" using assms(1) by (simp add: store_rep_def)
  have "owned L fs'"
    unfolding owned_def
  proof (intro conjI allI impI)
    show "\<exists>k\<ge>n. (q, k) \<in> L" if "fs' a = Some nd" "(q, n) \<in> parts a nd" for a nd q n
      using ownedD [OF own le [OF that(1)] that(2)] by blast
    show "inj_on fst (parts a nd)" if "fs' a = Some nd" for a nd
      using le [OF that] own by (simp add: owned_def)
    show "fst ` parts a nd \<inter> fst ` parts b nd' = {}" if "fs' a = Some nd" "fs' b = Some nd'" "a \<noteq> b" for a nd b nd'
      using le [OF that(1)] le [OF that(2)] that(3) own by (simp add: owned_def)
  qed
  then show ?thesis
    using assms(1) le by (simp add: store_rep_def)
qed

section \<open>Looking up and linking\<close>

lemma node_type_rep: "node_rep m a nd \<Longrightarrow> node_type m a = type_code (type_of nd)"
  by (cases nd) (auto simp: head_rep_def)

lemma type_code_inj [simp]: "type_code t = type_code u \<longleftrightarrow> t = u"
  by (cases t; cases u) simp_all

lemma node_name_rep: "node_rep m a nd \<Longrightarrow> cstring m a (name_of nd)"
  by (cases nd) (auto simp: head_rep_def)

lemma type_of_dir: "type_of nd = FS_DIRECTORY \<longleftrightarrow> (\<exists>nm par arr kids. nd = Dir nm par arr kids)"
  by (cases nd) auto

lemma child_at_rep:
  "node_rep m a (Dir nm par arr kids) \<Longrightarrow> i < length kids \<Longrightarrow> child_at m a (of_nat i) = kids ! i"
  by (simp add: child_at_def slot_def)

lemma unat_child_count:
  "node_rep m a (Dir nm par arr kids) \<Longrightarrow> unat (child_count m a) = length kids"
  by (simp add: unat_of_nat_u32)

lemma find_child_loop_ok:
  assumes "cstring m name nm" "\<And>i. i \<in> set is \<Longrightarrow> i < length kids \<and> child_at m a (of_nat i) = kids ! i"
    "\<And>c. c \<in> set kids \<Longrightarrow> cstring m c (f c)"
  shows "find_child_loop m a name is =
    Some (case find (\<lambda>i. f (kids ! i) = nm) is of Some i \<Rightarrow> kids ! i | None \<Rightarrow> 0)"
  using assms(2)
proof (induction "is")
  case (Cons i "is")
  then have i: "child_at m a (of_nat i) = kids ! i" "kids ! i \<in> set kids" by auto
  obtain r where "strcmp m (kids ! i) name = Some r" "r = 0 \<longleftrightarrow> f (kids ! i) = nm"
    using strcmp_equal [OF assms(3) [OF i(2)] assms(1)] strcmp_cstring [OF assms(3) [OF i(2)] assms(1)] by auto
  with Cons i show ?case by simp
qed simp

lemma find_nth: "(case find (\<lambda>i. P (xs ! i)) [0..<length xs] of Some i \<Rightarrow> xs ! i | None \<Rightarrow> d) =
    (case find P xs of Some x \<Rightarrow> x | None \<Rightarrow> d)"
proof (induction xs)
  case (Cons x xs)
  have shift: "find Q (map Suc is) = map_option Suc (find (\<lambda>i. Q (Suc i)) is)" for Q "is"
    by (induction "is") auto
  have "[0..<length (x # xs)] = 0 # map Suc [0..<length xs]"
    by (simp add: map_Suc_upt upt_conv_Cons del: upt_Suc)
  then show ?case
    using Cons by (simp add: shift del: upt_Suc) (simp split: option.splits)
qed simp

text \<open>The first child with the given name, or NULL.\<close>

definition lookup :: "store \<Rightarrow> u32 list \<Rightarrow> u8 list \<Rightarrow> u32" where
  "lookup fs kids nm = (case find (\<lambda>c. map_option name_of (fs c) = Some nm) kids of Some c \<Rightarrow> c | None \<Rightarrow> 0)"

lemma kids_okD:
  assumes "kids_ok fs" "fs a = Some (Dir nm par arr kids)"
  shows "distinct kids" "\<And>c. c \<in> set kids \<Longrightarrow> \<exists>nd. fs c = Some nd \<and> parent_of nd = a"
  using assms unfolding kids_ok_def by blast+

lemma fs_find_child_rep:
  assumes L: "blocks L" and rep: "store_rep L m fs" and ok: "kids_ok fs"
    and d: "fs d = Some (Dir dn par arr kids)" and name: "cstring m name nm"
  shows "fs_find_child m d name = Some (lookup fs kids nm)"
proof -
  have dr: "node_rep m d (Dir dn par arr kids)" by (rule store_repD [OF rep d])
  have own: "owned L fs" using rep by (simp add: store_rep_def)
  have d0: "d \<noteq> 0" using node_fits [OF L own d] by simp
  have kid: "\<exists>nd. fs c = Some nd \<and> cstring m c (name_of nd)" if "c \<in> set kids" for c
    using kids_okD(2) [OF ok d that] store_repD [OF rep] node_name_rep by blast
  have "find_child_loop m d name [0..<unat (child_count m d)] =
    Some (case find (\<lambda>i. name_of (the (fs (kids ! i))) = nm) [0..<unat (child_count m d)] of Some i \<Rightarrow> kids ! i | None \<Rightarrow> 0)"
  proof (rule find_child_loop_ok [OF name])
    show "i < length kids \<and> child_at m d (of_nat i) = kids ! i" if "i \<in> set [0..<unat (child_count m d)]" for i
      using that child_at_rep [OF dr] by (simp add: unat_child_count [OF dr])
    show "cstring m c (name_of (the (fs c)))" if "c \<in> set kids" for c
      using kid [OF that] by auto
  qed
  also have "\<dots> = Some (case find (\<lambda>c. name_of (the (fs c)) = nm) kids of Some c \<Rightarrow> c | None \<Rightarrow> 0)"
    by (simp only: unat_child_count [OF dr] find_nth [where P = "\<lambda>c. name_of (the (fs c)) = nm"])
  also have "find (\<lambda>c. name_of (the (fs c)) = nm) kids = find (\<lambda>c. map_option name_of (fs c) = Some nm) kids"
    by (rule find_cong [OF refl]) (use kid in force)
  finally show ?thesis
    using node_type_rep [OF dr] d0 by (simp add: fs_find_child_def lookup_def)
qed

text \<open>The three words that \<open>link_child\<close> writes.\<close>

lemma link_child_rep:
  assumes L: "blocks L" and rep: "store_rep L m fs" and d: "fs d = Some (Dir dn par arr kids)"
    and c: "fs c = Some nc" "c \<noteq> d" and room: "arr \<noteq> 0" "length kids < MAX_CHILDREN"
  shows "store_rep L (link_child d c m) (fs(d \<mapsto> Dir dn par arr (kids @ [c]), c \<mapsto> set_parent d nc))"
    and "link_child d c m x \<noteq> m x \<Longrightarrow> \<exists>a \<in> {d, c}. \<exists>nd. fs a = Some nd \<and> (\<exists>(q, n) \<in> parts a nd. in_region x q n)"
proof -
  let ?n = "length kids"
  define m1 where "m1 = store32 m (child_count_at d) (of_nat ?n + 1)"
  define m2 where "m2 = store32 m1 (arr + 4 * of_nat ?n) c"
  define m3 where "m3 = store32 m2 (parent_at c) d"
  have own: "owned L fs" using rep by (simp add: store_rep_def)
  have dr: "node_rep m d (Dir dn par arr kids)" by (rule store_repD [OF rep d])
  have cr: "node_rep m c nc" by (rule store_repD [OF rep c(1)])
  have ap: "(arr, 128) \<in> parts d (Dir dn par arr kids)" using room(1) by simp
  have fit: "fits d 88" "fits c 88" "fits arr 128"
    using node_fits [OF L own d] node_fits [OF L own c(1)] part_fits [OF L own d ap] by simp_all
  have da: "apart d 88 arr 128" and dc: "apart d 88 c 88" and ac: "apart arr 128 c 88"
    using parts_apart [OF L own d head_part d ap] parts_apart [OF L own d head_part c(1) head_part]
      parts_apart [OF L own d ap c(1) head_part] c(2) by auto
  have us: "unat (arr + 4 * of_nat i) = unat arr + 4 * i" if "i < 32" for i
    by (rule unat_slot [OF fit(3) that])
  note u = node_unat [OF fit(1)] node_unat [OF fit(2)] us
  have fw: "fits (child_count_at d) 4" "fits (arr + 4 * of_nat ?n) 4" "fits (parent_at c) 4"
    using fit room(2) by (simp_all add: fits_def u)
  have aw: "apart (parent_at c) 4 (child_count_at d) 4" "apart (arr + 4 * of_nat ?n) 4 (child_count_at d) 4"
    "i < 32 \<Longrightarrow> apart (parent_at c) 4 (arr + 4 * of_nat i) 4" "i < 32 \<Longrightarrow> apart (child_count_at d) 4 (arr + 4 * of_nat i) 4"
    "i < ?n \<Longrightarrow> apart (arr + 4 * of_nat ?n) 4 (arr + 4 * of_nat i) 4" for i
    using da dc ac room(2) by (auto simp: apart_def u)
  have fs4: "i < 32 \<Longrightarrow> fits (arr + 4 * of_nat i) 4" for i
    using fit(3) by (simp add: fits_def u)
  note rd = m1_def m2_def m3_def load32_store32_other fw aw
  have "load32 m1 (children_at d) = arr"
    using dr fit(1) by (simp add: m1_def u fw fits_def apart_def load32_store32_other)
  then have link: "link_child d c m = m3"
    using dr by (simp add: link_child_def Let_def slot_def m1_def m2_def m3_def)
  have out: "m3 x = m x" if "\<not> in_region x (child_count_at d) 4" "\<not> in_region x (arr + 4 * of_nat ?n) 4"
      "\<not> in_region x (parent_at c) 4" for x
    using that by (simp add: m1_def m2_def m3_def store32_other fw)
  have "agree_on m m3 d 84"
    using da dc room(2) fit by (auto simp: agree_on_def in_region_def u apart_def fits_def intro!: out)
  moreover have cnt: "load32 m3 (child_count_at d) = of_nat (length (kids @ [c]))"
    by (simp add: rd)
  moreover have "load32 m3 (arr + 4 * of_nat i) = (kids @ [c]) ! i" if i: "i < length (kids @ [c])" for i
  proof (cases "i < ?n")
    case True
    then have "load32 m3 (arr + 4 * of_nat i) = load32 m (arr + 4 * of_nat i)"
      using room(2) fs4 [of i] by (simp add: rd)
    with True dr show ?thesis by (simp add: nth_append)
  next
    case False
    with i have "i = ?n" by simp
    then show ?thesis
      using room(2) by (simp add: rd)
  qed
  moreover have hd: "head_rep m3 d dn FS_DIRECTORY par" "load32 m3 (children_at d) = arr" if "agree_on m m3 d 84"
  proof -
    have "load32 m3 (parent_at d) = load32 m (parent_at d)" "load32 m3 (children_at d) = load32 m (children_at d)"
      by (rule agree_field [OF that fit(1) u(4)] agree_field [OF that fit(1) u(5)]; simp)+
    moreover have h: "head_rep m d dn FS_DIRECTORY par" "load32 m (children_at d) = arr"
      using dr by simp_all
    moreover from h(1) have "load32 m (parent_at d) = par" by (simp add: head_rep_def)
    moreover have "agree_on m m3 d 76" by (rule agree_on_sub [OF that]) simp_all
    ultimately show "head_rep m3 d dn FS_DIRECTORY par" "load32 m3 (children_at d) = arr"
      using head_rep_parent [OF h(1) _ fit(1)] by simp_all
  qed
  ultimately have d': "node_rep m3 d (Dir dn par arr (kids @ [c]))"
    using room(2) by (simp add: child_count_def room(1))
  have c': "node_rep m3 c (set_parent d nc)"
  proof -
    have ag: "agree_on m m3 c 76"
      using dc ac room(2) fit by (auto simp: agree_on_def in_region_def u apart_def fits_def intro!: out)
    have ld: "load32 m3 (parent_at c) = d" by (simp add: m3_def)
    have hi: "load32 m3 q = load32 m q" if "unat q = unat c + 80 \<or> unat q = unat c + 84" for q
      using that dc ac room(2) fit
      by (intro agree_on_load32) (auto simp: agree_on_def in_region_def u apart_def fits_def intro!: out)
    have lo: "load32 m3 (size_at c) = load32 m (size_at c)" "load32 m3 (data_at c) = load32 m (data_at c)"
      by (rule agree_field [OF ag fit(2) node_unat(2) [OF fit(2)]] agree_field [OF ag fit(2) node_unat(3) [OF fit(2)]]; simp)+
    show ?thesis
    proof (cases nc)
      case (File nm p sz dat)
      then have "head_rep m c nm FS_FILE p" using cr by simp
      from head_rep_parent [OF this ag fit(2) ld] show ?thesis using cr lo by (simp add: File)
    next
      case (Dir nm p arr' kids')
      have "load32 m3 (arr' + 4 * of_nat i) = load32 m (arr' + 4 * of_nat i)" if i: "i < length kids'" for i
      proof -
        have p: "(arr', 128) \<in> parts c nc" and "i < 32" using cr i by (auto simp: Dir)
        have v: "unat (arr' + 4 * of_nat i) = unat arr' + 4 * i"
          using part_fits [OF L own c(1) p] \<open>i < 32\<close> by (intro unat_slot) simp_all
        have "apart d 88 arr' 128" "apart arr 128 arr' 128" "apart c 88 arr' 128"
          using parts_apart [OF L own d head_part c(1) p] parts_apart [OF L own d ap c(1) p]
            parts_apart [OF L own c(1) head_part c(1) p] c(2) by auto
        moreover have "fits arr' 128" using part_fits [OF L own c(1) p] by simp
        ultimately show ?thesis
          using \<open>i < 32\<close> room(2)
          by (intro agree_on_load32) (auto simp: agree_on_def in_region_def u v apart_def fits_def intro!: out)
      qed
      moreover have "head_rep m c nm FS_DIRECTORY p" using cr by (simp add: Dir)
      from head_rep_parent [OF this ag fit(2) ld] have "head_rep m3 c nm FS_DIRECTORY d" .
      ultimately show ?thesis
        using cr hi [of "children_at c"] hi [of "child_count_at c"] node_unat(5,6) [OF fit(2)]
        by (simp add: Dir child_count_def)
    qed
  qed
  have ch: "\<exists>a \<in> {d, c}. \<exists>nd. fs a = Some nd \<and> (\<exists>(q, n) \<in> parts a nd. in_region x q n)" if x: "m3 x \<noteq> m x" for x
  proof -
    consider "in_region x (child_count_at d) 4" | "in_region x (arr + 4 * of_nat ?n) 4" | "in_region x (parent_at c) 4"
      using out [of x] x by blast
    then have "in_region x d 88 \<or> in_region x arr 128 \<or> in_region x c 88"
      using room(2) by cases (auto simp: in_region_def u)
    then show ?thesis
      using d c(1) ap head_part by (metis (no_types, lifting) case_prodI insertCI)
  qed
  show "\<exists>a \<in> {d, c}. \<exists>nd. fs a = Some nd \<and> (\<exists>(q, n) \<in> parts a nd. in_region x q n)"
    if "link_child d c m x \<noteq> m x"
    using ch that by (simp add: link)
  show "store_rep L (link_child d c m) (fs(d \<mapsto> Dir dn par arr (kids @ [c]), c \<mapsto> set_parent d nc))"
    unfolding link
  proof (rule store_write [OF L rep, where A = "{d, c}"])
    show "\<exists>nd nd'. fs a = Some nd \<and> (fs(d \<mapsto> Dir dn par arr (kids @ [c]), c \<mapsto> set_parent d nc)) a = Some nd' \<and>
        parts a nd' = parts a nd \<and> node_rep m3 a nd'" if "a \<in> {d, c}" for a
      using that d c d' c' by (cases nc) auto
  qed (use ch in auto)
qed

end
