(* ===== verification/Fs_Ops.thy ===== *)
theory Fs_Ops
  imports Fs_Rep CString
begin

text \<open>
  What the functions of \<open>src/kernel/ramfs.cpp\<close> that create, link and remove nodes do to the abstract
  store of \<open>Fs_Rep\<close>.
\<close>

section \<open>Creating a node\<close>

lemma unat_node_offset: "fits node 88 \<Longrightarrow> j < 88 \<Longrightarrow> unat (node + of_nat j) = unat node + j"
  by (simp add: fits_def unat_add_u32 unat_of_nat_u32)

lemma copy_name_bytes:
  assumes "fits node 88" "\<And>j. j \<le> length nm \<Longrightarrow> \<not> in_region (name + of_nat j) node 88"
    "cstring m name nm" "i \<le> min 63 (length nm)"
  shows "(\<forall>j. i \<le> j \<and> j < min 63 (length nm) \<longrightarrow> copy_name node name i m (node + of_nat j) = nm ! j) \<and>
    (\<forall>a. \<not> (unat node + i \<le> unat a \<and> unat a < unat node + min 63 (length nm)) \<longrightarrow> copy_name node name i m a = m a)"
  using assms
proof (induction node name i m rule: copy_name.induct)
  case (1 node name i m)
  let ?k = "min 63 (length nm)"
  have str: "m (name + of_nat j) = nm ! j" "nm ! j \<noteq> 0" if "j < length nm" for j
    using 1(4) that by (auto simp: cstring_iff) (metis nth_mem)
  have e: "m (name + of_nat (length nm)) = 0"
    using 1(4) by (simp add: cstring_iff)
  note u = unat_node_offset [OF 1(2)]
  show ?case
  proof (cases "i < ?k")
    case True
    define m' where "m' = m(node + of_nat i := m (name + of_nat i))"
    have step: "copy_name node name i m = copy_name node name (Suc i) m'"
      using True str [of i] by (subst copy_name.simps) (simp add: m'_def)
    have out: "name + of_nat j \<noteq> node + of_nat i" if "j \<le> length nm" for j
      using 1(3) [OF that] in_region_offset [OF 1(2), of i] True by auto
    have s': "cstring m' name nm"
      unfolding cstring_iff using 1(4) out by (auto simp: m'_def cstring_iff)
    have IH: "\<forall>j. Suc i \<le> j \<and> j < ?k \<longrightarrow> copy_name node name (Suc i) m' (node + of_nat j) = nm ! j"
      "\<forall>a. \<not> (unat node + Suc i \<le> unat a \<and> unat a < unat node + ?k) \<longrightarrow> copy_name node name (Suc i) m' a = m' a"
      using 1(1) [OF _ 1(2,3) s' [unfolded m'_def]] True str [of i] unfolding m'_def [symmetric] by simp_all
    have "copy_name node name (Suc i) m' (node + of_nat i) = nm ! i"
      using IH(2) u [of i] True str [of i] by (simp add: m'_def)
    then have "\<forall>j. i \<le> j \<and> j < ?k \<longrightarrow> copy_name node name (Suc i) m' (node + of_nat j) = nm ! j"
      using IH(1) by (metis Suc_leI order_le_less)
    moreover have "copy_name node name (Suc i) m' a = m a"
      if a: "\<not> (unat node + i \<le> unat a \<and> unat a < unat node + ?k)" for a
    proof -
      have "a \<noteq> node + of_nat i" using a u [of i] True by auto
      moreover have "\<not> (unat node + Suc i \<le> unat a \<and> unat a < unat node + ?k)" using a by auto
      ultimately show ?thesis using IH(2) by (simp add: m'_def)
    qed
    ultimately show ?thesis by (simp only: step) blast
  next
    case False
    then have "i = ?k" using 1(5) by linarith
    then have "copy_name node name i m = m"
      using e by (subst copy_name.simps) (auto simp: min_def split: if_splits)
    with False show ?thesis by auto
  qed
qed

text \<open>What \<open>fs_create_node\<close> writes before it allocates the children.\<close>

fun fresh_node :: "fs_node_type \<Rightarrow> u8 list \<Rightarrow> u32 \<Rightarrow> fnode" where
  "fresh_node FS_FILE nm arr = File nm 0 0 0"
| "fresh_node FS_DIRECTORY nm arr = Dir nm 0 arr []"

lemma init_node_fields:
  fixes ty :: fs_node_type
  assumes fit: "fits p 88" and name: "cstring m name nm"
    and out: "\<And>j. j \<le> length nm \<Longrightarrow> \<not> in_region (name + of_nat j) p 88"
  defines "m' \<equiv> init_node p name ty m"
  shows "head_rep m' p (take 63 nm) ty 0" "load32 m' (size_at p) = 0" "load32 m' (data_at p) = 0"
    "load32 m' (children_at p) = 0" "load32 m' (child_count_at p) = 0"
    "\<not> in_region a p 88 \<Longrightarrow> m' a = m a"
proof -
  let ?k = "min 63 (length nm)"
  define m1 where "m1 = memset m p 0 88"
  define m2 where "m2 = copy_name p name 0 m1"
  have m1: "m1 a = (if in_region a p 88 then 0 else m a)" for a
    using fit by (simp add: m1_def memset_apply)
  have "cstring m1 name nm"
    unfolding cstring_iff using name out by (auto simp: m1 cstring_iff)
  from copy_name_bytes [OF fit out this, of 0]
  have m2: "\<And>j. j < ?k \<Longrightarrow> m2 (p + of_nat j) = nm ! j"
    "\<And>a. \<not> (unat p \<le> unat a \<and> unat a < unat p + ?k) \<Longrightarrow> m2 a = m1 a"
    by (simp_all add: m2_def)
  note u = node_unat [OF fit]
  have fw: "fits (type_at p) 4" "fits (size_at p) 4" "fits (data_at p) 4" "fits (parent_at p) 4"
    "fits (children_at p) 4" "fits (child_count_at p) 4"
    using fit by (simp_all add: fits_def u)
  have m': "m' = store32 (store32 (store32 (store32 (store32 m2 (type_at p) (type_code ty)) (size_at p) 0)
      (data_at p) 0) (parent_at p) 0) (child_count_at p) 0"
    by (simp add: m'_def init_node_def Let_def m1_def m2_def)
  have low: "m' a = m2 a" if "unat a < unat p + 64 \<or> unat p + 88 \<le> unat a \<or> unat p + 80 \<le> unat a \<and> unat a < unat p + 84" for a
    using that by (auto simp: m' store32_other fw in_region_def u)
  have "?k < 88" by simp
  then have "m2 (p + of_nat ?k) = 0"
    using m2(2) [of "p + of_nat ?k"] unat_node_offset [OF fit, of ?k] by (simp add: m1 in_region_def)
  then have "cstring m2 p (take 63 nm)"
    using m2(1) name by (auto simp: cstring_iff min.commute dest: in_set_takeD)
  moreover have "agree_on m2 m' p 64" by (auto simp: agree_on_def in_region_def intro: low)
  ultimately have "cstring m' p (take 63 nm)"
    using cstring_agree [of m2 p "take 63 nm" m' 64] fit by (simp add: fits_def)
  moreover have "load32 m' (type_at p) = type_code ty" "load32 m' (parent_at p) = 0"
    by (simp_all add: m' load32_store32_other fw apart_def u)
  ultimately show "head_rep m' p (take 63 nm) ty 0"
    by (simp add: head_rep_def node_type_def)
  show "load32 m' (size_at p) = 0" "load32 m' (data_at p) = 0" "load32 m' (child_count_at p) = 0"
    by (simp_all add: m' load32_store32_other fw apart_def u)
  have kids: "m' a = 0" if "in_region a (children_at p) 4" for a
  proof -
    have "\<not> unat a < unat p + ?k" "in_region a p 88" using that by (auto simp: in_region_def u)
    then show ?thesis using that low [of a] m2(2) [of a] by (simp add: in_region_def u m1)
  qed
  then show "load32 m' (children_at p) = 0"
    using in_region_offset [OF fw(5), of 0] in_region_offset [OF fw(5), of 1]
      in_region_offset [OF fw(5), of 2] in_region_offset [OF fw(5), of 3]
    by (simp add: load32_def)
  show "m' a = m a" if "\<not> in_region a p 88"
    using that low [of a] m2(2) [of a] by (auto simp: in_region_def m1)
qed

text \<open>Adding a fresh node to the store.\<close>

lemma store_new:
  assumes L: "blocks L" "blocks L'" "L \<subseteq> L'" and rep: "store_rep L m fs"
    and same: "\<And>p k. (p, k) \<in> L \<Longrightarrow> agree_on m m' p k"
    and new: "node_rep m' a nd" "inj_on fst (parts a nd)"
    and own: "\<And>q n. (q, n) \<in> parts a nd \<Longrightarrow> (\<exists>k \<ge> n. (q, k) \<in> L') \<and> (\<forall>k. (q, k) \<notin> L)"
  shows "a \<notin> dom fs" "store_rep L' m' (fs(a \<mapsto> nd))"
proof -
  have old: "owned L fs" using rep by (simp add: store_rep_def)
  have rep': "store_rep L' m' fs" by (rule store_rep_agree [OF L(1) rep same L(3)])
  then have old': "owned L' fs" by (simp add: store_rep_def)
  have fresh: "fst ` parts b nb \<inter> fst ` parts a nd = {}" if b: "fs b = Some nb" for b nb
  proof -
    have "False" if "(q, n) \<in> parts b nb" "(q, n') \<in> parts a nd" for q n n'
      using ownedD [OF old b that(1)] own [OF that(2)] by metis
    then show ?thesis by force
  qed
  show a: "a \<notin> dom fs"
  proof
    assume "a \<in> dom fs"
    then obtain nb where "fs a = Some nb" by auto
    from fresh [OF this] head_part [of a nb] head_part [of a nd] show False
      by (metis IntI empty_iff fst_conv imageI)
  qed
  have "owned L' (fs(a \<mapsto> nd))"
    unfolding owned_def
  proof (intro conjI allI impI)
    fix b nb q n assume "(fs(a \<mapsto> nd)) b = Some nb" "(q, n) \<in> parts b nb"
    then show "\<exists>k\<ge>n. (q, k) \<in> L'"
      using own ownedD [OF old'] by (cases "b = a") (simp, metis fun_upd_other)+
  next
    fix b nb assume "(fs(a \<mapsto> nd)) b = Some nb"
    then show "inj_on fst (parts b nb)"
      using new(2) old' by (auto simp: owned_def split: if_splits)
  next
    fix b nb c nc assume *: "(fs(a \<mapsto> nd)) b = Some nb" "(fs(a \<mapsto> nd)) c = Some nc" "b \<noteq> c"
    show "fst ` parts b nb \<inter> fst ` parts c nc = {}"
    proof (cases "b = a \<or> c = a")
      case True
      then show ?thesis using * fresh [of b nb] fresh [of c nc] by (auto split: if_splits)
    next
      case False
      then show ?thesis using * old' by (simp add: owned_def)
    qed
  qed
  then show "store_rep L' m' (fs(a \<mapsto> nd))"
    using rep' new(1) by (simp add: store_rep_def)
qed

lemma heap_after_mem [simp]: "(heap_after s out m)\<lparr>mem := m'\<rparr> = heap_after s out m'"
  by (simp add: heap_after_def)

lemma keeps_refl [simp]: "keeps A L m m"
  by (auto simp: keeps_def)

lemma keeps_trans: "keeps A L m m' \<Longrightarrow> keeps A L m' m'' \<Longrightarrow> keeps A L m m''"
  unfolding keeps_def using agree_on_trans by fastforce

lemma keeps_less: "keeps A L m m' \<Longrightarrow> L' \<subseteq> L \<Longrightarrow> keeps A L' m m'"
  unfolding keeps_def by blast

text \<open>A write into a live block, seen from the other blocks.\<close>

lemma heap_write:
  assumes "heap_rep (heap_after s out m) bs" "(p, k) \<in> heap_live bs" "\<And>x. \<not> in_region x p k \<Longrightarrow> m' x = m x"
  shows "heap_rep (heap_after s out m') bs" "keeps heap_area (heap_live bs - {(p, k)}) m m'"
  using kheap.write_ok [OF assms(1,2), of m'] kheap.write_keeps [OF assms(1,2), of m'] assms(3) by simp_all

lemma store32_outside:
  assumes "fits p k" "unat q = unat p + i" "i + 4 \<le> k" "\<not> in_region x p k"
  shows "store32 m q v x = m x"
  using assms by (intro store32_other) (auto simp: fits_def in_region_def)

text \<open>\<open>kmalloc\<close> of \<open>k\<close> bytes, which are rounded to \<open>w\<close>.\<close>

lemma kmalloc_sized:
  assumes rep: "heap_rep s bs" and n: "unat n = k" "unat (align16 n) = w" "0 < k" "k \<le> 0xFFFFFFF0"
  obtains p out m bs' where "kmalloc n s = Some (p, heap_after s out m)" "heap_rep (heap_after s out m) bs'"
    "keeps heap_area (heap_live bs) (mem s) m" "p = 0 \<Longrightarrow> bs' = bs \<and> \<not> space w bs"
    "p \<noteq> 0 \<Longrightarrow> \<exists>j \<ge> k. heap_live bs' = insert (p, j) (heap_live bs)" "\<And>j. p \<noteq> 0 \<Longrightarrow> (p, j) \<notin> heap_live bs"
    "\<And>x. 16 \<le> x \<Longrightarrow> space (w + 12 + x) bs \<Longrightarrow> space x bs'"
proof -
  have "0 < n" "n \<le> 0xFFFFFFF0" using n by (auto simp: u32_le_iff u32_less_iff)
  from kmalloc_after [OF rep this] obtain p out m bs' where *: "kmalloc n s = Some (p, heap_after s out m)"
    "heap_rep (heap_after s out m) bs'" "keeps heap_area (heap_live bs) (mem s) m"
    "if p = 0 then bs' = bs \<and> \<not> space w bs
     else (\<forall>k. (p, k) \<notin> heap_live bs) \<and> (\<exists>j \<ge> k. heap_live bs' = insert (p, j) (heap_live bs))"
    "\<forall>x \<ge> 16. space (w + 12 + x) bs \<longrightarrow> space x bs'"
    unfolding n(1,2) by blast
  show thesis
    by (rule that [of p out m bs']) (use * in \<open>auto split: if_splits\<close>)
qed

lemma align_node: "unat (align16 88) = 96" "unat (align16 128) = 128"
  by (simp_all add: unat_align16)

lemma space_mono: "space y bs \<Longrightarrow> x \<le> y \<Longrightarrow> space x bs"
  unfolding space_def using order_trans by blast

text \<open>The allocation of the node itself and its first fields.\<close>

lemma create_head:
  assumes rep: "heap_rep s bs" and name: "cstring (mem s) name nm"
    and out: "\<And>j. j \<le> length nm \<Longrightarrow> name + of_nat j \<notin> heap_area"
  obtains p o1 m1 bs1 where "kmalloc 88 s = Some (p, heap_after s o1 m1)"
    "p = 0 \<Longrightarrow> heap_rep (heap_after s o1 m1) bs \<and> keeps heap_area (heap_live bs) (mem s) m1 \<and> \<not> space 96 bs"
    "p \<noteq> 0 \<Longrightarrow> heap_rep (heap_after s o1 (init_node p name ty m1)) bs1 \<and>
      keeps heap_area (heap_live bs) (mem s) (init_node p name ty m1) \<and>
      head_rep (init_node p name ty m1) p (take 63 nm) ty 0 \<and>
      load32 (init_node p name ty m1) (size_at p) = 0 \<and> load32 (init_node p name ty m1) (data_at p) = 0 \<and>
      load32 (init_node p name ty m1) (children_at p) = 0 \<and> load32 (init_node p name ty m1) (child_count_at p) = 0 \<and>
      (\<forall>k. (p, k) \<notin> heap_live bs) \<and> (\<exists>k \<ge> 88. heap_live bs1 = insert (p, k) (heap_live bs)) \<and>
      (\<forall>x \<ge> 16. space (108 + x) bs \<longrightarrow> space x bs1)"
proof -
  obtain p o1 m1 bs1 where al: "kmalloc 88 s = Some (p, heap_after s o1 m1)" "heap_rep (heap_after s o1 m1) bs1"
    "keeps heap_area (heap_live bs) (mem s) m1" "p = 0 \<Longrightarrow> bs1 = bs \<and> \<not> space 96 bs"
    "p \<noteq> 0 \<Longrightarrow> \<exists>k \<ge> 88. heap_live bs1 = insert (p, k) (heap_live bs)" "\<And>k. p \<noteq> 0 \<Longrightarrow> (p, k) \<notin> heap_live bs"
    "\<And>x. 16 \<le> x \<Longrightarrow> space (108 + x) bs \<Longrightarrow> space x bs1"
    by (rule kmalloc_sized [OF rep, of 88 88 96]) (simp_all add: align_node)
  let ?m = "init_node p name ty m1"
  show thesis
  proof (rule that [of p o1 m1 bs1, OF al(1)])
    show "heap_rep (heap_after s o1 m1) bs \<and> keeps heap_area (heap_live bs) (mem s) m1 \<and> \<not> space 96 bs" if "p = 0"
      using al(2,3) al(4) [OF that] by blast
    assume p: "p \<noteq> 0"
    then have fresh: "\<forall>k. (p, k) \<notin> heap_live bs" using al(6) by simp
    obtain k where k: "88 \<le> k" "heap_live bs1 = insert (p, k) (heap_live bs)"
      using al(5) p by auto
    then have live: "(p, k) \<in> heap_live bs1" by simp
    have fit: "fits p 88" using kheap.live_fits [OF al(2) live] k(1) by (simp add: fits_def)
    have sub: "in_region x p k" if "in_region x p 88" for x using that k(1) by (simp add: in_region_def)
    have area: "\<not> in_region (name + of_nat j) p 88" if "j \<le> length nm" for j
      using out [OF that] kheap.live_area [OF al(2) live] sub by blast
    have "cstring m1 name nm"
      unfolding cstring_iff using name out al(3) by (auto simp: keeps_def cstring_iff)
    note f = init_node_fields [OF fit this area, where ty = ty]
    have "heap_rep (heap_after s o1 ?m) bs1" "keeps heap_area (heap_live bs1 - {(p, k)}) m1 ?m"
      by (rule heap_write [OF al(2) live]; use f(6) sub in blast)+
    moreover have "heap_live bs \<subseteq> heap_live bs1 - {(p, k)}" using fresh k(2) by auto
    ultimately show "heap_rep (heap_after s o1 ?m) bs1 \<and> keeps heap_area (heap_live bs) (mem s) ?m \<and>
      head_rep ?m p (take 63 nm) ty 0 \<and> load32 ?m (size_at p) = 0 \<and> load32 ?m (data_at p) = 0 \<and>
      load32 ?m (children_at p) = 0 \<and> load32 ?m (child_count_at p) = 0 \<and>
      (\<forall>k. (p, k) \<notin> heap_live bs) \<and> (\<exists>k \<ge> 88. heap_live bs1 = insert (p, k) (heap_live bs)) \<and>
      (\<forall>x \<ge> 16. space (108 + x) bs \<longrightarrow> space x bs1)"
      using f(1-5) fresh k al(7) keeps_trans [OF al(3)] keeps_less by blast
  qed
qed

text \<open>
  \<open>fs_create_node\<close>: NULL when no free block of 96 bytes is left, otherwise a new node with the first
  63 bytes of the name. A directory whose array of children could not be allocated keeps a null
  array.
\<close>

lemma fs_create_node_rep:
  assumes rep: "heap_rep s bs" and st: "store_rep (heap_live bs) (mem s) fs" and name: "cstring (mem s) name nm"
    and out: "\<And>j. j \<le> length nm \<Longrightarrow> name + of_nat j \<notin> heap_area"
  obtains p o1 m bs' arr where "fs_create_node name ty s = Some (p, heap_after s o1 m)"
    "heap_rep (heap_after s o1 m) bs'" "keeps heap_area (heap_live bs) (mem s) m"
    "p = 0 \<Longrightarrow> store_rep (heap_live bs') m fs \<and> \<not> space 96 bs"
    "p \<noteq> 0 \<Longrightarrow> p \<notin> dom fs \<and> store_rep (heap_live bs') m (fs(p \<mapsto> fresh_node ty (take 63 nm) arr)) \<and>
      (ty = FS_DIRECTORY \<and> arr = 0 \<longrightarrow> \<not> space 236 bs)"
    "\<And>x. 16 \<le> x \<Longrightarrow> space (248 + x) bs \<Longrightarrow> space x bs'"
proof (rule create_head [OF rep name out, of ty])
  fix p o1 m1 bs1
  let ?m = "init_node p name ty m1"
  assume k1: "kmalloc 88 s = Some (p, heap_after s o1 m1)"
    and z: "p = 0 \<Longrightarrow> heap_rep (heap_after s o1 m1) bs \<and> keeps heap_area (heap_live bs) (mem s) m1 \<and> \<not> space 96 bs"
    and nz: "p \<noteq> 0 \<Longrightarrow> heap_rep (heap_after s o1 ?m) bs1 \<and> keeps heap_area (heap_live bs) (mem s) ?m \<and>
      head_rep ?m p (take 63 nm) ty 0 \<and> load32 ?m (size_at p) = 0 \<and> load32 ?m (data_at p) = 0 \<and>
      load32 ?m (children_at p) = 0 \<and> load32 ?m (child_count_at p) = 0 \<and>
      (\<forall>k. (p, k) \<notin> heap_live bs) \<and> (\<exists>k \<ge> 88. heap_live bs1 = insert (p, k) (heap_live bs)) \<and>
      (\<forall>x \<ge> 16. space (108 + x) bs \<longrightarrow> space x bs1)"
  have L: "blocks (heap_live bs)" by (rule blocks_heap [OF rep])
  consider "p = 0" | "p \<noteq> 0" "ty = FS_FILE" | "p \<noteq> 0" "ty = FS_DIRECTORY"
    by (cases ty) auto
  then show thesis
  proof cases
    case 1
    have "store_rep (heap_live bs) m1 fs"
      using z [OF 1] by (intro store_rep_agree [OF L st _ subset_refl]) (auto dest: keepsD)
    moreover have "space x bs" if "space (248 + x) bs" for x
      using that by (rule space_mono) simp
    ultimately show thesis
      using z [OF 1] 1 by (intro that [of p o1 m1 bs 0]) (simp_all add: fs_create_node_def k1)
  next
    case 2
    note n = nz [OF 2(1)]
    obtain k where k: "88 \<le> k" "heap_live bs1 = insert (p, k) (heap_live bs)" "(p, k) \<notin> heap_live bs" using n by blast
    have L1: "blocks (heap_live bs1)" using n blocks_heap by blast
    have own: "(\<exists>j \<ge> n. (q, j) \<in> heap_live bs1) \<and> (\<forall>j. (q, j) \<notin> heap_live bs)"
      if "(q, n) \<in> parts p (File (take 63 nm) 0 0 0)" for q n
      using that k n by auto
    have nr: "node_rep ?m p (File (take 63 nm) 0 0 0)" using n 2(2) by simp
    have sub: "heap_live bs \<subseteq> heap_live bs1" using k(2) by auto
    have same: "agree_on (mem s) ?m q j" if "(q, j) \<in> heap_live bs" for q j
      using n that by (blast dest: keepsD)
    have "p \<notin> dom fs" "store_rep (heap_live bs1) ?m (fs(p \<mapsto> File (take 63 nm) 0 0 0))"
      using store_new [OF L L1 sub st same nr _ own] by simp_all
    moreover have "space x bs1" if "16 \<le> x" "space (248 + x) bs" for x
      using n that space_mono [of "248 + x" bs "108 + x"] by auto
    ultimately show thesis
      using n 2 by (intro that [of p o1 ?m bs1 0]) (simp_all add: fs_create_node_def k1)
  next
    case 3
    note n = nz [OF 3(1)]
    obtain k where k: "88 \<le> k" "heap_live bs1 = insert (p, k) (heap_live bs)" "(p, k) \<notin> heap_live bs" using n by blast
    have r1: "heap_rep (heap_after s o1 ?m) bs1" using n by simp
    obtain kids o2 m2 bs2 where al: "kmalloc 128 (heap_after s o1 ?m) = Some (kids, heap_after s o2 m2)"
      "heap_rep (heap_after s o2 m2) bs2" "keeps heap_area (heap_live bs1) ?m m2"
      "kids = 0 \<Longrightarrow> bs2 = bs1 \<and> \<not> space 128 bs1"
      "kids \<noteq> 0 \<Longrightarrow> \<exists>j \<ge> 128. heap_live bs2 = insert (kids, j) (heap_live bs1)"
      "\<And>j. kids \<noteq> 0 \<Longrightarrow> (kids, j) \<notin> heap_live bs1"
      "\<And>x. 16 \<le> x \<Longrightarrow> space (140 + x) bs1 \<Longrightarrow> space x bs2"
      by (rule kmalloc_sized [OF r1, of 128 128 128]) (simp_all add: align_node heap_after_twice)
    have sub: "heap_live bs1 \<subseteq> heap_live bs2"
      using al(4,5) by (cases "kids = 0") auto
    with k have live: "(p, k) \<in> heap_live bs2" by auto
    have fit: "fits p 88" "fits p k"
      using kheap.live_fits [OF al(2) live] k(1) by (simp_all add: fits_def)
    define m3 where "m3 = store32 m2 (children_at p) kids"
    have w3: "heap_rep (heap_after s o2 m3) bs2" "keeps heap_area (heap_live bs2 - {(p, k)}) m2 m3"
      using heap_write [OF al(2) live, of m3] store32_outside [OF fit(2) node_unat(5) [OF fit(1)]] k(1)
      by (auto simp: m3_def)
    have "agree_on ?m m2 p k" using keepsD [OF al(3)] k(2) by blast
    then have a2: "agree_on ?m m2 p 88" by (rule agree_on_sub) (use k(1) in simp_all)
    have h2: "head_rep m2 p (take 63 nm) FS_DIRECTORY 0" "load32 m2 (child_count_at p) = 0"
      using head_rep_agree [OF _ a2 fit(1)] field_agree [OF a2 fit(1)] n 3(2) by simp_all
    note u = node_unat [OF fit(1)]
    have "agree_on m2 m3 p 76"
      using fit(1) by (auto simp: agree_on_def in_region_def m3_def fits_def u intro!: store32_other)
    moreover have "load32 m3 (parent_at p) = load32 m2 (parent_at p)" "load32 m3 (child_count_at p) = load32 m2 (child_count_at p)"
      unfolding m3_def by (rule field_read [OF fit(1) u(5) u(4)] field_read [OF fit(1) u(5) u(6)]; simp)+
    ultimately have h3: "head_rep m3 p (take 63 nm) FS_DIRECTORY 0" "load32 m3 (child_count_at p) = 0"
      "load32 m3 (children_at p) = kids"
      using head_rep_parent [OF h2(1) _ fit(1)] h2 by (simp_all add: m3_def head_rep_def)
    define m4 where "m4 = (if kids \<noteq> 0 then memset m3 kids 0 128 else m3)"
    have pk: "p \<noteq> kids" "kids \<noteq> 0 \<Longrightarrow> (kids, j) \<notin> heap_live bs1" for j
      using al(6) k(2) 3(1) by (cases "kids = 0"; auto)+
    have w4: "heap_rep (heap_after s o2 m4) bs2 \<and> keeps heap_area (heap_live bs1) m3 m4"
    proof (cases "kids = 0")
      case False
      then obtain j where j: "128 \<le> j" "heap_live bs2 = insert (kids, j) (heap_live bs1)" using al(5) by blast
      then have lk: "(kids, j) \<in> heap_live bs2" by simp
      have "fits kids 128" using kheap.live_fits [OF al(2) lk] j(1) by (simp add: fits_def)
      then have "m4 x = m3 x" if "\<not> in_region x kids j" for x
        using that j(1) False by (auto simp: m4_def memset_apply in_region_def)
      from heap_write [OF w3(1) lk this] have "heap_rep (heap_after s o2 m4) bs2"
        "keeps heap_area (heap_live bs2 - {(kids, j)}) m3 m4" by simp_all
      then show ?thesis using pk(2) [OF False] j(2) by (auto elim: keeps_less)
    qed (use w3(1) in \<open>simp add: m4_def\<close>)
    have "agree_on m3 m4 p k" using keepsD [of _ _ m3 m4 p k] w4 k(2) by blast
    then have a4: "agree_on m3 m4 p 88" by (rule agree_on_sub) (use k(1) in simp_all)
    have nr: "node_rep m4 p (Dir (take 63 nm) 0 kids [])"
      using head_rep_agree [OF h3(1) a4 fit(1)] field_agree [OF a4 fit(1)] h3 by (simp add: child_count_def)
    have sub': "heap_live bs \<subseteq> heap_live bs1" "heap_live bs \<subseteq> heap_live bs2 - {(p, k)}"
      using k sub by auto
    have "keeps heap_area (heap_live bs) ?m m2" "keeps heap_area (heap_live bs) m2 m3" "keeps heap_area (heap_live bs) m3 m4"
      using keeps_less [OF al(3) sub'(1)] keeps_less [OF w3(2) sub'(2)] keeps_less [OF _ sub'(1)] w4 by blast+
    then have keep: "keeps heap_area (heap_live bs) (mem s) m4"
      using n keeps_trans by meson
    then have same: "agree_on (mem s) m4 q j" if "(q, j) \<in> heap_live bs" for q j
      using that by (blast dest: keepsD)
    have own: "(\<exists>j \<ge> n. (q, j) \<in> heap_live bs2) \<and> (\<forall>j. (q, j) \<notin> heap_live bs)"
      if part: "(q, n) \<in> parts p (Dir (take 63 nm) 0 kids [])" for q n
    proof -
      consider "q = p" "n = 88" | "kids \<noteq> 0" "q = kids" "n = 128"
        using part by (cases "kids = 0") auto
      then show ?thesis
      proof cases
        case 1
        then show ?thesis using live k(1) nz [OF 3(1)] by blast
      next
        case 2
        then show ?thesis using al(5) [OF 2(1)] pk(2) [OF 2(1)] sub'(1) by blast
      qed
    qed
    have L2: "blocks (heap_live bs2)" by (rule blocks_heap [OF al(2)])
    have sub2: "heap_live bs \<subseteq> heap_live bs2" using sub'(2) by blast
    have inj: "inj_on fst (parts p (Dir (take 63 nm) 0 kids []))" using pk(1) by auto
    note new = store_new [OF L L2 sub2 st same nr inj own]
    have code: "fs_create_node name ty s = Some (p, heap_after s o2 m4)"
      using 3 al(1) by (auto simp: fs_create_node_def k1 m4_def m3_def)
    have sp: "space x bs2" if "16 \<le> x" "space (248 + x) bs" for x
      using n al(7) [OF that(1)] that by (simp add: add.assoc)
    have full: "\<not> space 236 bs" if "kids = 0"
    proof
      assume "space 236 bs"
      then have "space 128 bs1" using n by (auto dest!: spec [of _ 128])
      with al(4) [OF that] show False by simp
    qed
    show thesis
      by (rule that [of p o2 m4 bs2 kids]) (use code w4 keep 3 new sp full in auto)
  qed
qed

section \<open>Linking a node\<close>

lemma dir_facts:
  assumes "blocks L" "store_rep L m fs" "fs d = Some (Dir dn par arr kids)"
  shows "d \<noteq> 0" "node_type m d = type_code FS_DIRECTORY" "child_count m d = of_nat (length kids)"
    "length kids \<le> MAX_CHILDREN" "cstring m d dn" "kids \<noteq> [] \<Longrightarrow> arr \<noteq> 0" "slot m d i = arr + 4 * i"
proof -
  have own: "owned L fs" using assms(2) by (simp add: store_rep_def)
  show "d \<noteq> 0" using node_fits [OF assms(1) own assms(3)] by simp
  show "node_type m d = type_code FS_DIRECTORY" "child_count m d = of_nat (length kids)"
    "length kids \<le> MAX_CHILDREN" "cstring m d dn" "kids \<noteq> [] \<Longrightarrow> arr \<noteq> 0" "slot m d i = arr + 4 * i"
    using store_repD [OF assms(2,3)] by (auto simp: head_rep_def slot_def)
qed

lemma count_less: "i < 32 \<Longrightarrow> k \<le> 32 \<Longrightarrow> (of_nat i :: u32) < of_nat k \<longleftrightarrow> i < k"
  by (simp add: u32_less_iff unat_of_nat_u32)

lemma fs_add_child_rep:
  assumes "blocks L" "store_rep L (mem s) fs" "fs d = Some (Dir dn par arr kids)"
  shows "length kids < MAX_CHILDREN \<Longrightarrow> fs_add_child d c s = Some (s\<lparr>mem := link_child d c (mem s)\<rparr>)"
    and "length kids = MAX_CHILDREN \<Longrightarrow> fs_add_child d c s = Some (s\<lparr>con := term_write
      (bytes_of ''Error: directory '' @ [39] @ dn @ [39] @ bytes_of '' is full.\<newline>'') (con s)\<rparr>)"
proof -
  note d = dir_facts [OF assms]
  show "fs_add_child d c s = Some (s\<lparr>mem := link_child d c (mem s)\<rparr>)" if "length kids < MAX_CHILDREN"
    using that d by (simp add: fs_add_child_def u32_le_iff unat_of_nat_u32)
  show "fs_add_child d c s = Some (s\<lparr>con := term_write
      (bytes_of ''Error: directory '' @ [39] @ dn @ [39] @ bytes_of '' is full.\<newline>'') (con s)\<rparr>)"
    if "length kids = MAX_CHILDREN"
    using that d printf_s [of "''Error: directory '' @ [CHR 39]" "CHR 39 # '' is full.\<newline>''" s d dn]
    by (simp add: fs_add_child_def u32_le_iff unat_of_nat_u32)
qed

text \<open>New nodes keep the store well formed, linked or not.\<close>

lemma store_ok_kid: "store_ok fs \<Longrightarrow> fs a = Some nd \<Longrightarrow> c \<in> set (kids_of nd) \<Longrightarrow> c \<in> dom fs"
  by (cases nd) (auto simp: store_ok_def dest!: kids_okD(2))

lemma kids_of_set_parent [simp]: "kids_of (set_parent p nd) = kids_of nd"
  and parent_of_set_parent [simp]: "parent_of (set_parent p nd) = p"
  by (cases nd; simp)+

lemma store_ok_link:
  assumes ok: "store_ok fs" and d: "fs d = Some (Dir dn par arr kids)" and c: "c \<notin> dom fs" "kids_of nc = []"
  shows "store_ok (fs(d \<mapsto> Dir dn par arr (kids @ [c]), c \<mapsto> set_parent d nc))"
proof -
  let ?fs = "fs(d \<mapsto> Dir dn par arr (kids @ [c]), c \<mapsto> set_parent d nc)"
  obtain h where h: "ranked h fs" using ok by (auto simp: store_ok_def)
  have k: "kids_ok fs" using ok by (simp add: store_ok_def)
  have cd: "c \<noteq> d" using c(1) d by auto
  have nk: "c \<notin> set kids'" if "fs a = Some (Dir nm p ar kids')" for a nm p ar kids'
    using store_ok_kid [OF ok that, of c] c(1) by auto
  have "kids_ok ?fs"
    unfolding kids_ok_def
  proof (intro allI impI)
    fix a nm p ar kids'
    assume a: "?fs a = Some (Dir nm p ar kids')"
    consider "a = c" | "a = d" "a \<noteq> c" | "a \<noteq> d" "a \<noteq> c" by blast
    then show "distinct kids' \<and> (\<forall>x \<in> set kids'. \<exists>nd. ?fs x = Some nd \<and> parent_of nd = a)"
    proof cases
      case 1
      then show ?thesis using a c(2) by (cases nc) auto
    next
      case 2
      then have "kids' = kids @ [c]" using a by simp
      moreover have "\<exists>nd. ?fs x = Some nd \<and> parent_of nd = d" if "x \<in> set kids" for x
        using kids_okD(2) [OF k d that] nk [OF d] that d by auto
      ultimately show ?thesis using kids_okD(1) [OF k d] nk [OF d] 2 by auto
    next
      case 3
      then have a': "fs a = Some (Dir nm p ar kids')" using a by simp
      have "\<exists>nd. ?fs x = Some nd \<and> parent_of nd = a" if "x \<in> set kids'" for x
        using kids_okD(2) [OF k a' that] nk [OF a'] that d by auto
      then show ?thesis using kids_okD(1) [OF k a'] by blast
    qed
  qed
  moreover have "ranked (\<lambda>x. if x = c then 0 else Suc (h x)) ?fs"
    unfolding ranked_def
  proof (intro allI impI ballI)
    fix a nd x assume a: "?fs a = Some nd" "x \<in> set (kids_of nd)"
    then have "a \<noteq> c" using c(2) by auto
    moreover have "x = c \<or> h x < h a" if "a \<noteq> c"
      using a that h d by (cases "a = d") (auto simp: ranked_def dest: spec [of _ d])
    ultimately show "(if x = c then 0 else Suc (h x)) < (if a = c then 0 else Suc (h a))" by auto
  qed
  ultimately show ?thesis unfolding store_ok_def by blast
qed

lemma store_ok_new:
  assumes ok: "store_ok fs" and c: "c \<notin> dom fs" "kids_of nc = []"
  shows "store_ok (fs(c \<mapsto> nc))"
proof -
  obtain h where h: "ranked h fs" using ok by (auto simp: store_ok_def)
  have k: "kids_ok fs" using ok by (simp add: store_ok_def)
  have "kids_ok (fs(c \<mapsto> nc))"
    unfolding kids_ok_def
  proof (intro allI impI)
    fix a nm p ar kids'
    assume a: "(fs(c \<mapsto> nc)) a = Some (Dir nm p ar kids')"
    show "distinct kids' \<and> (\<forall>x \<in> set kids'. \<exists>nd. (fs(c \<mapsto> nc)) x = Some nd \<and> parent_of nd = a)"
    proof (cases "a = c")
      case True
      then show ?thesis using a c(2) by auto
    next
      case False
      then have a': "fs a = Some (Dir nm p ar kids')" using a by simp
      have "\<exists>nd. (fs(c \<mapsto> nc)) x = Some nd \<and> parent_of nd = a" if "x \<in> set kids'" for x
        using kids_okD(2) [OF k a' that] c(1) by auto
      then show ?thesis using kids_okD(1) [OF k a'] by blast
    qed
  qed
  moreover have "ranked h (fs(c \<mapsto> nc))"
    using h c(2) by (auto simp: ranked_def)
  ultimately show ?thesis unfolding store_ok_def by blast
qed

end
