(* ===== verification/Fs_Remove.thy ===== *)
theory Fs_Remove
  imports Fs_Ops "HOL-Library.Sublist"
begin

text \<open>
  Removal from the file system: the shift of the later siblings, and the recursion of
  \<open>fs_remove_child\<close> over the children of a removed directory, which skips every second child.
\<close>

section \<open>Unlinking one child\<close>

lemma slot_facts:
  assumes "blocks L" "store_rep L m fs" "fs d = Some (Dir dn par arr kids)" "i < length kids"
  shows "i < 32" "arr \<noteq> 0"
proof -
  have "kids \<noteq> []" using assms(4) by auto
  then show "i < 32" "arr \<noteq> 0" using dir_facts(4,6) [OF assms(1-3)] assms(4) by simp_all
qed

text \<open>One slot of the array, and the counter.\<close>

lemma set_slot:
  assumes L: "blocks L" and rep: "store_rep L m fs" and d: "fs d = Some (Dir dn par arr kids)" and i: "i < length kids"
  shows "store_rep L (store32 m (arr + 4 * of_nat i) v) (fs(d \<mapsto> Dir dn par arr (kids[i := v])))"
    and "store32 m (arr + 4 * of_nat i) v x \<noteq> m x \<Longrightarrow> in_region x arr 128"
proof -
  let ?p = "arr + 4 * of_nat i" and ?nd = "Dir dn par arr kids"
  let ?m = "store32 m ?p v"
  have own: "owned L fs" using rep by (simp add: store_rep_def)
  note df = dir_facts [OF L rep d]
  have i32: "i < 32" and a0: "arr \<noteq> 0" using slot_facts [OF L rep d i] by simp_all
  then have ap: "(arr, 128) \<in> parts d ?nd" by simp
  have fit: "fits d 88" "fits arr 128" using node_fits [OF L own d] part_fits [OF L own d ap] by simp_all
  have da: "apart d 88 arr 128" using parts_apart [OF L own d head_part d ap] by auto
  have us: "unat (arr + 4 * of_nat j) = unat arr + 4 * j" if "j < 32" for j
    by (rule unat_slot [OF fit(2) that])
  have fw: "fits (arr + 4 * of_nat j) 4" if "j < 32" for j using fit(2) that by (simp add: fits_def us)
  have out: "?m x = m x" if "\<not> in_region x arr 128" for x
    using store32_outside [OF fit(2) us [OF i32] _ that] i32 by simp
  show ch: "in_region x arr 128" if "?m x \<noteq> m x" for x using out that by blast
  have ag: "agree_on m ?m d 88" using da out by (auto simp: agree_on_def in_region_def apart_def)
  have sl: "load32 ?m (arr + 4 * of_nat j) = kids[i := v] ! j" if "j < length kids" for j
  proof (cases "j = i")
    case True then show ?thesis using that by simp
  next
    case False
    have j: "j < 32" using that df(4) by simp
    have "apart ?p 4 (arr + 4 * of_nat j) 4" using False j i32 by (auto simp: apart_def us)
    then show ?thesis
      using load32_store32_other [OF fw [OF i32] fw [OF j]] store_repD [OF rep d] that False by simp
  qed
  have "node_rep ?m d (Dir dn par arr (kids[i := v]))"
    using store_repD [OF rep d] head_rep_agree [OF _ ag fit(1)] field_agree [OF ag fit(1)] sl a0
    by (simp add: child_count_def)
  then show "store_rep L ?m (fs(d \<mapsto> Dir dn par arr (kids[i := v])))"
    using d ap ch by (intro store_write [OF L rep, where A = "{d}"]) auto
qed

lemma set_count:
  assumes L: "blocks L" and rep: "store_rep L m fs" and d: "fs d = Some (Dir dn par arr kids)" and k: "k \<le> length kids"
  shows "store_rep L (store32 m (child_count_at d) (of_nat k)) (fs(d \<mapsto> Dir dn par arr (take k kids)))"
    and "store32 m (child_count_at d) (of_nat k) x \<noteq> m x \<Longrightarrow> in_region x d 88"
proof -
  let ?nd = "Dir dn par arr kids" and ?m = "store32 m (child_count_at d) (of_nat k)"
  have own: "owned L fs" using rep by (simp add: store_rep_def)
  note df = dir_facts [OF L rep d]
  have dr: "node_rep m d ?nd" by (rule store_repD [OF rep d])
  have fit: "fits d 88" using node_fits [OF L own d] by simp
  note u = node_unat [OF fit]
  have out: "?m x = m x" if "\<not> (unat d + 84 \<le> unat x \<and> unat x < unat d + 88)" for x
    using that fit by (intro store32_other) (auto simp: fits_def in_region_def u)
  show ch: "in_region x d 88" if "?m x \<noteq> m x" for x
  proof -
    have "unat d + 84 \<le> unat x \<and> unat x < unat d + 88" using out [of x] that by blast
    then show ?thesis by (simp add: in_region_def)
  qed
  have ag: "agree_on m ?m d 84" by (auto simp: agree_on_def in_region_def intro!: out)
  have ld: "load32 ?m (parent_at d) = load32 m (parent_at d)" "load32 ?m (children_at d) = load32 m (children_at d)"
    by (rule agree_field [OF ag fit u(4)] agree_field [OF ag fit u(5)]; simp)+
  have hd: "head_rep m d dn FS_DIRECTORY par" using dr by simp
  then have "load32 ?m (parent_at d) = par" using ld by (simp add: head_rep_def)
  moreover have "agree_on m ?m d 76" by (rule agree_on_sub [OF ag]) simp_all
  ultimately have "head_rep ?m d dn FS_DIRECTORY par" using head_rep_parent [OF hd _ fit] by blast
  moreover have "load32 ?m (arr + 4 * of_nat j) = kids ! j" if j: "j < length kids" for j
  proof -
    have j32: "j < 32" and a0: "arr \<noteq> 0" using slot_facts [OF L rep d j] by simp_all
    then have ap: "(arr, 128) \<in> parts d ?nd" by simp
    have fa: "fits arr 128" using part_fits [OF L own d ap] by simp
    have da: "apart d 88 arr 128" using parts_apart [OF L own d head_part d ap] by auto
    have "load32 ?m (arr + 4 * of_nat j) = load32 m (arr + 4 * of_nat j)"
      using da fa fit j32 by (intro load32_store32_other) (auto simp: fits_def apart_def unat_slot u)
    then show ?thesis using dr j by simp
  qed
  ultimately have "node_rep ?m d (Dir dn par arr (take k kids))"
    using dr ld k by (auto simp: child_count_def)
  then show "store_rep L ?m (fs(d \<mapsto> Dir dn par arr (take k kids)))"
  proof (intro store_write [OF L rep, where A = "{d}"])
    show "\<exists>a \<in> {d}. \<exists>nd. fs a = Some nd \<and> (\<exists>(q, n) \<in> parts a nd. in_region x q n)" if "?m x \<noteq> m x" for x
      using d ch [OF that] head_part [of d ?nd] by blast
    show "\<exists>nd nd'. fs a = Some nd \<and> (fs(d \<mapsto> Dir dn par arr (take k kids))) a = Some nd' \<and>
        parts a nd' = parts a nd \<and> node_rep ?m a nd'" if "a \<in> {d}" "node_rep ?m d (Dir dn par arr (take k kids))" for a
      using d that by simp
  qed simp
qed

text \<open>The shift leaves the last child in its slot; the counter then drops it.\<close>

lemma shift_children_rep:
  assumes L: "blocks L"
  shows "store_rep L m fs \<Longrightarrow> fs d = Some (Dir dn par arr kids) \<Longrightarrow> j < length kids \<Longrightarrow>
    \<exists>m'. shift_children m d (of_nat j) = Some m' \<and>
      store_rep L m' (fs(d \<mapsto> Dir dn par arr (take j kids @ drop (Suc j) kids @ [last kids]))) \<and>
      (\<forall>x. m' x \<noteq> m x \<longrightarrow> in_region x arr 128)"
proof (induction "length kids - j" arbitrary: m fs kids j)
  case 0
  then show ?case by simp
next
  case (Suc n)
  note df = dir_facts [OF L Suc.prems(1,2)]
  have lt: "(of_nat j :: u32) < child_count m d - 1 \<longleftrightarrow> Suc j < length kids"
    using df(3,4) Suc.prems(3) by (simp add: u32_less_iff unat_of_nat_u32 unat_sub_if' word_le_nat_alt) linarith
  show ?case
  proof (cases "Suc j < length kids")
    case False
    then have "take j kids = butlast kids" "drop (Suc j) kids = []" "kids \<noteq> []"
      using Suc.prems(3) by (auto simp: butlast_conv_take intro: arg_cong [where f = "\<lambda>i. take i kids"])
    then have "take j kids @ drop (Suc j) kids @ [last kids] = kids"
      by simp
    moreover have "fs(d \<mapsto> Dir dn par arr kids) = fs" using Suc.prems(2) by auto
    moreover have "shift_children m d (of_nat j) = Some m"
      using False lt by (subst shift_children.simps) simp
    ultimately show ?thesis using Suc.prems(1) by (intro exI [of _ m]) (simp del: append_assoc)
  next
    case True
    let ?kids = "kids[j := kids ! Suc j]" and ?fs = "fs(d \<mapsto> Dir dn par arr (kids[j := kids ! Suc j]))"
    let ?m = "store32 m (slot m d (of_nat j)) (child_at m d (of_nat j + 1))"
    have ca: "child_at m d (of_nat j + 1) = kids ! Suc j"
      using child_at_rep [OF store_repD [OF Suc.prems(1,2)] True] by (simp add: add.commute)
    note st = set_slot [OF L Suc.prems, of "kids ! Suc j"]
    have m: "?m = store32 m (arr + 4 * of_nat j) (kids ! Suc j)" by (simp add: df(7) ca)
    have "\<exists>m'. shift_children ?m d (of_nat (Suc j)) = Some m' \<and>
      store_rep L m' (?fs(d \<mapsto> Dir dn par arr (take (Suc j) ?kids @ drop (Suc (Suc j)) ?kids @ [last ?kids]))) \<and>
      (\<forall>x. m' x \<noteq> ?m x \<longrightarrow> in_region x arr 128)"
      using Suc.hyps(2) True st(1) unfolding m by (intro Suc.hyps(1)) simp_all
    then obtain m' where m': "shift_children ?m d (of_nat (Suc j)) = Some m'"
      "store_rep L m' (?fs(d \<mapsto> Dir dn par arr (take (Suc j) ?kids @ drop (Suc (Suc j)) ?kids @ [last ?kids])))"
      "\<forall>x. m' x \<noteq> ?m x \<longrightarrow> in_region x arr 128"
      by blast
    have "kids \<noteq> []" using True by auto
    then have "last ?kids = last kids" using True by (simp add: last_conv_nth nth_list_update)
    moreover have "take (Suc j) ?kids = take j kids @ [kids ! Suc j]"
      using True by (simp add: take_Suc_conv_app_nth)
    moreover have "drop (Suc j) kids = kids ! Suc j # drop (Suc (Suc j)) kids"
      using True by (simp add: Cons_nth_drop_Suc)
    ultimately have l: "take (Suc j) ?kids @ drop (Suc (Suc j)) ?kids @ [last ?kids] =
        take j kids @ drop (Suc j) kids @ [last kids]"
      by simp
    have "shift_children m d (of_nat j) = Some m'"
      using True lt m'(1) by (subst shift_children.simps) (simp add: add.commute)
    then show ?thesis
      using m'(2,3) st(2) unfolding l m by (intro exI [of _ m']) (auto, metis)
  qed
qed

lemma unlink_child_rep:
  assumes L: "blocks L" and rep: "store_rep L m fs" and d: "fs d = Some (Dir dn par arr kids)" and i: "i < length kids"
  obtains m' where "unlink_child m d (of_nat i) = Some m'"
    "store_rep L m' (fs(d \<mapsto> Dir dn par arr (take i kids @ drop (Suc i) kids)))"
    "\<And>x. m' x \<noteq> m x \<Longrightarrow> in_region x arr 128 \<or> in_region x d 88"
proof -
  let ?kids = "take i kids @ drop (Suc i) kids @ [last kids]"
  let ?fs = "fs(d \<mapsto> Dir dn par arr ?kids)"
  obtain m1 where m1: "shift_children m d (of_nat i) = Some m1" "store_rep L m1 ?fs"
    "\<forall>x. m1 x \<noteq> m x \<longrightarrow> in_region x arr 128"
    using shift_children_rep [OF L rep d i] by blast
  have d1: "?fs d = Some (Dir dn par arr ?kids)" by simp
  have len: "length kids - 1 \<le> length ?kids" "length ?kids = length kids" using i by simp_all
  have cnt: "child_count m1 d - 1 = of_nat (length kids - 1)"
    using dir_facts(3) [OF L m1(2) d1] len(2) i by (simp add: of_nat_diff)
  have tk: "take (length kids - 1) ?kids = take i kids @ drop (Suc i) kids"
    using i by simp
  note st = set_count [OF L m1(2) d1 len(1)]
  show thesis
  proof (rule that)
    show "unlink_child m d (of_nat i) = Some (store32 m1 (child_count_at d) (of_nat (length kids - 1)))"
      by (simp add: unlink_child_def m1(1) cnt del: of_nat_diff)
    show "store_rep L (store32 m1 (child_count_at d) (of_nat (length kids - 1)))
        (fs(d \<mapsto> Dir dn par arr (take i kids @ drop (Suc i) kids)))"
      using st(1) unfolding tk fun_upd_upd .
    show "in_region x arr 128 \<or> in_region x d 88"
      if "store32 m1 (child_count_at d) (of_nat (length kids - 1)) x \<noteq> m x" for x
      using st(2) [of x] m1(3) that by metis
  qed
qed

section \<open>The recursion\<close>

text \<open>
  \<open>pruned fs fs'\<close>: only lists of children have become shorter. \<open>below fs a\<close>: the nodes of the
  subtree of \<open>a\<close>.
\<close>

fun pruned_node :: "fnode \<Rightarrow> fnode \<Rightarrow> bool" where
  "pruned_node (Dir nm par arr kids) (Dir nm' par' arr' kids') \<longleftrightarrow>
     nm' = nm \<and> par' = par \<and> arr' = arr \<and> subseq kids' kids"
| "pruned_node nd nd' \<longleftrightarrow> nd = nd'"

definition pruned :: "store \<Rightarrow> store \<Rightarrow> bool" where
  "pruned fs fs' \<longleftrightarrow> (\<forall>a. rel_option pruned_node (fs a) (fs' a))"

inductive below :: "store \<Rightarrow> u32 \<Rightarrow> u32 \<Rightarrow> bool" for fs where
  self: "below fs a a"
| kid: "below fs a b \<Longrightarrow> fs b = Some nd \<Longrightarrow> c \<in> set (kids_of nd) \<Longrightarrow> below fs a c"

lemma set_subseq: "subseq xs ys \<Longrightarrow> x \<in> set xs \<Longrightarrow> x \<in> set ys"
  by (induction rule: list_emb.induct) auto

lemma distinct_subseq: "subseq xs ys \<Longrightarrow> distinct ys \<Longrightarrow> distinct xs"
  by (auto simp: subseq_conv_nths intro: distinct_nthsI)

lemma pruned_nodeD:
  assumes "pruned_node nd nd'"
  shows "parts a nd' = parts a nd" "parent_of nd' = parent_of nd" "type_of nd' = type_of nd"
    "name_of nd' = name_of nd" "subseq (kids_of nd') (kids_of nd)"
  using assms by (cases nd; cases nd'; auto)+

lemma pruned_node_refl [simp]: "pruned_node nd nd"
  by (cases nd) simp_all

lemma pruned_node_trans: "pruned_node a b \<Longrightarrow> pruned_node b c \<Longrightarrow> pruned_node a c"
  by (cases a; cases b; cases c) (auto intro: subseq_order.trans)

lemma pruned_refl [simp]: "pruned fs fs"
  by (auto simp: pruned_def option.rel_refl)

lemma pruned_trans: "pruned fs fs' \<Longrightarrow> pruned fs' fs'' \<Longrightarrow> pruned fs fs''"
  unfolding pruned_def by (metis option.rel_transp pruned_node_trans transpD transpI)

lemma pruned_some: "pruned fs fs' \<Longrightarrow> fs' a = Some nd' \<Longrightarrow> \<exists>nd. fs a = Some nd \<and> pruned_node nd nd'"
  unfolding pruned_def by (metis option_rel_Some2)

lemma pruned_some': "pruned fs fs' \<Longrightarrow> fs a = Some nd \<Longrightarrow> \<exists>nd'. fs' a = Some nd' \<and> pruned_node nd nd'"
  unfolding pruned_def by (metis option_rel_Some1)

lemma pruned_upd: "fs a = Some nd \<Longrightarrow> pruned_node nd nd' \<Longrightarrow> pruned fs (fs(a \<mapsto> nd'))"
  by (auto simp: pruned_def option.rel_refl)

lemma below_pruned: "below fs' a c \<Longrightarrow> pruned fs fs' \<Longrightarrow> below fs a c"
proof (induction rule: below.induct)
  case (self a) show ?case by (rule below.self)
next
  case (kid a b nd c)
  then show ?case
    using pruned_some [OF kid(5,2)] pruned_nodeD(5) below.kid set_subseq by metis
qed

lemma below_kid: "fs a = Some nd \<Longrightarrow> c \<in> set (kids_of nd) \<Longrightarrow> below fs a c"
  by (rule below.kid [OF below.self])

lemma below_trans: "below fs b c \<Longrightarrow> below fs a b \<Longrightarrow> below fs a c"
  by (induction rule: below.induct) (auto intro: below.kid)

lemma kids_ok_pruned:
  assumes "kids_ok fs" "pruned fs fs'"
  shows "kids_ok fs'"
  unfolding kids_ok_def
proof (intro allI impI)
  fix a nm par arr kids'
  assume a: "fs' a = Some (Dir nm par arr kids')"
  then obtain nd where nd: "fs a = Some nd" "pruned_node nd (Dir nm par arr kids')"
    using pruned_some [OF assms(2)] by blast
  then obtain kids where k: "nd = Dir nm par arr kids" "subseq kids' kids" by (cases nd) auto
  note ok = kids_okD [OF assms(1) nd(1) [unfolded k(1)]]
  have "\<exists>n. fs' c = Some n \<and> parent_of n = a" if "c \<in> set kids'" for c
    using ok(2) set_subseq [OF k(2)] that pruned_some' [OF assms(2)] pruned_nodeD(2) by metis
  then show "distinct kids' \<and> (\<forall>c \<in> set kids'. \<exists>n. fs' c = Some n \<and> parent_of n = a)"
    using distinct_subseq [OF k(2)] ok(1) by blast
qed

lemma ranked_pruned: "ranked h fs \<Longrightarrow> pruned fs fs' \<Longrightarrow> ranked h fs'"
  unfolding ranked_def using pruned_some pruned_nodeD(5) set_subseq by metis

lemma below_rank: "below fs a c \<Longrightarrow> ranked h fs \<Longrightarrow> h c \<le> h a"
  by (induction rule: below.induct) (auto simp: ranked_def dest!: spec)

text \<open>\<open>inside fs A m m'\<close>: memory differs at most in the regions of the nodes \<open>A\<close>.\<close>

definition inside :: "store \<Rightarrow> u32 set \<Rightarrow> ram \<Rightarrow> ram \<Rightarrow> bool" where
  "inside fs A m m' \<longleftrightarrow>
     (\<forall>x. m' x \<noteq> m x \<longrightarrow> (\<exists>a \<in> A. \<exists>nd. fs a = Some nd \<and> (\<exists>(q, n) \<in> parts a nd. in_region x q n)))"

lemma inside_refl [simp]: "inside fs A m m"
  by (simp add: inside_def)

lemma inside_mono: "inside fs A m m' \<Longrightarrow> A \<subseteq> B \<Longrightarrow> inside fs B m m'"
  unfolding inside_def by blast

lemma inside_pruned:
  assumes "inside fs' A m m'" "pruned fs fs'"
  shows "inside fs A m m'"
  unfolding inside_def
proof (intro allI impI)
  fix x assume "m' x \<noteq> m x"
  then obtain a nd' where a: "a \<in> A" "fs' a = Some nd'" "\<exists>(q, n) \<in> parts a nd'. in_region x q n"
    using assms(1) unfolding inside_def by blast
  obtain nd where "fs a = Some nd" "pruned_node nd nd'" using pruned_some [OF assms(2) a(2)] by blast
  then show "\<exists>a \<in> A. \<exists>nd. fs a = Some nd \<and> (\<exists>(q, n) \<in> parts a nd. in_region x q n)"
    using a(1,3) pruned_nodeD(1) by fastforce
qed

lemma inside_trans:
  assumes "inside fs A m m'" "inside fs A m' m''"
  shows "inside fs A m m''"
  unfolding inside_def
proof (intro allI impI)
  fix x assume "m'' x \<noteq> m x"
  then have "m'' x \<noteq> m' x \<or> m' x \<noteq> m x" by auto
  then show "\<exists>a \<in> A. \<exists>nd. fs a = Some nd \<and> (\<exists>(q, n) \<in> parts a nd. in_region x q n)"
    using assms unfolding inside_def by blast
qed

lemma child_index_rep:
  assumes L: "blocks L" and rep: "store_rep L m fs" and ok: "kids_ok fs" and d: "fs d = Some (Dir dn par arr kids)"
  shows "i < length kids \<Longrightarrow> child_index m d (kids ! i) = Some (of_nat i)"
    and "c \<notin> set kids \<Longrightarrow> child_index m d c = None"
proof -
  have dr: "node_rep m d (Dir dn par arr kids)" by (rule store_repD [OF rep d])
  have len: "unat (child_count m d) = length kids" by (rule unat_child_count [OF dr])
  note ca = child_at_rep [OF dr]
  show "child_index m d (kids ! i) = Some (of_nat i)" if i: "i < length kids"
  proof -
    have "find (\<lambda>j. child_at m d (of_nat j) = kids ! i) [0..<length kids] = Some i"
      using i kids_okD(1) [OF ok d] ca by (auto simp: find_Some_iff nth_eq_iff_index_eq)
    then show ?thesis by (simp add: child_index_def len)
  qed
  show "child_index m d c = None" if c: "c \<notin> set kids"
  proof -
    have "find (\<lambda>j. child_at m d (of_nat j) = c) [0..<length kids] = None"
      using c ca by (auto simp: find_None_iff)
    then show ?thesis by (simp add: child_index_def len)
  qed
qed

text \<open>The children that the loop over a shrinking list leaves behind.\<close>

fun skip :: "'a list \<Rightarrow> 'a list" where
  "skip (x # y # r) = y # skip r"
| "skip [x] = []"
| "skip [] = []"

lemma subseq_skip: "subseq (skip xs) xs"
  by (induction xs rule: skip.induct) auto

lemma skip_step:
  "j < length kids \<Longrightarrow> take (Suc j) (take j kids @ drop (Suc j) kids) @ skip (drop (Suc j) (take j kids @ drop (Suc j) kids)) =
    take j kids @ skip (drop j kids)"
proof -
  assume j: "j < length kids"
  then have d: "drop j kids = kids ! j # drop (Suc j) kids" by (simp add: Cons_nth_drop_Suc)
  show ?thesis
  proof (cases "Suc j < length kids")
    case True
    then have "drop (Suc j) kids = kids ! Suc j # drop (Suc (Suc j)) kids" by (simp add: Cons_nth_drop_Suc)
    with j d show ?thesis by simp
  qed (use j d in simp)
qed

text \<open>What \<open>remove_children\<close> does below a directory of rank less than \<open>n\<close>.\<close>

definition removes :: "(u32 \<times> nat) set \<Rightarrow> (u32 \<Rightarrow> nat) \<Rightarrow> nat \<Rightarrow> bool" where
  "removes L h n \<longleftrightarrow> (\<forall>m fs d dn par arr kids j. store_rep L m fs \<longrightarrow> kids_ok fs \<longrightarrow> ranked h fs \<longrightarrow>
     fs d = Some (Dir dn par arr kids) \<longrightarrow> h d < n \<longrightarrow> j \<le> MAX_CHILDREN \<longrightarrow>
     (\<exists>m' fs'. remove_children m d (of_nat j) = Some m' \<and> store_rep L m' fs' \<and> pruned fs fs' \<and>
       (\<forall>x. \<not> below fs d x \<longrightarrow> fs' x = fs x) \<and>
       fs' d = Some (Dir dn par arr (take j kids @ skip (drop j kids))) \<and> inside fs {x. below fs d x} m m'))"

lemma remove_one:
  assumes L: "blocks L" and IH: "removes L h n" and rep: "store_rep L m fs" and ok: "kids_ok fs" "ranked h fs"
    and d: "fs d = Some (Dir dn par arr kids)" "h d \<le> n" and i: "i < length kids"
  obtains m' fs' where "fs_remove_child d (kids ! i) m = Some m'" "store_rep L m' fs'" "pruned fs fs'"
    "\<And>x. x \<noteq> d \<Longrightarrow> \<not> below fs (kids ! i) x \<Longrightarrow> fs' x = fs x"
    "fs' d = Some (Dir dn par arr (take i kids @ drop (Suc i) kids))"
    "inside fs (insert d {x. below fs (kids ! i) x}) m m'"
proof -
  let ?c = "kids ! i" and ?B = "insert d {x. below fs (kids ! i) x}"
  have cin: "?c \<in> set kids" using i by simp
  obtain nc where nc: "fs ?c = Some nc" using kids_okD(2) [OF ok(1) d(1) cin] by blast
  have hc: "h ?c < h d" using ok(2) d(1) cin by (auto simp: ranked_def)
  have nd: "\<not> below fs ?c d" using below_rank [OF _ ok(2)] hc by fastforce
  obtain m1 fs1 where r1: "(if node_type m ?c = type_code FS_DIRECTORY then remove_children m ?c 0 else Some m) = Some m1"
    "store_rep L m1 fs1" "pruned fs fs1" "\<forall>x. \<not> below fs ?c x \<longrightarrow> fs1 x = fs x" "inside fs {x. below fs ?c x} m m1"
  proof (cases nc)
    case (File nm p sz dat)
    then have "node_type m ?c \<noteq> type_code FS_DIRECTORY"
      using node_type_rep [OF store_repD [OF rep nc]] by simp
    then show thesis by (intro that [of m fs]) (simp_all add: rep)
  next
    case (Dir nm p ar ks)
    then have ty: "node_type m ?c = type_code FS_DIRECTORY"
      using node_type_rep [OF store_repD [OF rep nc]] by simp
    have "h ?c < n" using hc d(2) by simp
    then obtain m1 fs1 where "remove_children m ?c (of_nat 0) = Some m1" "store_rep L m1 fs1" "pruned fs fs1"
      "\<forall>x. \<not> below fs ?c x \<longrightarrow> fs1 x = fs x" "inside fs {x. below fs ?c x} m m1"
      using IH rep ok nc unfolding removes_def Dir by (metis zero_le)
    with ty show thesis by (intro that [of m1 fs1]) simp_all
  qed
  have d1: "fs1 d = Some (Dir dn par arr kids)" using r1(4) nd d(1) by simp
  obtain m2 where m2: "unlink_child m1 d (of_nat i) = Some m2"
    "store_rep L m2 (fs1(d \<mapsto> Dir dn par arr (take i kids @ drop (Suc i) kids)))"
    "\<And>x. m2 x \<noteq> m1 x \<Longrightarrow> in_region x arr 128 \<or> in_region x d 88"
    using unlink_child_rep [OF L r1(2) d1 i] by blast
  have "subseq (take i kids @ drop (Suc i) kids) kids"
    by (metis id_take_nth_drop [OF i] list_emb_append_mono list_emb_Cons subseq_order.order_refl)
  then have p1: "pruned fs1 (fs1(d \<mapsto> Dir dn par arr (take i kids @ drop (Suc i) kids)))"
    by (intro pruned_upd [where fs = fs1 and a = d, OF d1]) simp
  show thesis
  proof (rule that)
    note df = dir_facts [OF L rep d(1)]
    show "fs_remove_child d ?c m = Some m2"
      using r1(1) m2(1) by (simp add: fs_remove_child_def df(1,2) child_index_rep(1) [OF L rep ok(1) d(1) i])
    show "store_rep L m2 (fs1(d \<mapsto> Dir dn par arr (take i kids @ drop (Suc i) kids)))" by (rule m2(2))
    show "pruned fs (fs1(d \<mapsto> Dir dn par arr (take i kids @ drop (Suc i) kids)))"
      by (rule pruned_trans [OF r1(3) p1])
    show "(fs1(d \<mapsto> Dir dn par arr (take i kids @ drop (Suc i) kids))) x = fs x" if "x \<noteq> d" "\<not> below fs ?c x" for x
      using that r1(4) by simp
    show "inside fs ?B m m2"
    proof (rule inside_trans)
      show "inside fs ?B m m1" by (rule inside_mono [OF r1(5)]) auto
      have "(arr, 128) \<in> parts d (Dir dn par arr kids)" using slot_facts(2) [OF L rep d(1) i] by simp
      then show "inside fs ?B m1 m2"
        unfolding inside_def using m2(3) d(1) head_part by blast
    qed
  qed simp
qed

lemma remove_children_end:
  assumes "blocks L" "store_rep L m fs" "fs d = Some (Dir dn par arr kids)" "j \<le> 32"
  shows "(of_nat j :: u32) < child_count m d \<longleftrightarrow> j < length kids"
  using dir_facts(3,4) [OF assms(1-3)] assms(4) by (simp add: u32_less_iff unat_of_nat_u32)

lemma removes_all:
  assumes L: "blocks L"
  shows "removes L h n"
proof (induction n)
  case 0
  then show ?case by (simp add: removes_def)
next
  case (Suc n)
  have "\<exists>m' fs'. remove_children m d (of_nat j) = Some m' \<and> store_rep L m' fs' \<and> pruned fs fs' \<and>
      (\<forall>x. \<not> below fs d x \<longrightarrow> fs' x = fs x) \<and>
      fs' d = Some (Dir dn par arr (take j kids @ skip (drop j kids))) \<and> inside fs {x. below fs d x} m m'"
    if "store_rep L m fs" "kids_ok fs" "ranked h fs" "fs d = Some (Dir dn par arr kids)" "h d \<le> n" "j \<le> 32"
    for m fs d dn par arr kids j
    using that
  proof (induction "length kids - j" arbitrary: m fs kids j rule: less_induct)
    case less
    let ?c = "kids ! j" and ?kids = "take j kids @ drop (Suc j) kids"
    show ?case
    proof (cases "j < length kids")
      case False
      then have "remove_children m d (of_nat j) = Some m"
        using remove_children_end [OF L less.prems(1,4,6)] by (subst remove_children.simps) simp
      with less.prems False show ?thesis by (intro exI [of _ m] exI [of _ fs]) simp
    next
      case j: True
      have j32: "j < 32" using slot_facts(1) [OF L less.prems(1,4) j] .
      obtain m1 fs1 where r1: "fs_remove_child d ?c m = Some m1" "store_rep L m1 fs1" "pruned fs fs1"
        "\<And>x. x \<noteq> d \<Longrightarrow> \<not> below fs ?c x \<Longrightarrow> fs1 x = fs x" "fs1 d = Some (Dir dn par arr ?kids)"
        "inside fs (insert d {x. below fs ?c x}) m m1"
        using remove_one [OF L Suc.IH less.prems(1-5) j] by blast
      have dc: "below fs d ?c" by (rule below_kid [where fs = fs and a = d, OF less.prems(4)]) (use j in simp)
      have "\<exists>m' fs'. remove_children m1 d (of_nat (Suc j)) = Some m' \<and> store_rep L m' fs' \<and> pruned fs1 fs' \<and>
        (\<forall>x. \<not> below fs1 d x \<longrightarrow> fs' x = fs1 x) \<and>
        fs' d = Some (Dir dn par arr (take (Suc j) ?kids @ skip (drop (Suc j) ?kids))) \<and> inside fs1 {x. below fs1 d x} m1 m'"
        using j j32 kids_ok_pruned [OF less.prems(2) r1(3)] ranked_pruned [OF less.prems(3) r1(3)] less.prems(5)
        by (intro less.hyps r1(2,5)) simp_all
      then obtain m2 fs2 where r2: "remove_children m1 d (of_nat (Suc j)) = Some m2" "store_rep L m2 fs2" "pruned fs1 fs2"
        "\<forall>x. \<not> below fs1 d x \<longrightarrow> fs2 x = fs1 x"
        "fs2 d = Some (Dir dn par arr (take (Suc j) ?kids @ skip (drop (Suc j) ?kids)))" "inside fs1 {x. below fs1 d x} m1 m2"
        by blast
      have "child_at m d (of_nat j) = ?c" by (rule child_at_rep [OF store_repD [OF less.prems(1,4)] j])
      then have "remove_children m d (of_nat j) = Some m2"
        using r1(1) r2(1) j remove_children_end [OF L less.prems(1,4), of j] j32
        by (subst remove_children_step) (simp add: add.commute)
      moreover have "fs2 x = fs x" if x: "\<not> below fs d x" for x
      proof -
        have "\<not> below fs1 d x" using x below_pruned [OF _ r1(3)] by blast
        moreover have "x \<noteq> d" "\<not> below fs ?c x" using x below.self below_trans [OF _ dc] by blast+
        ultimately show ?thesis using r2(4) r1(4) by simp
      qed
      moreover have "inside fs {x. below fs d x} m m2"
      proof (rule inside_trans)
        show "inside fs {x. below fs d x} m m1"
          by (rule inside_mono [OF r1(6)]) (auto intro: below.self below_trans [OF _ dc])
        show "inside fs {x. below fs d x} m1 m2"
          by (rule inside_mono [OF inside_pruned [OF r2(6) r1(3)]]) (auto intro: below_pruned [OF _ r1(3)])
      qed
      ultimately show ?thesis
        using r2(2) pruned_trans [OF r1(3) r2(3)] r2(5) unfolding skip_step [OF j] by blast
    qed
  qed
  then show ?case unfolding removes_def by (simp add: less_Suc_eq_le)
qed

section \<open>Detaching a subtree\<close>

text \<open>The store without the subtree of \<open>c\<close>, a child of \<open>d\<close>.\<close>

fun without :: "u32 \<Rightarrow> fnode \<Rightarrow> fnode" where
  "without c (File nm par sz dat) = File nm par sz dat"
| "without c (Dir nm par arr kids) = Dir nm par arr (remove1 c kids)"

definition detach :: "store \<Rightarrow> u32 \<Rightarrow> u32 \<Rightarrow> store" where
  "detach fs d c = (\<lambda>x. if below fs c x then None else if x = d then map_option (without c) (fs d) else fs x)"

lemma remove1_nth: "distinct xs \<Longrightarrow> i < length xs \<Longrightarrow> remove1 (xs ! i) xs = take i xs @ drop (Suc i) xs"
proof -
  assume *: "distinct xs" "i < length xs"
  define us vs x where uvx: "us = take i xs" "vs = drop (Suc i) xs" "x = xs ! i"
  have xs: "xs = us @ x # vs" using * by (simp add: uvx id_take_nth_drop [symmetric])
  then have "x \<notin> set us" using *(1) by auto
  then have "remove1 x xs = us @ vs" by (simp add: xs remove1_append)
  then show ?thesis by (simp only: uvx)
qed

lemma fs_remove_child_rep:
  assumes L: "blocks L" and rep: "store_rep L m fs" and ok: "store_ok fs"
    and d: "fs d = Some (Dir dn par arr kids)" and c: "c \<in> set kids"
  obtains m' where "fs_remove_child d c m = Some m'" "store_rep L m' (detach fs d c)"
    "inside fs (insert d {x. below fs c x}) m m'"
proof -
  obtain h where h: "ranked h fs" and k: "kids_ok fs" using ok by (auto simp: store_ok_def)
  obtain i where i: "i < length kids" "kids ! i = c" using c by (auto simp: in_set_conv_nth)
  obtain m' fs' where r: "fs_remove_child d (kids ! i) m = Some m'" "store_rep L m' fs'" "pruned fs fs'"
    "\<And>x. x \<noteq> d \<Longrightarrow> \<not> below fs (kids ! i) x \<Longrightarrow> fs' x = fs x"
    "fs' d = Some (Dir dn par arr (take i kids @ drop (Suc i) kids))"
    "inside fs (insert d {x. below fs (kids ! i) x}) m m'"
    using remove_one [OF L removes_all [OF L] rep k h d order_refl i(1)] by blast
  have "detach fs d c \<subseteq>\<^sub>m fs'"
    using r(4,5) d i(2) remove1_nth [OF kids_okD(1) [OF k d] i(1)]
    by (auto simp: map_le_def detach_def dom_def split: if_splits)
  then show thesis using r(1,6) store_rep_less [OF r(2)] i(2) by (intro that [of m']) simp_all
qed

lemma fs_remove_child_absent:
  assumes "blocks L" "store_rep L m fs" "store_ok fs" "fs d = Some (Dir dn par arr kids)" "c \<notin> set kids"
  shows "fs_remove_child d c m = Some m"
  using dir_facts(1,2) [OF assms(1,2,4)] child_index_rep(2) [OF assms(1,2) _ assms(4,5)] assms(3)
  by (simp add: fs_remove_child_def store_ok_def)

lemma store_ok_detach:
  assumes ok: "store_ok fs" and d: "fs d = Some (Dir dn par arr kids)" and c: "c \<in> set kids"
  shows "store_ok (detach fs d c)" "\<not> below fs c d"
    "detach fs d c d = Some (Dir dn par arr (remove1 c kids))"
proof -
  obtain h where h: "ranked h fs" and k: "kids_ok fs" using ok by (auto simp: store_ok_def)
  have hc: "h c < h d" using h d c by (auto simp: ranked_def)
  show nd: "\<not> below fs c d" using below_rank [OF _ h] hc by fastforce
  then show "detach fs d c d = Some (Dir dn par arr (remove1 c kids))" by (simp add: detach_def d)
  have sub: "\<exists>nd. fs a = Some nd \<and> set (kids_of nd') \<subseteq> set (kids_of nd) \<and> \<not> below fs c a"
    if "detach fs d c a = Some nd'" for a nd'
    using that d set_remove1_subset [of c kids] by (auto simp: detach_def split: if_splits)
  have up: "a = d \<and> x = c" if x: "below fs c x" and a: "fs a = Some nd" "x \<in> set (kids_of nd)" "\<not> below fs c a" for a nd x
    using x
  proof cases
    case self
    obtain nm p ar ks where nd: "nd = Dir nm p ar ks" using a(2) by (cases nd) auto
    have "x = c" using self by simp
    moreover have "a = d"
      using kids_okD(2) [OF k d c] kids_okD(2) [OF k a(1) [unfolded nd]] a(2) self nd by fastforce
    ultimately show ?thesis by simp
  next
    case (kid b nb)
    obtain nm p ar ks where nd: "nd = Dir nm p ar ks" using a(2) by (cases nd) auto
    obtain nm' p' ar' ks' where nb: "nb = Dir nm' p' ar' ks'" using kid(3) by (cases nb) auto
    have "a = b"
      using kids_okD(2) [OF k kid(2) [unfolded nb]] kids_okD(2) [OF k a(1) [unfolded nd]] a(2) kid(3) nd nb by fastforce
    with kid(1) a(3) show ?thesis by simp
  qed
  have "kids_ok (detach fs d c)"
    unfolding kids_ok_def
  proof (intro allI impI)
    fix a nm p ar ks
    assume a: "detach fs d c a = Some (Dir nm p ar ks)"
    obtain ks0 where ks0: "fs a = Some (Dir nm p ar ks0)" "\<not> below fs c a" "ks = (if a = d then remove1 c ks0 else ks0)"
      using a d by (auto simp: detach_def split: if_splits)
    note old = kids_okD [OF k ks0(1)]
    have "\<exists>nd. detach fs d c x = Some nd \<and> parent_of nd = a" if x: "x \<in> set ks" for x
    proof -
      have x0: "x \<in> set ks0" using x ks0(3) set_remove1_subset [of c ks0] by (auto split: if_splits)
      have "x \<noteq> c" if "a = d" using x ks0(3) old(1) that by (auto simp: set_remove1_eq)
      then have "\<not> below fs c x" using up [OF _ ks0(1) _ ks0(2)] x0 by auto
      moreover obtain nd where "fs x = Some nd" "parent_of nd = a" using old(2) [OF x0] by blast
      moreover have "parent_of (without c nd) = parent_of nd" for nd by (cases nd) simp_all
      ultimately show ?thesis by (auto simp: detach_def)
    qed
    then show "distinct ks \<and> (\<forall>x \<in> set ks. \<exists>nd. detach fs d c x = Some nd \<and> parent_of nd = a)"
      using old(1) ks0(3) by (auto intro: distinct_remove1)
  qed
  moreover have "ranked h (detach fs d c)"
    using h sub unfolding ranked_def by blast
  ultimately show "store_ok (detach fs d c)" unfolding store_ok_def by blast
qed

end
