(* ===== verification/Fs_Data.thy ===== *)
theory Fs_Data
  imports Fs_Remove
begin

text \<open>
  Writes into the nodes and the heap, and the creation of a file: a node with a block of data, as
  \<open>kernel_main\<close> and the shell make one.
\<close>

section \<open>Writes and the heap\<close>

text \<open>Writes into the regions of nodes leave the heap's own structure as it is.\<close>

lemma heap_rep_blocks:
  assumes rep: "heap_rep s bs" and ch: "\<And>x. m' x \<noteq> mem s x \<Longrightarrow> \<exists>(p, k) \<in> heap_live bs. in_region x p k"
  shows "heap_rep (s\<lparr>mem := m'\<rparr>) bs"
proof -
  define w where "w S = (\<lambda>x. if \<exists>(p, k) \<in> S. in_region x p k then m' x else mem s x)" for S :: "(u32 \<times> nat) set"
  have fin: "finite (heap_live bs)" by (simp add: heap_live_def)
  have "S \<subseteq> heap_live bs \<Longrightarrow> heap_rep (s\<lparr>mem := w S\<rparr>) bs" if "finite S" for S
    using that
  proof (induction S)
    case empty
    have "s\<lparr>mem := w {}\<rparr> = s" by (simp add: w_def)
    with rep show ?case by simp
  next
    case (insert b S)
    obtain p k where b: "b = (p, k)" by (cases b)
    have "heap_rep ((s\<lparr>mem := w S\<rparr>)\<lparr>mem := w (insert b S)\<rparr>) bs"
      using insert.prems insert.IH kheap.write_ok [of "s\<lparr>mem := w S\<rparr>" bs p k "w (insert b S)"]
      by (auto simp: b w_def)
    then show ?case by simp
  qed
  from this [OF fin subset_refl] have "heap_rep (s\<lparr>mem := w (heap_live bs)\<rparr>) bs" .
  moreover have "w (heap_live bs) = m'"
  proof (rule ext)
    fix x
    show "w (heap_live bs) x = m' x"
      using ch [of x] by (cases "m' x = mem s x") (simp_all add: w_def)
  qed
  ultimately show ?thesis by simp
qed

lemma inside_blocks:
  assumes "store_rep L m fs" "inside fs A m m'" "m' x \<noteq> m x"
  shows "\<exists>(p, k) \<in> L. in_region x p k"
proof -
  obtain a nd q n where a: "fs a = Some nd" "(q, n) \<in> parts a nd" "in_region x q n"
    using assms(2,3) unfolding inside_def by blast
  obtain k where "n \<le> k" "(q, k) \<in> L"
    using ownedD [of L fs, OF _ a(1,2)] assms(1) unfolding store_rep_def by metis
  then show ?thesis using a(3) by (intro bexI [of _ "(q, k)"]) (auto simp: in_region_def)
qed

lemma inside_heap:
  assumes "heap_rep s bs" "store_rep (heap_live bs) (mem s) fs" "inside fs A (mem s) m'"
  shows "heap_rep (s\<lparr>mem := m'\<rparr>) bs" "x \<notin> heap_area \<Longrightarrow> m' x = mem s x"
proof -
  show "heap_rep (s\<lparr>mem := m'\<rparr>) bs"
    using inside_blocks [OF assms(2,3)] by (rule heap_rep_blocks [OF assms(1)])
  show "m' x = mem s x" if "x \<notin> heap_area"
    using inside_blocks [OF assms(2,3), of x] kheap.live_area [OF assms(1)] that by blast
qed

section \<open>A file with a block of data\<close>

lemma head_rep_fields:
  assumes "head_rep m a nm ty par" "agree_on m m' a 64" "fits a 88"
    "load32 m' (type_at a) = load32 m (type_at a)" "load32 m' (parent_at a) = par'"
  shows "head_rep m' a nm ty par'"
proof -
  have "fits a 64" using assms(3) by (simp add: fits_def)
  then show ?thesis
    using assms cstring_agree [OF _ assms(2), of nm] by (auto simp: head_rep_def node_type_def)
qed

lemma file_with_data:
  assumes rep: "heap_rep (heap_after s o1 m1) bs1" and nd: "node_rep m1 p (File nm par sz dat)"
    and live: "(p, k) \<in> heap_live bs1" "88 \<le> k" and n: "0 < n" "n \<le> 0xFFFFFFF0"
  obtains q o2 m2 bs2 where "kmalloc n (heap_after s o1 (store32 m1 (size_at p) n)) = Some (q, heap_after s o2 m2)"
    "load32 (store32 m1 (size_at p) n) (size_at p) = n"
    "heap_rep (heap_after s o2 (store32 m2 (data_at p) q)) bs2"
    "node_rep (store32 m2 (data_at p) q) p (File nm par n q)"
    "keeps heap_area (heap_live bs1 - {(p, k)}) m1 (store32 m2 (data_at p) q)"
    "q = 0 \<Longrightarrow> bs2 = bs1 \<and> \<not> space (unat (align16 n)) bs1"
    "q \<noteq> 0 \<Longrightarrow> \<exists>j \<ge> unat n. heap_live bs2 = insert (q, j) (heap_live bs1)"
    "\<And>j. q \<noteq> 0 \<Longrightarrow> (q, j) \<notin> heap_live bs1"
    "\<And>x. 16 \<le> x \<Longrightarrow> space (unat (align16 n) + 12 + x) bs1 \<Longrightarrow> space x bs2"
proof -
  have fit: "fits p 88" "fits p k"
    using kheap.live_fits [OF rep live(1)] live(2) by (simp_all add: fits_def)
  note u = node_unat [OF fit(1)]
  let ?m = "store32 m1 (size_at p) n"
  have out: "store32 m q v x = m x" if "unat q = unat p + i" "i + 4 \<le> 88" "\<not> in_region x p k" for m q v x i
    using store32_outside [OF fit(2) that(1) _ that(3)] that(2) live(2) by simp
  have w: "heap_rep (heap_after s o1 ?m) bs1" "keeps heap_area (heap_live bs1 - {(p, k)}) m1 ?m"
    using heap_write [OF rep live(1), of ?m] out [OF u(2)] by simp_all
  obtain q o2 m2 bs2 where al: "kmalloc n (heap_after s o1 ?m) = Some (q, heap_after s o2 m2)"
    "heap_rep (heap_after s o2 m2) bs2" "keeps heap_area (heap_live bs1) ?m m2"
    "q = 0 \<Longrightarrow> bs2 = bs1 \<and> \<not> space (unat (align16 n)) bs1"
    "q \<noteq> 0 \<Longrightarrow> \<exists>j \<ge> unat n. heap_live bs2 = insert (q, j) (heap_live bs1)"
    "\<And>j. q \<noteq> 0 \<Longrightarrow> (q, j) \<notin> heap_live bs1"
    "\<And>x. 16 \<le> x \<Longrightarrow> space (unat (align16 n) + 12 + x) bs1 \<Longrightarrow> space x bs2"
  proof (rule kmalloc_sized [OF w(1) refl refl])
    show "0 < unat n" "unat n \<le> 0xFFFFFFF0" using n by (simp_all add: unat_gt_0 word_gt_0 u32_le_iff)
  qed (simp_all add: heap_after_twice)
  let ?m2 = "store32 m2 (data_at p) q"
  have sub: "heap_live bs1 \<subseteq> heap_live bs2" using al(4,5) by (cases "q = 0") auto
  have live2: "(p, k) \<in> heap_live bs2" using live(1) sub by blast
  have w2: "heap_rep (heap_after s o2 ?m2) bs2" "keeps heap_area (heap_live bs2 - {(p, k)}) m2 ?m2"
    using heap_write [OF al(2) live2, of ?m2] out [OF u(3)] by simp_all
  have nr: "head_rep m1 p nm FS_FILE par" using nd by simp
  have hp: "head_rep ?m p nm FS_FILE par"
  proof (rule head_rep_fields [OF nr _ fit(1)])
    show "agree_on m1 ?m p 64"
      using fit(1) by (auto simp: agree_on_def in_region_def fits_def u intro!: store32_other)
    show "load32 ?m (type_at p) = load32 m1 (type_at p)" "load32 ?m (parent_at p) = par"
      using nr field_read [OF fit(1) u(2) u(1)] field_read [OF fit(1) u(2) u(4)] by (simp_all add: head_rep_def)
  qed
  have "agree_on ?m m2 p k" using keepsD [OF al(3) live(1)] .
  then have ag: "agree_on ?m m2 p 88" by (rule agree_on_sub) (use live(2) in simp_all)
  have h2: "head_rep m2 p nm FS_FILE par" "load32 m2 (size_at p) = n"
    using head_rep_agree [OF hp ag fit(1)] field_agree [OF ag fit(1)] by simp_all
  have h3: "head_rep ?m2 p nm FS_FILE par"
  proof (rule head_rep_fields [OF h2(1) _ fit(1)])
    show "agree_on m2 ?m2 p 64"
      using fit(1) by (auto simp: agree_on_def in_region_def fits_def u intro!: store32_other)
    show "load32 ?m2 (type_at p) = load32 m2 (type_at p)" "load32 ?m2 (parent_at p) = par"
      using h2(1) field_read [OF fit(1) u(3) u(1)] field_read [OF fit(1) u(3) u(4)] by (simp_all add: head_rep_def)
  qed
  have "load32 ?m2 (size_at p) = n"
    using h2(2) field_read [OF fit(1) u(3) u(2)] by simp
  then have node: "node_rep ?m2 p (File nm par n q)" using h3 by simp
  have keep: "keeps heap_area (heap_live bs1 - {(p, k)}) m1 ?m2"
  proof (rule keeps_trans [OF w(2)], rule keeps_trans)
    show "keeps heap_area (heap_live bs1 - {(p, k)}) ?m m2" by (rule keeps_less [OF al(3)]) blast
    show "keeps heap_area (heap_live bs1 - {(p, k)}) m2 ?m2" by (rule keeps_less [OF w2(2)]) (use sub in blast)
  qed
  show thesis
    by (rule that [OF al(1) load32_store32 w2(1) node keep al(4-7)])
qed

text \<open>
  The common part of \<open>cmd_touch\<close> and of the creation of the README: a new node, its size, a block
  for the data, and any writes into that block.
\<close>

lemma new_file:
  assumes rep: "heap_rep s bs" and st: "store_rep (heap_live bs) (mem s) fs" and name: "cstring (mem s) name nm"
    and out: "\<And>j. j \<le> length nm \<Longrightarrow> name + of_nat j \<notin> heap_area" and n: "0 < n" "n \<le> 0xFFFFFFF0"
  obtains p o1 m1 q o2 m2 bs2 where "fs_create_node name FS_FILE s = Some (p, heap_after s o1 m1)"
    "p = 0 \<Longrightarrow> \<not> space 96 bs"
    "p \<noteq> 0 \<Longrightarrow> kmalloc n (heap_after s o1 (store32 m1 (size_at p) n)) = Some (q, heap_after s o2 m2) \<and>
      load32 (store32 m1 (size_at p) n) (size_at p) = n \<and> p \<notin> dom fs \<and>
      (q = 0 \<longrightarrow> \<not> space (108 + unat (align16 n)) bs) \<and> load32 (store32 m2 (data_at p) q) (size_at p) = n \<and>
      (\<forall>m3. (\<forall>x. m3 x \<noteq> store32 m2 (data_at p) q x \<longrightarrow> q \<noteq> 0 \<and> in_region x q (unat n)) \<longrightarrow>
        heap_rep (heap_after s o2 m3) bs2 \<and> keeps heap_area (heap_live bs) (mem s) m3 \<and>
        store_rep (heap_live bs2) m3 (fs(p \<mapsto> File (take 63 nm) 0 n q)))"
    "\<And>x. p \<noteq> 0 \<Longrightarrow> 16 \<le> x \<Longrightarrow> space (120 + unat (align16 n) + x) bs \<Longrightarrow> space x bs2"
    "q \<noteq> 0 \<Longrightarrow> fits q (unat n)"
proof (rule create_head [OF rep name out, of FS_FILE])
  fix p o1 m0 bs1
  let ?m1 = "init_node p name FS_FILE m0"
  assume k1: "kmalloc 88 s = Some (p, heap_after s o1 m0)"
    and z: "p = 0 \<Longrightarrow> heap_rep (heap_after s o1 m0) bs \<and> keeps heap_area (heap_live bs) (mem s) m0 \<and> \<not> space 96 bs"
    and nz: "p \<noteq> 0 \<Longrightarrow> heap_rep (heap_after s o1 ?m1) bs1 \<and> keeps heap_area (heap_live bs) (mem s) ?m1 \<and>
      head_rep ?m1 p (take 63 nm) FS_FILE 0 \<and> load32 ?m1 (size_at p) = 0 \<and> load32 ?m1 (data_at p) = 0 \<and>
      load32 ?m1 (children_at p) = 0 \<and> load32 ?m1 (child_count_at p) = 0 \<and>
      (\<forall>k. (p, k) \<notin> heap_live bs) \<and> (\<exists>k \<ge> 88. heap_live bs1 = insert (p, k) (heap_live bs)) \<and>
      (\<forall>x \<ge> 16. space (108 + x) bs \<longrightarrow> space x bs1)"
  show thesis
  proof (cases "p = 0")
    case True
    then show thesis
      using z by (intro that [of 0 o1 m0 0 o1 m0 bs]) (simp_all add: fs_create_node_def k1)
  next
    case False
    note a = nz [OF False]
    obtain k where k: "88 \<le> k" "heap_live bs1 = insert (p, k) (heap_live bs)" "(p, k) \<notin> heap_live bs" using a by blast
    have r1: "heap_rep (heap_after s o1 ?m1) bs1" and nd: "node_rep ?m1 p (File (take 63 nm) 0 0 0)"
      and live: "(p, k) \<in> heap_live bs1"
      using a k by simp_all
    show thesis
    proof (rule file_with_data [OF r1 nd live k(1) n])
      fix q o2 m2 bs2
      let ?m2 = "store32 m2 (data_at p) q"
      assume al: "kmalloc n (heap_after s o1 (store32 ?m1 (size_at p) n)) = Some (q, heap_after s o2 m2)"
        "load32 (store32 ?m1 (size_at p) n) (size_at p) = n" "heap_rep (heap_after s o2 ?m2) bs2"
        and nr: "node_rep ?m2 p (File (take 63 nm) 0 n q)"
        and keep: "keeps heap_area (heap_live bs1 - {(p, k)}) ?m1 ?m2"
        and q: "q = 0 \<Longrightarrow> bs2 = bs1 \<and> \<not> space (unat (align16 n)) bs1"
        "q \<noteq> 0 \<Longrightarrow> \<exists>j \<ge> unat n. heap_live bs2 = insert (q, j) (heap_live bs1)" "\<And>j. q \<noteq> 0 \<Longrightarrow> (q, j) \<notin> heap_live bs1"
        and sp: "\<And>x. 16 \<le> x \<Longrightarrow> space (unat (align16 n) + 12 + x) bs1 \<Longrightarrow> space x bs2"
      have L: "blocks (heap_live bs)" "blocks (heap_live bs2)" using blocks_heap rep al(3) by blast+
      have sub: "heap_live bs \<subseteq> heap_live bs1 - {(p, k)}" "heap_live bs1 \<subseteq> heap_live bs2"
        using k q(1,2) by (cases "q = 0"; auto)+
      have pq: "p \<noteq> q" using q(3) live False by auto
      have k2: "keeps heap_area (heap_live bs) (mem s) ?m2"
        using a keeps_trans [OF _ keeps_less [OF keep sub(1)]] by blast
      have fq: "fits q (unat n)" if "q \<noteq> 0"
        using q(2) [OF that] kheap.live_fits [OF al(3)] by (fastforce simp: fits_def)
      have new: "heap_rep (heap_after s o2 m3) bs2 \<and> keeps heap_area (heap_live bs) (mem s) m3 \<and>
          p \<notin> dom fs \<and> store_rep (heap_live bs2) m3 (fs(p \<mapsto> File (take 63 nm) 0 n q))"
        if m3: "\<And>x. m3 x \<noteq> ?m2 x \<Longrightarrow> q \<noteq> 0 \<and> in_region x q (unat n)" for m3
      proof -
        have h: "heap_rep (heap_after s o2 m3) bs2 \<and> keeps heap_area (heap_live bs1) ?m2 m3"
        proof (cases "q = 0")
          case True
          then have "m3 = ?m2" using m3 by (intro ext) blast
          then show ?thesis using al(3) by simp
        next
          case q0: False
          then obtain j where j: "unat n \<le> j" "heap_live bs2 = insert (q, j) (heap_live bs1)" using q(2) by blast
          have "(q, j) \<in> heap_live bs2" using j by simp
          moreover have "m3 x = ?m2 x" if "\<not> in_region x q j" for x
            using m3 [of x] that j(1) by (cases "m3 x = ?m2 x") (auto simp: in_region_def)
          ultimately have "heap_rep (heap_after s o2 m3) bs2" "keeps heap_area (heap_live bs2 - {(q, j)}) ?m2 m3"
            using heap_write [OF al(3), of q j m3] by simp_all
          then show ?thesis using j(2) q(3) [OF q0] by (auto elim: keeps_less)
        qed
        have k3: "keeps heap_area (heap_live bs) (mem s) m3"
          by (rule keeps_trans [OF k2]) (rule keeps_less [OF conjunct2 [OF h]], use sub(1) in blast)
        have fit: "fits p 88" using kheap.live_fits [OF r1 live] k(1) by (simp add: fits_def)
        have "agree_on ?m2 m3 p k" using keepsD [OF conjunct2 [OF h] live] .
        then have ag: "agree_on ?m2 m3 p 88" by (rule agree_on_sub) (use k(1) in simp_all)
        have n3: "node_rep m3 p (File (take 63 nm) 0 n q)"
          using nr head_rep_agree [OF _ ag fit] field_agree [OF ag fit] by simp
        have inj: "inj_on fst (parts p (File (take 63 nm) 0 n q))" using pq by auto
        have own: "(\<exists>j \<ge> i. (b, j) \<in> heap_live bs2) \<and> (\<forall>j. (b, j) \<notin> heap_live bs)"
          if part: "(b, i) \<in> parts p (File (take 63 nm) 0 n q)" for b i
        proof -
          consider "b = p" "i = 88" | "q \<noteq> 0" "b = q" "i = unat n" using part by (cases "q = 0") auto
          then show ?thesis
          proof cases
            case 1
            then show ?thesis using live sub(2) k(1) a by blast
          next
            case 2
            then show ?thesis using q(2) [OF 2(1)] q(3) [OF 2(1)] sub(1) by blast
          qed
        qed
        have same: "agree_on (mem s) m3 b j" if "(b, j) \<in> heap_live bs" for b j
          using keepsD [OF k3 that] .
        have "heap_live bs \<subseteq> heap_live bs2" using sub by blast
        note store_new [OF L this st same n3 inj own]
        with h k3 show ?thesis by blast
      qed
      show thesis
      proof (rule that [of p o1 ?m1 q o2 m2 bs2])
        show "fs_create_node name FS_FILE s = Some (p, heap_after s o1 ?m1)"
          using False by (simp add: fs_create_node_def k1)
        show "space x bs2" if "16 \<le> x" "space (120 + unat (align16 n) + x) bs" for x
        proof (rule sp [OF that(1)])
          show "space (unat (align16 n) + 12 + x) bs1" using a that by (auto simp: ac_simps)
        qed
        have "q = 0 \<longrightarrow> \<not> space (108 + unat (align16 n)) bs"
        proof (intro impI notI)
          assume "q = 0" "space (108 + unat (align16 n)) bs"
          moreover have "16 div 16 \<le> (unat n + 15) div 16"
            using n(1) by (intro div_le_mono) (simp add: u32_less_iff)
          then have "16 \<le> unat (align16 n)" using n(2) by (simp add: unat_align16)
          ultimately have "space (unat (align16 n)) bs1" using a by simp
          with q(1) \<open>q = 0\<close> show False by simp
        qed
        then show "kmalloc n (heap_after s o1 (store32 ?m1 (size_at p) n)) = Some (q, heap_after s o2 m2) \<and>
          load32 (store32 ?m1 (size_at p) n) (size_at p) = n \<and> p \<notin> dom fs \<and>
          (q = 0 \<longrightarrow> \<not> space (108 + unat (align16 n)) bs) \<and> load32 ?m2 (size_at p) = n \<and>
          (\<forall>m3. (\<forall>x. m3 x \<noteq> ?m2 x \<longrightarrow> q \<noteq> 0 \<and> in_region x q (unat n)) \<longrightarrow>
            heap_rep (heap_after s o2 m3) bs2 \<and> keeps heap_area (heap_live bs) (mem s) m3 \<and>
            store_rep (heap_live bs2) m3 (fs(p \<mapsto> File (take 63 nm) 0 n q)))"
          using al(1,2) nr new new [of ?m2] by auto
        show "\<not> space 96 bs" if "p = 0" using that False by simp
      qed (use fq in auto)
    qed
  qed
qed

end
