(* ===== verification/Keymap.thy ===== *)
theory Keymap
  imports Ramfs
begin

text \<open>
  The keyboard's own state and the translation of scan codes (the first half of
  \<open>src/kernel/keyboard.cpp\<close>): what the shell needs from it. \<open>read_keyboard\<close> leaves the members
  \<open>ctrl\<close>, \<open>alt\<close> and \<open>special\<close> of the event unassigned and nothing reads them; the record has the
  others.
\<close>

record keyboard_event =
  scancode :: u8
  shift :: bool
  caps_lock :: bool
  released :: bool
  enter :: bool
  backspace :: bool

record keyboard = ramfs +
  shift_pressed :: bool
  caps_lock_active :: bool

definition scancode_to_ascii :: "u8 list" where
  "scancode_to_ascii =
     [0, 0] @ bytes_of ''1234567890-='' @ [0, 0] @ bytes_of ''qwertyuiop[]'' @ [0, 0] @
     bytes_of ''asdfghjkl;'' @ [39] @ bytes_of ''`'' @ [0] @ [92] @ bytes_of ''zxcvbnm,./'' @ [0] @
     bytes_of ''*'' @ [0] @ bytes_of '' '' @ replicate 70 0"

definition to_upper :: "u8 \<Rightarrow> u8" where
  "to_upper c = (if sint c \<ge> 97 \<and> sint c \<le> 122 then c - (97 - 65) else c)"

definition kb_to_ascii :: "keyboard_event \<Rightarrow> 'a keyboard_scheme \<Rightarrow> u8" where
  "kb_to_ascii event s =
     (if scancode event < 128 then
        let ascii = scancode_to_ascii ! unat (scancode event) in
        if shift event \<or> caps_lock_active s then
          if sint ascii \<ge> 97 \<and> sint ascii \<le> 122 then to_upper ascii else ascii
        else ascii
      else 0)"

end
