(* ===== verification/Shell.thy ===== *)
theory Shell
  imports Keymap
begin

text \<open>
  The shell (\<open>src/kernel/shell.cpp\<close>): the line buffer, the command table and the commands over the
  file system. \<open>strtok_last\<close> is the static variable of \<open>strtok\<close>. The table has 256 entries of
  which nine are filled; the rest hold null pointers, and the code compares with their names and
  calls their functions all the same.
\<close>

section \<open>State\<close>

record shell = keyboard +
  shell_index :: u32
  current_dir :: u32
  input_enabled :: bool
  strtok_last :: u32

datatype command = Cmd_help | Cmd_ls | Cmd_cd | Cmd_cat | Cmd_touch | Cmd_mkdir | Cmd_rm | Cmd_rmdir | Cmd_uptime

record shell_command =
  command_name :: u32
  command_func :: "command option"
  command_description :: u32

abbreviation (input) SHELL_BUFFER_SIZE :: "'a::numeral" where "SHELL_BUFFER_SIZE \<equiv> 256"
abbreviation (input) NUM_COMMANDS :: "'a::numeral" where "NUM_COMMANDS \<equiv> 256"

definition shell_buffer :: "'a machine_scheme \<Rightarrow> u32" where
  "shell_buffer s = sym s ''shell_buffer''"

text \<open>The initialiser of the table, completed with null entries.\<close>

definition filled_commands :: "(string \<times> command \<times> string) list" where
  "filled_commands =
    [(''help'', Cmd_help, ''Show available commands''),
     (''ls'', Cmd_ls, ''List directory contents''),
     (''cd'', Cmd_cd, ''Change directory''),
     (''cat'', Cmd_cat, ''Display file contents''),
     (''touch'', Cmd_touch, ''Create a new file''),
     (''mkdir'', Cmd_mkdir, ''Create a new directory''),
     (''rm'', Cmd_rm, ''Remove a file''),
     (''rmdir'', Cmd_rmdir, ''Remove a directory''),
     (''uptime'', Cmd_uptime, ''Show system uptime'')]"

definition commands :: "'a machine_scheme \<Rightarrow> shell_command list" where
  "commands s =
     map (\<lambda>(name, f, description). \<lparr>command_name = lit s name, command_func = Some f,
       command_description = lit s description\<rparr>) filled_commands @
     replicate (NUM_COMMANDS - length filled_commands)
       \<lparr>command_name = 0, command_func = None, command_description = 0\<rparr>"

section \<open>Commands\<close>

text \<open>\<open>if (!current_dir) current_dir = fs_get_root();\<close> and \<open>!args || strlen(args) == 0\<close>.\<close>

definition enter_dir :: "'a shell_scheme \<Rightarrow> 'a shell_scheme" where
  "enter_dir s = (if current_dir s = 0 then s\<lparr>current_dir := fs_get_root s\<rparr> else s)"

definition no_args :: "u32 \<Rightarrow> 'a machine_scheme \<Rightarrow> bool option" where
  "no_args args s = (if args = 0 then Some True else do { n \<leftarrow> strlen (mem s) args; Some (n = 0) })"

text \<open>The loop of \<open>cmd_ls\<close>: printing changes neither the count nor the children.\<close>

fun ls_loop :: "nat list \<Rightarrow> 'a shell_scheme \<Rightarrow> 'a shell_scheme option" where
  "ls_loop [] s = Some s"
| "ls_loop (i # is) s = do {
     let child = child_at (mem s) (current_dir s) (of_nat i);
     s \<leftarrow> (if node_type (mem s) child = type_code FS_FILE
           then printf ''%s  '' [child] s else printf ''%s/  '' [child] s);
     ls_loop is s
   }"

definition cmd_ls :: "u32 \<Rightarrow> 'a shell_scheme \<Rightarrow> 'a shell_scheme option" where
  "cmd_ls args s = do {
     let s = enter_dir s;
     s \<leftarrow> ls_loop [0..<unat (child_count (mem s) (current_dir s))] s;
     printf ''\<newline>'' [] s
   }"

definition cmd_cd :: "u32 \<Rightarrow> 'a shell_scheme \<Rightarrow> 'a shell_scheme option" where
  "cmd_cd args s = do {
     let s = enter_dir s;
     empty \<leftarrow> no_args args s;
     if empty then printf ''Usage: cd <directory>\<newline>'' [] s
     else do {
       r \<leftarrow> strcmp (mem s) args (lit s ''..'');
       if r = 0 then
         if current_dir s \<noteq> 0 \<and> load32 (mem s) (parent_at (current_dir s)) \<noteq> 0
         then Some (s\<lparr>current_dir := load32 (mem s) (parent_at (current_dir s))\<rparr>)
         else printf ''Already at root.\<newline>'' [] s
       else do {
         target \<leftarrow> fs_find_child (mem s) (current_dir s) args;
         if target \<noteq> 0 \<and> node_type (mem s) target = type_code FS_DIRECTORY
         then Some (s\<lparr>current_dir := target\<rparr>)
         else printf ''cd: No such directory '%s'\<newline>'' [args] s
       }
     }
   }"

definition cmd_cat :: "u32 \<Rightarrow> 'a shell_scheme \<Rightarrow> 'a shell_scheme option" where
  "cmd_cat args s = do {
     let s = enter_dir s;
     empty \<leftarrow> no_args args s;
     if empty then printf ''Usage: cat <file>\<newline>'' [] s
     else do {
       file \<leftarrow> fs_find_child (mem s) (current_dir s) args;
       if file \<noteq> 0 \<and> node_type (mem s) file = type_code FS_FILE
       then printf ''%s\<newline>'' [load32 (mem s) (data_at file)] s
       else printf ''cat: No such file '%s'\<newline>'' [args] s
     }
   }"

definition cmd_touch :: "u32 \<Rightarrow> 'a shell_scheme \<Rightarrow> 'a shell_scheme option" where
  "cmd_touch args s = do {
     let s = enter_dir s;
     empty \<leftarrow> no_args args s;
     if empty then printf ''Usage: touch <filename>\<newline>'' [] s
     else do {
       (file, s) \<leftarrow> fs_create_node args FS_FILE s;
       if file \<noteq> 0 then do {
         let s = s\<lparr>mem := store32 (mem s) (size_at file) 256\<rparr>;
         (data, s) \<leftarrow> kmalloc (load32 (mem s) (size_at file)) s;
         let s = s\<lparr>mem := store32 (mem s) (data_at file) data\<rparr>;
         let s = s\<lparr>mem := memset (mem s) (load32 (mem s) (data_at file)) 0 (load32 (mem s) (size_at file))\<rparr>;
         s \<leftarrow> fs_add_child (current_dir s) file s;
         printf ''File '%s' created.\<newline>'' [args] s
       } else Some s
     }
   }"

definition cmd_mkdir :: "u32 \<Rightarrow> 'a shell_scheme \<Rightarrow> 'a shell_scheme option" where
  "cmd_mkdir args s = do {
     let s = enter_dir s;
     empty \<leftarrow> no_args args s;
     if empty then printf ''Usage: mkdir <dirname>\<newline>'' [] s
     else do {
       (dir, s) \<leftarrow> fs_create_node args FS_DIRECTORY s;
       if dir \<noteq> 0 then do {
         s \<leftarrow> fs_add_child (current_dir s) dir s;
         printf ''Directory '%s' created.\<newline>'' [args] s
       } else Some s
     }
   }"

definition cmd_uptime :: "u32 \<Rightarrow> 'a shell_scheme \<Rightarrow> 'a shell_scheme option" where
  "cmd_uptime args s = printf ''Uptime: %u ms\<newline>'' [get_ticks s] s"

definition cmd_rm :: "u32 \<Rightarrow> 'a shell_scheme \<Rightarrow> 'a shell_scheme option" where
  "cmd_rm args s = do {
     let s = enter_dir s;
     empty \<leftarrow> no_args args s;
     if empty then printf ''Usage: rm <filename>\<newline>'' [] s
     else do {
       file \<leftarrow> fs_find_child (mem s) (current_dir s) args;
       if file \<noteq> 0 \<and> node_type (mem s) file = type_code FS_FILE then do {
         m \<leftarrow> fs_remove_child (current_dir s) file (mem s);
         printf ''File '%s' removed.\<newline>'' [args] (s\<lparr>mem := m\<rparr>)
       } else printf ''rm: No such file '%s'\<newline>'' [args] s
     }
   }"

definition cmd_rmdir :: "u32 \<Rightarrow> 'a shell_scheme \<Rightarrow> 'a shell_scheme option" where
  "cmd_rmdir args s = do {
     let s = enter_dir s;
     empty \<leftarrow> no_args args s;
     if empty then printf ''Usage: rmdir <dirname>\<newline>'' [] s
     else do {
       dir \<leftarrow> fs_find_child (mem s) (current_dir s) args;
       if dir \<noteq> 0 \<and> node_type (mem s) dir = type_code FS_DIRECTORY then do {
         m \<leftarrow> fs_remove_child (current_dir s) dir (mem s);
         printf ''Directory '%s' removed.\<newline>'' [args] (s\<lparr>mem := m\<rparr>)
       } else printf ''rmdir: No such directory '%s'\<newline>'' [args] s
     }
   }"

fun help_loop :: "shell_command list \<Rightarrow> 'a shell_scheme \<Rightarrow> 'a shell_scheme option" where
  "help_loop [] s = Some s"
| "help_loop (c # cs) s = do {
     s \<leftarrow> (if command_func c \<noteq> None
           then printf ''  %s: %s\<newline>'' [command_name c, command_description c] s else Some s);
     help_loop cs s
   }"

definition cmd_help :: "u32 \<Rightarrow> 'a shell_scheme \<Rightarrow> 'a shell_scheme option" where
  "cmd_help args s = do {
     s \<leftarrow> printf ''Available commands:\<newline>'' [] s;
     help_loop (commands s) s
   }"

fun run_command :: "command \<Rightarrow> u32 \<Rightarrow> 'a shell_scheme \<Rightarrow> 'a shell_scheme option" where
  "run_command Cmd_help args s = cmd_help args s"
| "run_command Cmd_ls args s = cmd_ls args s"
| "run_command Cmd_cd args s = cmd_cd args s"
| "run_command Cmd_cat args s = cmd_cat args s"
| "run_command Cmd_touch args s = cmd_touch args s"
| "run_command Cmd_mkdir args s = cmd_mkdir args s"
| "run_command Cmd_rm args s = cmd_rm args s"
| "run_command Cmd_rmdir args s = cmd_rmdir args s"
| "run_command Cmd_uptime args s = cmd_uptime args s"

section \<open>The line editor\<close>

text \<open>The search of the table; the call of a null function is \<open>NullCall\<close>.\<close>

fun dispatch :: "shell_command list \<Rightarrow> u32 \<Rightarrow> u32 \<Rightarrow> 'a shell_scheme \<Rightarrow> (fault + 'a shell_scheme) option" where
  "dispatch [] cmd args s = fret (printf ''Command not found: %s\<newline>'' [cmd] s)"
| "dispatch (c # cs) cmd args s = do {
     r \<leftarrow> strcmp (mem s) cmd (command_name c);
     if r = 0 then
       (case command_func c of None \<Rightarrow> Some (Inl NullCall) | Some f \<Rightarrow> fret (run_command f args s))
     else dispatch cs cmd args s
   }"

definition shell_process_command :: "u32 \<Rightarrow> 'a shell_scheme \<Rightarrow> (fault + 'a shell_scheme) option" where
  "shell_process_command cmd s = do {
     (cmd, m, last) \<leftarrow> strtok (mem s) (strtok_last s) cmd (lit s '' '');
     (args, m, last) \<leftarrow> strtok m last 0 (lit s '' '');
     let s = s\<lparr>mem := m, strtok_last := last\<rparr>;
     dispatch (commands s) cmd args s
   }"

text \<open>Both erasing branches of \<open>shell_handle_key\<close>.\<close>

definition erase_key :: "'a shell_scheme \<Rightarrow> 'a shell_scheme option" where
  "erase_key s =
     (if 0 < shell_index s
      then printf [CHR 0x08, CHR '' '', CHR 0x08] [] (s\<lparr>shell_index := shell_index s - 1\<rparr>)
      else Some s)"

definition shell_handle_key :: "keyboard_event \<Rightarrow> 'a shell_scheme \<Rightarrow> (fault + 'a shell_scheme) option" where
  "shell_handle_key ke s =
     (if \<not> input_enabled s then Some (Inr s)
      else if scancode ke = 8 \<or> scancode ke = 127 then fret (erase_key s)
      else if scancode ke = 10 \<or> scancode ke = 13 \<or> enter ke then
        fbind (fret (printf ''\<newline>'' [] (s\<lparr>mem := (mem s)(shell_buffer s + shell_index s := 0)\<rparr>))) (\<lambda>s.
        fbind (shell_process_command (shell_buffer s) s) (\<lambda>s.
        fret (printf ''nutshell> '' [] (s\<lparr>shell_index := 0\<rparr>))))
      else if backspace ke then fret (erase_key s)
      else
        let c = kb_to_ascii ke s in
        if c \<noteq> 0 \<and> shell_index s < SHELL_BUFFER_SIZE - 1
        then fret (printf ''%c'' [char_int c]
               (s\<lparr>mem := (mem s)(shell_buffer s + shell_index s := c), shell_index := shell_index s + 1\<rparr>))
        else Some (Inr s))"

definition shell_init :: "'a machine_scheme \<Rightarrow> 'a machine_scheme option" where
  "shell_init s = do {
     s \<leftarrow> printf ''Welcome to nutshell!\<newline>'' [] s;
     printf ''nutshell> '' [] s
   }"

end
