(* ===== verification/Shell_Files.thy ===== *)
theory Shell_Files
  imports Fs_Data Shell
begin

text \<open>
  The file commands of the shell (\<open>src/kernel/shell.cpp\<close>) over a represented file system: what
  \<open>touch\<close>, \<open>mkdir\<close>, \<open>rm\<close>, \<open>rmdir\<close>, \<open>cd\<close> and \<open>ls\<close> do to the entries of the working directory, and
  what they print.
\<close>

section \<open>The state\<close>

text \<open>
  \<open>fs_state bs fs d s\<close>: the heap is \<open>bs\<close>, the nodes in it are the store \<open>fs\<close>, in which every directory
  has its array, and \<open>d\<close> is the directory that the commands work in.
\<close>

definition work_dir :: "'a shell_scheme \<Rightarrow> u32" where
  "work_dir s = (if current_dir s = 0 then root s else current_dir s)"

definition arrays_ok :: "store \<Rightarrow> bool" where
  "arrays_ok fs \<longleftrightarrow> (\<forall>a nm par arr kids. fs a = Some (Dir nm par arr kids) \<longrightarrow> arr \<noteq> 0)"

definition fs_state :: "block list \<Rightarrow> store \<Rightarrow> u32 \<Rightarrow> 'a shell_scheme \<Rightarrow> bool" where
  "fs_state bs fs d s \<longleftrightarrow> heap_rep s bs \<and> store_rep (heap_live bs) (mem s) fs \<and> store_ok fs \<and> arrays_ok fs \<and>
     work_dir s = d \<and> (\<exists>nd. fs d = Some nd \<and> type_of nd = FS_DIRECTORY)"

text \<open>What \<open>ls\<close> shows: names and types of the children, in order.\<close>

type_synonym entry = "u8 list \<times> fs_node_type"

definition entry_of :: "store \<Rightarrow> u32 \<Rightarrow> entry" where
  "entry_of fs c = (case fs c of None \<Rightarrow> ([], FS_FILE) | Some nd \<Rightarrow> (name_of nd, type_of nd))"

definition entries :: "store \<Rightarrow> u32 \<Rightarrow> entry list" where
  "entries fs d = (case fs d of None \<Rightarrow> [] | Some nd \<Rightarrow> map (entry_of fs) (kids_of nd))"

text \<open>An argument: a nonempty string outside the heap.\<close>

definition arg_at :: "ram \<Rightarrow> u32 \<Rightarrow> u8 list \<Rightarrow> bool" where
  "arg_at m p nm \<longleftrightarrow> p \<noteq> 0 \<and> nm \<noteq> [] \<and> length nm < 256 \<and> cstring m p nm \<and> (\<forall>j \<le> length nm. p + of_nat j \<notin> heap_area)"

lemma arg_keep:
  assumes "arg_at m p nm" "\<And>x. x \<notin> heap_area \<Longrightarrow> m' x = m x"
  shows "arg_at m' p nm"
  using assms by (auto simp: arg_at_def cstring_iff)

lemma no_args_arg:
  assumes "arg_at (mem s) p nm"
  shows "no_args p s = Some False"
proof -
  have "unat (of_nat (length nm) :: u32) = length nm" "length nm \<noteq> 0" "p \<noteq> 0" "cstring (mem s) p nm"
    using assms by (simp_all add: arg_at_def unat_of_nat_u32)
  moreover from this(1,2) have "(of_nat (length nm) :: u32) \<noteq> 0" by (metis unat_0)
  ultimately show ?thesis by (simp add: no_args_def strlen_cstring)
qed

lemma work_dir_enter [simp]:
  "current_dir (enter_dir s) = work_dir s" "mem (enter_dir s) = mem s" "heap_rep (enter_dir s) bs = heap_rep s bs"
  "root (enter_dir s) = root s" "con (enter_dir s) = con s" "sym (enter_dir s) = sym s" "lit (enter_dir s) = lit s"
  by (simp_all add: enter_dir_def work_dir_def fs_get_root_def heap_rep_def)

lemma fs_state_dir:
  assumes "fs_state bs fs d s"
  obtains dn par arr kids where "fs d = Some (Dir dn par arr kids)" "arr \<noteq> 0" "d \<noteq> 0"
    "entries fs d = map (entry_of fs) kids" "length kids \<le> MAX_CHILDREN"
proof -
  obtain nd where nd: "fs d = Some nd" "type_of nd = FS_DIRECTORY" using assms by (auto simp: fs_state_def)
  then obtain dn par arr kids where k: "fs d = Some (Dir dn par arr kids)" using type_of_dir by metis
  have L: "blocks (heap_live bs)" "store_rep (heap_live bs) (mem s) fs" using assms blocks_heap by (auto simp: fs_state_def)
  have "arr \<noteq> 0" using assms k unfolding fs_state_def arrays_ok_def by blast
  then show thesis
    using that [OF k] k dir_facts(1,4) [OF L k] by (simp add: entries_def)
qed

text \<open>Only memory and console change in what follows.\<close>

lemma fs_stateI:
  assumes "heap_rep (heap_after s out m) bs" "store_rep (heap_live bs) m fs" "store_ok fs" "arrays_ok fs"
    "work_dir s = d" "fs d = Some nd" "type_of nd = FS_DIRECTORY"
  shows "fs_state bs fs d (heap_after s out m)"
  using assms by (auto simp: fs_state_def work_dir_def heap_after_def)

lemma work_dir_after [simp]: "work_dir (heap_after s out m) = work_dir s"
  by (simp add: work_dir_def heap_after_def)

lemma work_dir_twice: "work_dir s \<noteq> 0 \<Longrightarrow> work_dir (enter_dir s) = work_dir s"
  by (simp add: work_dir_def enter_dir_def fs_get_root_def)

text \<open>The message of a command with its argument.\<close>

lemma reply:
  assumes "CHR ''%'' \<notin> set f" "CHR ''%'' \<notin> set g" "cstring m p nm"
  shows "printf (f @ ''%s'' @ g) [p] (heap_after s out m) =
    Some (heap_after s (out @ bytes_of f @ nm @ bytes_of g) m)"
  using printf_s [OF assms(1,2), of "heap_after s out m" p nm] assms(3)
  by (simp add: heap_after_def term_write_append)

lemma reply_now:
  assumes "CHR ''%'' \<notin> set f" "CHR ''%'' \<notin> set g" "cstring (mem s) p nm"
  shows "printf (f @ ''%s'' @ g) [p] s = Some (heap_after s (bytes_of f @ nm @ bytes_of g) (mem s))"
  using printf_s [OF assms] by (simp add: heap_after_def)

section \<open>Creating entries\<close>

lemma entries_cong:
  assumes "fs d = Some (Dir dn par arr kids)" "fs' d = Some (Dir dn' par' arr' kids')"
    "\<And>c. c \<in> set kids \<Longrightarrow> map_option (\<lambda>nd. (name_of nd, type_of nd)) (fs' c) = map_option (\<lambda>nd. (name_of nd, type_of nd)) (fs c)"
    "kids' = kids @ cs"
  shows "entries fs' d = entries fs d @ map (entry_of fs') cs"
proof -
  have "entry_of fs' c = entry_of fs c" if "c \<in> set kids" for c
    using assms(3) [OF that] by (auto simp: entry_of_def split: option.splits)
  then show ?thesis using assms(1,2,4) by (simp add: entries_def)
qed

lemma name_set_parent [simp]: "name_of (set_parent p nd) = name_of nd" "type_of (set_parent p nd) = type_of nd"
  by (cases nd; simp)+

lemma arrays_okD: "arrays_ok fs \<Longrightarrow> fs a = Some (Dir nm par arr kids) \<Longrightarrow> arr \<noteq> 0"
  unfolding arrays_ok_def by blast

lemma arrays_ok_upd:
  assumes "arrays_ok fs" "\<And>nm par arr kids. nd = Dir nm par arr kids \<Longrightarrow> arr \<noteq> 0"
  shows "arrays_ok (fs(a \<mapsto> nd))"
  unfolding arrays_ok_def
proof (intro allI impI)
  fix b nm par arr kids
  assume b: "(fs(a \<mapsto> nd)) b = Some (Dir nm par arr kids)"
  show "arr \<noteq> 0"
    using b assms(2) arrays_okD [OF assms(1), of b] by (cases "b = a") simp_all
qed

lemma add_entry:
  assumes rep: "heap_rep (heap_after s o1 m) bs" and st: "store_rep (heap_live bs) m (fs(p \<mapsto> nc))"
    and ok: "store_ok fs" "arrays_ok (fs(p \<mapsto> nc))" and p: "p \<notin> dom fs" "kids_of nc = []"
    and d: "fs d = Some (Dir dn par arr kids)" and len: "length kids \<le> MAX_CHILDREN"
  obtains o2 m2 fs2 nd2 where "fs_add_child d p (heap_after s o1 m) = Some (heap_after s (o1 @ o2) m2)"
    "heap_rep (heap_after s (o1 @ o2) m2) bs" "store_rep (heap_live bs) m2 fs2" "store_ok fs2" "arrays_ok fs2"
    "\<And>x. x \<notin> heap_area \<Longrightarrow> m2 x = m x" "fs2 d = Some nd2" "type_of nd2 = FS_DIRECTORY"
    "entries fs2 d = (if length (entries fs d) < MAX_CHILDREN then entries fs d @ [(name_of nc, type_of nc)] else entries fs d)"
    "length kids < MAX_CHILDREN \<Longrightarrow> m2 = link_child d p m \<and> fs2 p = Some (set_parent d nc) \<and>
      fs2 d = Some (Dir dn par arr (kids @ [p]))"
proof -
  let ?fs = "fs(p \<mapsto> nc)"
  have L: "blocks (heap_live bs)" by (rule blocks_heap [OF rep])
  have pd: "p \<noteq> d" using p(1) d by auto
  then have d1: "?fs d = Some (Dir dn par arr kids)" using d by simp
  have arr: "arr \<noteq> 0" using ok(2) d1 unfolding arrays_ok_def by blast
  have old: "entries ?fs d = entries fs d"
  proof -
    have "p \<notin> set kids" using store_ok_kid [OF ok(1) d, of p] p(1) by auto
    then have "map_option (\<lambda>nd. (name_of nd, type_of nd)) (?fs c) = map_option (\<lambda>nd. (name_of nd, type_of nd)) (fs c)"
      if "c \<in> set kids" for c
      using that by auto
    from entries_cong [of fs d dn par arr kids ?fs, OF d d1 this, of "[]"] show ?thesis by simp
  qed
  have lenE: "length (entries fs d) = length kids" by (simp add: entries_def d)
  have st': "store_rep (heap_live bs) (mem (heap_after s o1 m)) ?fs" using st by simp
  note add = fs_add_child_rep [OF L st' d1, of p]
  show thesis
  proof (cases "length kids < MAX_CHILDREN")
    case True
    let ?m = "link_child d p m" and ?fs2 = "fs(p \<mapsto> nc, d \<mapsto> Dir dn par arr (kids @ [p]), p \<mapsto> set_parent d nc)"
    have pp: "?fs p = Some nc" by simp
    note lk = link_child_rep [OF L st d1 pp pd arr True]
    have ins: "inside ?fs {d, p} m ?m" unfolding inside_def using lk(2) by blast
    have fs2: "?fs2 = fs(d \<mapsto> Dir dn par arr (kids @ [p]), p \<mapsto> set_parent d nc)"
      using pd by (auto simp: fun_upd_twist)
    show thesis
    proof (rule that [of "[]" ?m ?fs2 "Dir dn par arr (kids @ [p])"])
      show "fs_add_child d p (heap_after s o1 m) = Some (heap_after s (o1 @ []) ?m)"
        using add(1) True st by simp
      show "heap_rep (heap_after s (o1 @ []) ?m) bs"
        using inside_heap(1) [OF rep, of ?fs "{d, p}" ?m] st ins by simp
      show "store_rep (heap_live bs) ?m ?fs2" by (rule lk(1))
      show "store_ok ?fs2" unfolding fs2 by (rule store_ok_link [OF ok(1) d p])
      have "arr' \<noteq> 0" if "set_parent d nc = Dir nm' par' arr' kids'" for nm' par' arr' kids'
        using that arrays_okD [OF ok(2), of p] by (cases nc) auto
      then show "arrays_ok ?fs2" using arr by (intro arrays_ok_upd ok(2)) simp_all
      show "?m x = m x" if "x \<notin> heap_area" for x
        using inside_heap(2) [OF rep, of ?fs "{d, p}" ?m] st ins that by simp
      show "?fs2 d = Some (Dir dn par arr (kids @ [p]))" using pd by simp
      have "entries ?fs2 d = entries ?fs d @ map (entry_of ?fs2) [p]"
        by (rule entries_cong [of ?fs d dn par arr kids ?fs2, OF d1]) (use pd d in auto)
      then show "entries ?fs2 d = (if length (entries fs d) < MAX_CHILDREN
          then entries fs d @ [(name_of nc, type_of nc)] else entries fs d)"
        using True by (simp add: old lenE entry_of_def)
    qed (use pd in simp_all)
  next
    case False
    then have full: "length kids = MAX_CHILDREN" using len by simp
    let ?o = "bytes_of ''Error: directory '' @ [39] @ dn @ [39] @ bytes_of '' is full.\<newline>''"
    show thesis
    proof (rule that [of ?o m ?fs "Dir dn par arr kids"])
      show "fs_add_child d p (heap_after s o1 m) = Some (heap_after s (o1 @ ?o) m)"
        using add(2) full st by (simp add: heap_after_def term_write_append)
      show "heap_rep (heap_after s (o1 @ ?o) m) bs"
        using rep by (simp add: heap_rep_def)
      show "store_ok ?fs" by (rule store_ok_new [OF ok(1) p])
      show "entries ?fs d = (if length (entries fs d) < MAX_CHILDREN
          then entries fs d @ [(name_of nc, type_of nc)] else entries fs d)"
        using full by (simp add: old lenE)
    qed (use st ok d1 False in auto)
  qed
qed

lemma heap_after_sel2 [simp]:
  "current_dir (heap_after s out m) = current_dir s" "root (heap_after s out m) = root s"
  by (simp_all add: heap_after_def)

lemma align_data: "unat (align16 256) = 256"
  by (simp add: unat_align16)

lemma space_less: "space y bs \<Longrightarrow> x \<le> y \<Longrightarrow> \<not> space x bs \<Longrightarrow> False"
  using space_mono by blast

lemma cmd_touch_rep:
  assumes S: "fs_state bs fs d s" and arg: "arg_at (mem s) p nm" and sp: "space (376 + x) bs" "16 \<le> x"
  obtains out m bs' fs' where "cmd_touch p s = Some (heap_after (enter_dir s)
      (out @ bytes_of ''File '' @ [39] @ nm @ [39] @ bytes_of '' created.\<newline>'') m)"
    "\<And>out. fs_state bs' fs' d (heap_after (enter_dir s) out m)" "space x bs'"
    "entries fs' d = (if length (entries fs d) < MAX_CHILDREN then entries fs d @ [(take 63 nm, FS_FILE)] else entries fs d)"
    "\<And>x. x \<notin> heap_area \<Longrightarrow> m x = mem s x"
proof -
  let ?e = "enter_dir s"
  obtain dn par arr kids where d: "fs d = Some (Dir dn par arr kids)" "arr \<noteq> 0" "d \<noteq> 0" "length kids \<le> MAX_CHILDREN"
    by (rule fs_state_dir [OF S])
  have s: "heap_rep ?e bs" "store_rep (heap_live bs) (mem ?e) fs" "store_ok fs" "arrays_ok fs" "current_dir ?e = d"
    "work_dir ?e = d"
    using S d(3) work_dir_twice [of s] by (auto simp: fs_state_def)
  have a: "cstring (mem ?e) p nm" "\<And>j. j \<le> length nm \<Longrightarrow> p + of_nat j \<notin> heap_area" "p \<noteq> 0"
    using arg by (simp_all add: arg_at_def)
  have na: "no_args p ?e = Some False" by (rule no_args_arg) (use arg in simp)
  show thesis
  proof (rule new_file [OF s(1,2) a(1,2), of 256])
    fix c o1 m1 q o2 m2 bs2
    assume cr: "fs_create_node p FS_FILE ?e = Some (c, heap_after ?e o1 m1)" and c0: "c = 0 \<Longrightarrow> \<not> space 96 bs"
      and al: "c \<noteq> 0 \<Longrightarrow> kmalloc 256 (heap_after ?e o1 (store32 m1 (size_at c) 256)) = Some (q, heap_after ?e o2 m2) \<and>
      load32 (store32 m1 (size_at c) 256) (size_at c) = 256 \<and> c \<notin> dom fs \<and>
      (q = 0 \<longrightarrow> \<not> space (108 + unat (align16 256)) bs) \<and> load32 (store32 m2 (data_at c) q) (size_at c) = 256 \<and>
      (\<forall>m3. (\<forall>x. m3 x \<noteq> store32 m2 (data_at c) q x \<longrightarrow> q \<noteq> 0 \<and> in_region x q (unat (256 :: u32))) \<longrightarrow>
        heap_rep (heap_after ?e o2 m3) bs2 \<and> keeps heap_area (heap_live bs) (mem ?e) m3 \<and>
        store_rep (heap_live bs2) m3 (fs(c \<mapsto> File (take 63 nm) 0 256 q)))"
      and sp2: "\<And>x. c \<noteq> 0 \<Longrightarrow> 16 \<le> x \<Longrightarrow> space (120 + unat (align16 256) + x) bs \<Longrightarrow> space x bs2"
      and fq: "q \<noteq> 0 \<Longrightarrow> fits q (unat (256 :: u32))"
    have c: "c \<noteq> 0" using c0 space_less [OF sp(1), of 96] by auto
    note al = al [OF c, unfolded align_data]
    have q: "q \<noteq> 0" using al space_less [OF sp(1), of 364] by auto
    let ?m3 = "memset (store32 m2 (data_at c) q) q 0 256"
    have "\<forall>x. ?m3 x \<noteq> store32 m2 (data_at c) q x \<longrightarrow> q \<noteq> 0 \<and> in_region x q (unat (256 :: u32))"
      using q fq [OF q] by (simp add: memset_apply)
    then have m3: "heap_rep (heap_after ?e o2 ?m3) bs2" "keeps heap_area (heap_live bs) (mem ?e) ?m3"
      "store_rep (heap_live bs2) ?m3 (fs(c \<mapsto> File (take 63 nm) 0 256 q))" "c \<notin> dom fs"
      using al by blast+
    have ar: "arrays_ok (fs(c \<mapsto> File (take 63 nm) 0 256 q))" by (rule arrays_ok_upd [OF s(4)]) simp
    show thesis
    proof (rule add_entry [OF m3(1,3) s(3) ar m3(4) _ d(1,4)])
      fix o3 m4 fs2 nd2
      assume add: "fs_add_child d c (heap_after ?e o2 ?m3) = Some (heap_after ?e (o2 @ o3) m4)"
        and st: "heap_rep (heap_after ?e (o2 @ o3) m4) bs2" "store_rep (heap_live bs2) m4 fs2" "store_ok fs2" "arrays_ok fs2"
        and keep: "\<And>x. x \<notin> heap_area \<Longrightarrow> m4 x = ?m3 x" and nd: "fs2 d = Some nd2" "type_of nd2 = FS_DIRECTORY"
        and en: "entries fs2 d = (if length (entries fs d) < MAX_CHILDREN
          then entries fs d @ [(name_of (File (take 63 nm) 0 256 q), type_of (File (take 63 nm) 0 256 q))] else entries fs d)"
      have out: "m4 x = mem s x" if "x \<notin> heap_area" for x
        using keep [OF that] m3(2) that by (simp add: keeps_def)
      have "arg_at m4 p nm" using arg_keep [OF arg out] .
      then have pr: "printf ''File '%s' created.\<newline>'' [p] (heap_after ?e (o2 @ o3) m4) =
          Some (heap_after ?e ((o2 @ o3) @ bytes_of ''File '' @ [39] @ nm @ [39] @ bytes_of '' created.\<newline>'') m4)"
        using reply [of "''File '' @ [CHR 39]" "CHR 39 # '' created.\<newline>''" m4 p nm ?e "o2 @ o3"]
        by (simp add: arg_at_def)
      show thesis
      proof (rule that [of "o2 @ o3" m4 bs2 fs2])
        show "cmd_touch p s = Some (heap_after ?e
            ((o2 @ o3) @ bytes_of ''File '' @ [39] @ nm @ [39] @ bytes_of '' created.\<newline>'') m4)"
          using cr c al add pr s(5) unfolding cmd_touch_def Let_def na by simp
        show "fs_state bs2 fs2 d (heap_after ?e out m4)" for out
          using st nd s(6) by (intro fs_stateI) (simp_all add: heap_rep_def)
        show "space x bs2" using sp2 [OF c sp(2)] sp(1) by (simp add: align_data)
      qed (use en out in simp_all)
    qed simp
  qed simp_all
qed

lemma cmd_mkdir_rep:
  assumes S: "fs_state bs fs d s" and arg: "arg_at (mem s) p nm" and sp: "space (248 + x) bs" "16 \<le> x"
  obtains out m bs' fs' where "cmd_mkdir p s = Some (heap_after (enter_dir s)
      (out @ bytes_of ''Directory '' @ [39] @ nm @ [39] @ bytes_of '' created.\<newline>'') m)"
    "\<And>out. fs_state bs' fs' d (heap_after (enter_dir s) out m)" "space x bs'"
    "entries fs' d = (if length (entries fs d) < MAX_CHILDREN then entries fs d @ [(take 63 nm, FS_DIRECTORY)] else entries fs d)"
    "\<And>x. x \<notin> heap_area \<Longrightarrow> m x = mem s x"
proof -
  let ?e = "enter_dir s"
  obtain dn par arr kids where d: "fs d = Some (Dir dn par arr kids)" "arr \<noteq> 0" "d \<noteq> 0" "length kids \<le> MAX_CHILDREN"
    by (rule fs_state_dir [OF S])
  have s: "heap_rep ?e bs" "store_rep (heap_live bs) (mem ?e) fs" "store_ok fs" "arrays_ok fs" "current_dir ?e = d"
    "work_dir ?e = d"
    using S d(3) work_dir_twice [of s] by (auto simp: fs_state_def)
  have a: "cstring (mem ?e) p nm" "\<And>j. j \<le> length nm \<Longrightarrow> p + of_nat j \<notin> heap_area" "p \<noteq> 0"
    using arg by (simp_all add: arg_at_def)
  have na: "no_args p ?e = Some False" by (rule no_args_arg) (use arg in simp)
  show thesis
  proof (rule fs_create_node_rep [OF s(1,2) a(1,2), of FS_DIRECTORY])
    fix c o1 m1 bs1 ar
    assume cr: "fs_create_node p FS_DIRECTORY ?e = Some (c, heap_after ?e o1 m1)" "heap_rep (heap_after ?e o1 m1) bs1"
      and keep1: "keeps heap_area (heap_live bs) (mem ?e) m1"
      and c0: "c = 0 \<Longrightarrow> store_rep (heap_live bs1) m1 fs \<and> \<not> space 96 bs"
      and c1: "c \<noteq> 0 \<Longrightarrow> c \<notin> dom fs \<and> store_rep (heap_live bs1) m1 (fs(c \<mapsto> fresh_node FS_DIRECTORY (take 63 nm) ar)) \<and>
        (FS_DIRECTORY = FS_DIRECTORY \<and> ar = 0 \<longrightarrow> \<not> space 236 bs)"
      and sp1: "\<And>x. 16 \<le> x \<Longrightarrow> space (248 + x) bs \<Longrightarrow> space x bs1"
    have c: "c \<noteq> 0" using c0 space_less [OF sp(1), of 96] by auto
    have ar0: "ar \<noteq> 0" using c1 [OF c] space_less [OF sp(1), of 236] by auto
    have st1: "store_rep (heap_live bs1) m1 (fs(c \<mapsto> Dir (take 63 nm) 0 ar []))" "c \<notin> dom fs"
      using c1 [OF c] by simp_all
    have ok1: "arrays_ok (fs(c \<mapsto> Dir (take 63 nm) 0 ar []))" by (rule arrays_ok_upd [OF s(4)]) (use ar0 in simp)
    show thesis
    proof (rule add_entry [OF cr(2) st1(1) s(3) ok1 st1(2) _ d(1,4)])
      fix o3 m4 fs2 nd2
      assume add: "fs_add_child d c (heap_after ?e o1 m1) = Some (heap_after ?e (o1 @ o3) m4)"
        and st: "heap_rep (heap_after ?e (o1 @ o3) m4) bs1" "store_rep (heap_live bs1) m4 fs2" "store_ok fs2" "arrays_ok fs2"
        and keep: "\<And>x. x \<notin> heap_area \<Longrightarrow> m4 x = m1 x" and nd: "fs2 d = Some nd2" "type_of nd2 = FS_DIRECTORY"
        and en: "entries fs2 d = (if length (entries fs d) < MAX_CHILDREN
          then entries fs d @ [(name_of (Dir (take 63 nm) 0 ar []), type_of (Dir (take 63 nm) 0 ar []))] else entries fs d)"
      have out: "m4 x = mem s x" if "x \<notin> heap_area" for x
        using keep [OF that] keep1 that by (simp add: keeps_def)
      have "arg_at m4 p nm" using arg_keep [OF arg out] .
      then have pr: "printf ''Directory '%s' created.\<newline>'' [p] (heap_after ?e (o1 @ o3) m4) =
          Some (heap_after ?e ((o1 @ o3) @ bytes_of ''Directory '' @ [39] @ nm @ [39] @ bytes_of '' created.\<newline>'') m4)"
        using reply [of "''Directory '' @ [CHR 39]" "CHR 39 # '' created.\<newline>''" m4 p nm ?e "o1 @ o3"]
        by (simp add: arg_at_def)
      show thesis
      proof (rule that [of "o1 @ o3" m4 bs1 fs2])
        show "cmd_mkdir p s = Some (heap_after ?e
            ((o1 @ o3) @ bytes_of ''Directory '' @ [39] @ nm @ [39] @ bytes_of '' created.\<newline>'') m4)"
          using cr(1) c add pr s(5) unfolding cmd_mkdir_def Let_def na by simp
        show "fs_state bs1 fs2 d (heap_after ?e out m4)" for out
          using st nd s(6) by (intro fs_stateI) (simp_all add: heap_rep_def)
        show "space x bs1" using sp1 [OF sp(2,1)] .
      qed (use en out in simp_all)
    qed simp
  qed
qed

section \<open>Removing entries\<close>

text \<open>The first entry with a name.\<close>

fun remove_named :: "u8 list \<Rightarrow> entry list \<Rightarrow> entry list" where
  "remove_named nm [] = []"
| "remove_named nm (e # es) = (if fst e = nm then es else e # remove_named nm es)"

lemma lookup_entries:
  assumes ok: "kids_ok fs" and d: "fs d = Some (Dir dn par arr kids)" and nz: "\<And>c. c \<in> set kids \<Longrightarrow> c \<noteq> 0"
  shows "map_of (entries fs d) nm = map_option type_of (if lookup fs kids nm = 0 then None else fs (lookup fs kids nm))"
    and "lookup fs kids nm \<noteq> 0 \<Longrightarrow> lookup fs kids nm \<in> set kids \<and>
      map (entry_of fs) (remove1 (lookup fs kids nm) kids) = remove_named nm (entries fs d)"
proof -
  have kid: "\<exists>nd. fs c = Some nd" if "c \<in> set kids" for c using kids_okD(2) [OF ok d that] by blast
  have "map_of (map (entry_of fs) ks) nm =
      map_option type_of (if lookup fs ks nm = 0 then None else fs (lookup fs ks nm)) \<and>
    (lookup fs ks nm \<noteq> 0 \<longrightarrow> lookup fs ks nm \<in> set ks \<and>
      map (entry_of fs) (remove1 (lookup fs ks nm) ks) = remove_named nm (map (entry_of fs) ks))"
    if "set ks \<subseteq> set kids" for ks
    using that
  proof (induction ks)
    case Nil
    then show ?case by (simp add: lookup_def)
  next
    case (Cons c ks)
    obtain nd where nd: "fs c = Some nd" using kid Cons.prems by auto
    have c0: "c \<noteq> 0" using nz Cons.prems by auto
    have l: "lookup fs (c # ks) nm = (if name_of nd = nm then c else lookup fs ks nm)"
      by (simp add: lookup_def nd)
    show ?case
    proof (cases "name_of nd = nm")
      case True
      then show ?thesis using nd c0 l by (simp add: entry_of_def)
    next
      case False
      have "c \<noteq> lookup fs ks nm \<or> lookup fs ks nm = 0"
        using False nd unfolding lookup_def by (auto split: option.splits simp: find_Some_iff)
      then show ?thesis using Cons False nd l by (auto simp: entry_of_def)
    qed
  qed
  from this [of kids] show "map_of (entries fs d) nm = map_option type_of (if lookup fs kids nm = 0 then None else fs (lookup fs kids nm))"
    "lookup fs kids nm \<noteq> 0 \<Longrightarrow> lookup fs kids nm \<in> set kids \<and>
      map (entry_of fs) (remove1 (lookup fs kids nm) kids) = remove_named nm (entries fs d)"
    by (simp_all add: entries_def d)
qed

lemma entries_detach:
  assumes ok: "store_ok fs" and d: "fs d = Some (Dir dn par arr kids)" and c: "c \<in> set kids"
  shows "entries (detach fs d c) d = map (entry_of fs) (remove1 c kids)"
proof -
  have k: "kids_ok fs" using ok by (simp add: store_ok_def)
  note dt = store_ok_detach [OF ok d c]
  have "entry_of (detach fs d c) x = entry_of fs x" if x: "x \<in> set (remove1 c kids)" for x
  proof -
    have xk: "x \<in> set kids" "x \<noteq> c"
      using x kids_okD(1) [OF k d] set_remove1_subset [of c kids] by auto
    have "\<exists>nd. detach fs d c x = Some nd" using kids_okD(2) [of "detach fs d c", OF _ dt(3) x] dt(1) by (auto simp: store_ok_def)
    moreover have "name_of (without c nd) = name_of nd" "type_of (without c nd) = type_of nd" for nd
      by (cases nd; simp)+
    ultimately show ?thesis by (auto simp: entry_of_def detach_def split: if_splits)
  qed
  then show ?thesis by (simp add: entries_def dt(3))
qed

lemma arrays_ok_detach: "arrays_ok fs \<Longrightarrow> fs d = Some (Dir dn par arr kids) \<Longrightarrow> arrays_ok (detach fs d c)"
  by (subst arrays_ok_def) (auto simp: detach_def dest: arrays_okD split: if_splits)

text \<open>The search that the commands make, and the removal of what it finds.\<close>

lemma find_entry:
  assumes S: "fs_state bs fs d s" and arg: "arg_at (mem s) p nm"
  obtains c where "fs_find_child (mem s) d p = Some c"
    "map_of (entries fs d) nm = map_option type_of (if c = 0 then None else fs c)"
    "c \<noteq> 0 \<Longrightarrow> node_type (mem s) c = type_code (type_of (the (fs c))) \<and> fs c \<noteq> None"
    "c \<noteq> 0 \<Longrightarrow> \<exists>m fs'. fs_remove_child d c (mem s) = Some m \<and>
      (\<forall>out. fs_state bs fs' d (heap_after (enter_dir s) out m)) \<and>
      entries fs' d = remove_named nm (entries fs d) \<and> (\<forall>x. x \<notin> heap_area \<longrightarrow> m x = mem s x)"
proof -
  obtain dn par arr kids where d: "fs d = Some (Dir dn par arr kids)" "arr \<noteq> 0" "d \<noteq> 0" "length kids \<le> MAX_CHILDREN"
    by (rule fs_state_dir [OF S])
  have s: "heap_rep s bs" "store_rep (heap_live bs) (mem s) fs" "store_ok fs" "arrays_ok fs" "kids_ok fs"
    "work_dir (enter_dir s) = d"
    using S d(3) work_dir_twice [of s] by (auto simp: fs_state_def store_ok_def)
  have L: "blocks (heap_live bs)" by (rule blocks_heap [OF s(1)])
  have own: "owned (heap_live bs) fs" using s(2) by (simp add: store_rep_def)
  have nz: "\<And>c. c \<in> set kids \<Longrightarrow> c \<noteq> 0"
    using kids_okD(2) [OF s(5) d(1)] node_fits [OF L own] by blast
  have lk: "map_of (entries fs d) nm = map_option type_of (if lookup fs kids nm = 0 then None else fs (lookup fs kids nm))"
    "lookup fs kids nm \<noteq> 0 \<Longrightarrow> lookup fs kids nm \<in> set kids \<and>
      map (entry_of fs) (remove1 (lookup fs kids nm) kids) = remove_named nm (entries fs d)"
    using lookup_entries [OF s(5) d(1), of nm] nz by blast+
  let ?c = "lookup fs kids nm"
  show thesis
  proof (rule that [of ?c])
    show "fs_find_child (mem s) d p = Some ?c"
      using fs_find_child_rep [OF L s(2,5) d(1)] arg by (simp add: arg_at_def)
    show "map_of (entries fs d) nm = map_option type_of (if ?c = 0 then None else fs ?c)" by (rule lk(1))
    show "node_type (mem s) ?c = type_code (type_of (the (fs ?c))) \<and> fs ?c \<noteq> None" if "?c \<noteq> 0"
      using lk(2) [OF that] kids_okD(2) [OF s(5) d(1), of ?c] node_type_rep store_repD [OF s(2)] by fastforce
    show "\<exists>m fs'. fs_remove_child d ?c (mem s) = Some m \<and>
      (\<forall>out. fs_state bs fs' d (heap_after (enter_dir s) out m)) \<and>
      entries fs' d = remove_named nm (entries fs d) \<and> (\<forall>x. x \<notin> heap_area \<longrightarrow> m x = mem s x)" if c0: "?c \<noteq> 0"
    proof -
      have c: "?c \<in> set kids" using lk(2) [OF c0] by simp
      obtain m where m: "fs_remove_child d ?c (mem s) = Some m" "store_rep (heap_live bs) m (detach fs d ?c)"
        "inside fs (insert d {x. below fs ?c x}) (mem s) m"
        by (rule fs_remove_child_rep [OF L s(2,3) d(1) c])
      have "heap_rep (s\<lparr>mem := m\<rparr>) bs" by (rule inside_heap(1) [OF s(1,2) m(3)])
      then have "heap_rep (heap_after (enter_dir s) out m) bs" for out
        by (simp add: heap_rep_def enter_dir_def)
      then have "fs_state bs (detach fs d ?c) d (heap_after (enter_dir s) out m)" for out
        using m(2) store_ok_detach [OF s(3) d(1) c] arrays_ok_detach [OF s(4) d(1)] s(6)
        by (intro fs_stateI [where nd = "Dir dn par arr (remove1 ?c kids)"]) simp_all
      moreover have "entries (detach fs d ?c) d = remove_named nm (entries fs d)"
        using entries_detach [OF s(3) d(1) c] lk(2) [OF c0] by simp
      ultimately show ?thesis using m(1) inside_heap(2) [OF s(1,2) m(3)] by blast
    qed
  qed
qed

lemma heap_after_none [simp]: "heap_after s [] (mem s) = s"
  by (simp add: heap_after_def)

lemma fs_state_enter:
  assumes "fs_state bs fs d s"
  shows "fs_state bs fs d (heap_after (enter_dir s) out (mem s))"
proof -
  have "d \<noteq> 0" using fs_state_dir [OF assms] by metis
  then show ?thesis using assms work_dir_twice [of s] by (auto simp: fs_state_def heap_rep_def enter_dir_def)
qed

lemma with_mem: "(enter_dir s)\<lparr>mem := m\<rparr> = heap_after (enter_dir s) [] m"
  by (simp add: heap_after_def)

text \<open>What \<open>rm\<close> and \<open>rmdir\<close> do, by the type they ask for.\<close>

definition remove_entry :: "fs_node_type \<Rightarrow> u8 list \<Rightarrow> entry list \<Rightarrow> entry list" where
  "remove_entry ty nm es = (if map_of es nm = Some ty then remove_named nm es else es)"

text \<open>The common body of \<open>cmd_rm\<close> and \<open>cmd_rmdir\<close>, with the texts of the two messages.\<close>

lemma remove_body:
  assumes S: "fs_state bs fs d s" and arg: "arg_at (mem s) p nm"
    and plain: "CHR ''%'' \<notin> set f1 \<union> set g1 \<union> set f2 \<union> set g2"
  defines "e \<equiv> enter_dir s"
  obtains m fs' where "(do {
      file \<leftarrow> fs_find_child (mem e) (current_dir e) p;
      if file \<noteq> 0 \<and> node_type (mem e) file = type_code ty then do {
        m \<leftarrow> fs_remove_child (current_dir e) file (mem e);
        printf (f1 @ ''%s'' @ g1) [p] (e\<lparr>mem := m\<rparr>)
      } else printf (f2 @ ''%s'' @ g2) [p] e
    }) = Some (heap_after e (if map_of (entries fs d) nm = Some ty then bytes_of f1 @ nm @ bytes_of g1
       else bytes_of f2 @ nm @ bytes_of g2) m)"
    "\<And>out. fs_state bs fs' d (heap_after e out m)"
    "entries fs' d = remove_entry ty nm (entries fs d)" "\<And>x. x \<notin> heap_area \<Longrightarrow> m x = mem s x"
    "map_of (entries fs d) nm \<noteq> Some ty \<Longrightarrow> m = mem s"
proof -
  have e: "current_dir e = d" "mem e = mem s" using S by (simp_all add: fs_state_def e_def)
  show thesis
  proof (rule find_entry [OF S arg])
    fix c
    assume f: "fs_find_child (mem s) d p = Some c"
      "map_of (entries fs d) nm = map_option type_of (if c = 0 then None else fs c)"
      "c \<noteq> 0 \<Longrightarrow> node_type (mem s) c = type_code (type_of (the (fs c))) \<and> fs c \<noteq> None"
      and rm: "c \<noteq> 0 \<Longrightarrow> \<exists>m fs'. fs_remove_child d c (mem s) = Some m \<and>
        (\<forall>out. fs_state bs fs' d (heap_after (enter_dir s) out m)) \<and>
        entries fs' d = remove_named nm (entries fs d) \<and> (\<forall>x. x \<notin> heap_area \<longrightarrow> m x = mem s x)"
    have hit: "c \<noteq> 0 \<and> node_type (mem s) c = type_code ty \<longleftrightarrow> map_of (entries fs d) nm = Some ty"
      using f(2,3) by (cases "c = 0") auto
    show thesis
    proof (cases "map_of (entries fs d) nm = Some ty")
      case True
      with hit have c0: "c \<noteq> 0" by simp
      obtain m fs' where m: "fs_remove_child d c (mem s) = Some m" "\<forall>out. fs_state bs fs' d (heap_after (enter_dir s) out m)"
        "entries fs' d = remove_named nm (entries fs d)" "\<forall>x. x \<notin> heap_area \<longrightarrow> m x = mem s x"
        using rm [OF c0] by blast
      have "arg_at m p nm" by (rule arg_keep [OF arg]) (use m(4) in blast)
      then have "printf (f1 @ ''%s'' @ g1) [p] (e\<lparr>mem := m\<rparr>) = Some (heap_after e (bytes_of f1 @ nm @ bytes_of g1) m)"
        using reply [of f1 g1 m p nm e "[]"] plain by (simp add: arg_at_def e_def with_mem)
      then show thesis
        using True hit f(1) m e by (intro that [of m fs']) (simp_all add: remove_entry_def e_def)
    next
      case False
      have "printf (f2 @ ''%s'' @ g2) [p] e = Some (heap_after e (bytes_of f2 @ nm @ bytes_of g2) (mem s))"
        using reply_now [of f2 g2 e p nm] arg plain e(2) by (simp add: arg_at_def)
      then show thesis
        using False hit f(1) e fs_state_enter [OF S] by (intro that [of "mem s" fs]) (auto simp: remove_entry_def e_def)
    qed
  qed
qed

lemma cmd_rm_rep:
  assumes S: "fs_state bs fs d s" and arg: "arg_at (mem s) p nm"
  obtains m fs' where "cmd_rm p s = Some (heap_after (enter_dir s)
      (if map_of (entries fs d) nm = Some FS_FILE then bytes_of ''File '' @ [39] @ nm @ [39] @ bytes_of '' removed.\<newline>''
       else bytes_of ''rm: No such file '' @ [39] @ nm @ [39] @ bytes_of ''\<newline>'') m)"
    "\<And>out. fs_state bs fs' d (heap_after (enter_dir s) out m)"
    "entries fs' d = remove_entry FS_FILE nm (entries fs d)" "\<And>x. x \<notin> heap_area \<Longrightarrow> m x = mem s x"
    "map_of (entries fs d) nm \<noteq> Some FS_FILE \<Longrightarrow> m = mem s"
proof -
  have na: "no_args p (enter_dir s) = Some False" by (rule no_args_arg) (use arg in simp)
  show thesis
    by (rule remove_body [OF S arg, of "''File '' @ [CHR 39]" "CHR 39 # '' removed.\<newline>''"
        "''rm: No such file '' @ [CHR 39]" "CHR 39 # ''\<newline>''" FS_FILE])
      (simp, rule that, simp add: cmd_rm_def Let_def na cong: if_cong, assumption+)
qed

lemma cmd_rmdir_rep:
  assumes S: "fs_state bs fs d s" and arg: "arg_at (mem s) p nm"
  obtains m fs' where "cmd_rmdir p s = Some (heap_after (enter_dir s)
      (if map_of (entries fs d) nm = Some FS_DIRECTORY then bytes_of ''Directory '' @ [39] @ nm @ [39] @ bytes_of '' removed.\<newline>''
       else bytes_of ''rmdir: No such directory '' @ [39] @ nm @ [39] @ bytes_of ''\<newline>'') m)"
    "\<And>out. fs_state bs fs' d (heap_after (enter_dir s) out m)"
    "entries fs' d = remove_entry FS_DIRECTORY nm (entries fs d)" "\<And>x. x \<notin> heap_area \<Longrightarrow> m x = mem s x"
    "map_of (entries fs d) nm \<noteq> Some FS_DIRECTORY \<Longrightarrow> m = mem s"
proof -
  have na: "no_args p (enter_dir s) = Some False" by (rule no_args_arg) (use arg in simp)
  show thesis
    by (rule remove_body [OF S arg, of "''Directory '' @ [CHR 39]" "CHR 39 # '' removed.\<newline>''"
        "''rmdir: No such directory '' @ [CHR 39]" "CHR 39 # ''\<newline>''" FS_DIRECTORY])
      (simp, rule that, simp add: cmd_rmdir_def Let_def na cong: if_cong, assumption+)
qed

section \<open>Listing and moving\<close>

fun render_entry :: "entry \<Rightarrow> u8 list" where
  "render_entry (nm, FS_FILE) = nm @ bytes_of ''  ''"
| "render_entry (nm, FS_DIRECTORY) = nm @ bytes_of ''/  ''"

lemma ls_loop_rep:
  assumes "blocks L" "store_rep L m fs" "kids_ok fs" "fs d = Some (Dir dn par arr kids)" "current_dir s = d"
  shows "(\<And>i. i \<in> set is \<Longrightarrow> i < length kids) \<Longrightarrow> ls_loop is (heap_after s out m) =
    Some (heap_after s (out @ concat (map (\<lambda>i. render_entry (entry_of fs (kids ! i))) is)) m)"
proof (induction "is" arbitrary: out)
  case Nil
  then show ?case by simp
next
  case (Cons i "is")
  have i: "i < length kids" using Cons.prems by simp
  have ca: "child_at m d (of_nat i) = kids ! i" by (rule child_at_rep [OF store_repD [OF assms(2,4)] i])
  obtain nd where nd: "fs (kids ! i) = Some nd" using kids_okD(2) [OF assms(3,4), of "kids ! i"] i by auto
  have name: "cstring m (kids ! i) (name_of nd)" and ty: "node_type m (kids ! i) = type_code (type_of nd)"
    using node_name_rep node_type_rep store_repD [OF assms(2) nd] by blast+
  have "(if node_type m (kids ! i) = type_code FS_FILE then printf ''%s  '' [kids ! i] (heap_after s out m)
      else printf ''%s/  '' [kids ! i] (heap_after s out m)) =
    Some (heap_after s (out @ render_entry (entry_of fs (kids ! i))) m)"
    using reply [of "[]" "''  ''" m "kids ! i" "name_of nd" s out] reply [of "[]" "''/  ''" m "kids ! i" "name_of nd" s out] name ty
    by (cases "type_of nd") (simp_all add: entry_of_def nd)
  then show ?case
    using Cons.IH [of "out @ render_entry (entry_of fs (kids ! i))"] Cons.prems ca assms(5)
    by (simp add: Let_def)
qed

lemma map_upt_nth: "map (\<lambda>i. g (f (xs ! i))) [0..<length xs] = map (g \<circ> f) xs"
  by (rule nth_equalityI) simp_all

lemma cmd_ls_rep:
  assumes S: "fs_state bs fs d s"
  shows "cmd_ls args s = Some (heap_after (enter_dir s)
    (concat (map render_entry (entries fs d)) @ bytes_of ''\<newline>'') (mem s))"
proof -
  let ?e = "enter_dir s"
  obtain dn par arr kids where d: "fs d = Some (Dir dn par arr kids)" "entries fs d = map (entry_of fs) kids"
    by (rule fs_state_dir [OF S])
  have s: "store_rep (heap_live bs) (mem s) fs" "kids_ok fs" "current_dir ?e = d" "blocks (heap_live bs)"
    using S by (auto simp: fs_state_def store_ok_def intro: blocks_heap)
  have len: "unat (child_count (mem s) d) = length kids" by (rule unat_child_count [OF store_repD [OF s(1) d(1)]])
  have "ls_loop [0..<length kids] (heap_after ?e [] (mem s)) =
      Some (heap_after ?e ([] @ concat (map (\<lambda>i. render_entry (entry_of fs (kids ! i))) [0..<length kids])) (mem s))"
    by (rule ls_loop_rep [OF s(4,1,2) d(1) s(3)]) simp
  moreover have "map (\<lambda>i. render_entry (entry_of fs (kids ! i))) [0..<length kids] = map render_entry (entries fs d)"
    unfolding d(2) map_map by (rule map_upt_nth)
  moreover have "heap_after ?e [] (mem s) = ?e" using heap_after_none [of ?e] by simp
  ultimately have "ls_loop [0..<length kids] ?e = Some (heap_after ?e (concat (map render_entry (entries fs d))) (mem s))"
    by simp
  moreover have "printf ''\<newline>'' [] (heap_after ?e out m) = Some (heap_after ?e (out @ bytes_of ''\<newline>'') m)" for out m
    using printf_plain [of "''\<newline>''" "[]" "heap_after ?e out m"] by (simp add: heap_after_def term_write_append)
  ultimately show ?thesis
    using s(3) len by (simp add: cmd_ls_def)
qed

lemma cmd_cd_rep:
  assumes S: "fs_state bs fs d s" and arg: "arg_at (mem s) p nm"
    and dots: "cstring (mem s) (lit s ''..'') (bytes_of ''..'')"
  shows "cmd_cd p s = Some (
    if nm = bytes_of ''..'' then
      if parent_of (the (fs d)) \<noteq> 0 then (enter_dir s)\<lparr>current_dir := parent_of (the (fs d))\<rparr>
      else heap_after (enter_dir s) (bytes_of ''Already at root.\<newline>'') (mem s)
    else if map_of (entries fs d) nm = Some FS_DIRECTORY
      then (enter_dir s)\<lparr>current_dir := lookup fs (kids_of (the (fs d))) nm\<rparr>
      else heap_after (enter_dir s) (bytes_of ''cd: No such directory '' @ [39] @ nm @ [39] @ bytes_of ''\<newline>'') (mem s))"
proof -
  let ?e = "enter_dir s"
  obtain dn par arr kids where d: "fs d = Some (Dir dn par arr kids)" "arr \<noteq> 0" "d \<noteq> 0" "length kids \<le> MAX_CHILDREN"
    by (rule fs_state_dir [OF S])
  have s: "store_rep (heap_live bs) (mem s) fs" "current_dir ?e = d" "blocks (heap_live bs)" "kids_ok fs"
    using S by (auto simp: fs_state_def store_ok_def intro: blocks_heap)
  have na: "no_args p ?e = Some False" by (rule no_args_arg) (use arg in simp)
  have p: "cstring (mem s) p nm" using arg by (simp add: arg_at_def)
  obtain r where r: "strcmp (mem s) p (lit s ''..'') = Some r" "r = 0 \<longleftrightarrow> nm = bytes_of ''..''"
    using strcmp_equal [OF p dots] strcmp_cstring [OF p dots] by auto
  have par: "load32 (mem s) (parent_at d) = par" using store_repD [OF s(1) d(1)] by (simp add: head_rep_def)
  show ?thesis
  proof (cases "nm = bytes_of ''..''")
    case True
    then show ?thesis
      using na r par d s(2) printf_plain [of "''Already at root.\<newline>''" "[]" ?e]
      by (simp add: cmd_cd_def heap_after_def)
  next
    case False
    show ?thesis
    proof (rule find_entry [OF S arg])
      fix c
      assume f: "fs_find_child (mem s) d p = Some c"
        "map_of (entries fs d) nm = map_option type_of (if c = 0 then None else fs c)"
        "c \<noteq> 0 \<Longrightarrow> node_type (mem s) c = type_code (type_of (the (fs c))) \<and> fs c \<noteq> None"
      have hit: "c \<noteq> 0 \<and> node_type (mem s) c = type_code FS_DIRECTORY \<longleftrightarrow> map_of (entries fs d) nm = Some FS_DIRECTORY"
        using f(2,3) type_code_inj [of _ FS_DIRECTORY] by (cases "c = 0") (auto simp del: type_code.simps)
      have c: "c = lookup fs kids nm"
        using f(1) fs_find_child_rep [OF s(3,1,4) d(1) p] by simp
      have pr: "printf ''cd: No such directory '%s'\<newline>'' [p] ?e =
          Some (heap_after ?e (bytes_of ''cd: No such directory '' @ [39] @ nm @ [39] @ bytes_of ''\<newline>'') (mem s))"
        using reply_now [of "''cd: No such directory '' @ [CHR 39]" "CHR 39 # ''\<newline>''" ?e p nm] p by simp
      show ?thesis
        using na r False s(2) f(1) hit c d(1) pr unfolding cmd_cd_def Let_def
        by (simp del: type_code.simps)
    qed
  qed
qed

end
