(* ===== verification/Keyboard.thy ===== *)
theory Keyboard
  imports Shell
begin

text \<open>
  The keyboard driver (the second half of \<open>src/kernel/keyboard.cpp\<close>): decoding an event, the
  handler of IRQ 1, and the dialogue with the controller on ports \<open>0x60\<close> and \<open>0x64\<close>. The waits
  are loops over what the device answers and may not end; a read is one entry of the log of port
  accesses.
\<close>

section \<open>Events\<close>

definition read_keyboard :: "'a keyboard_scheme \<Rightarrow> keyboard_event \<times> 'a keyboard_scheme" where
  "read_keyboard s =
     (let (code, s) = port_in 0x60 s;
          s = (if code = 0x2A \<or> code = 0x36 then s\<lparr>shift_pressed := True\<rparr>
               else if code = 0x2A OR 0x80 \<or> code = 0x36 OR 0x80 then s\<lparr>shift_pressed := False\<rparr>
               else s);
          shift_now = shift_pressed s;
          s = (if code = 0x3A then s\<lparr>caps_lock_active := \<not> caps_lock_active s\<rparr> else s)
      in (\<lparr>scancode = code, shift = shift_now, caps_lock = caps_lock_active s,
           released = (code AND 0x80 \<noteq> 0), enter = (code = 0x1C), backspace = (code = 0x0E)\<rparr>, s))"

definition keyboard_callback :: "registers \<Rightarrow> 'a shell_scheme \<Rightarrow> (fault + 'a shell_scheme) option" where
  "keyboard_callback regs s = (let (event, s) = read_keyboard s in shell_handle_key event s)"

section \<open>The controller\<close>

partial_function (option) wait_for_input_clear :: "'a machine_scheme \<Rightarrow> 'a machine_scheme option" where
  "wait_for_input_clear s =
     (let (status, s) = port_in 0x64 s in
      if status AND 2 \<noteq> 0 then wait_for_input_clear s else Some s)"

partial_function (option) keyboard_flush :: "'a machine_scheme \<Rightarrow> 'a machine_scheme option" where
  "keyboard_flush s =
     (let (status, s) = port_in 0x64 s in
      if status AND 1 \<noteq> 0 then keyboard_flush (snd (port_in 0x60 s)) else Some s)"

definition keyboard_reset :: "'a machine_scheme \<Rightarrow> 'a machine_scheme option" where
  "keyboard_reset s = do {
     s \<leftarrow> wait_for_input_clear s;
     let s = port_out 0x64 0xFF s;
     Some (snd (port_in 0x60 s))
   }"

text \<open>The loop that waits for the acknowledgement, with the number of turns left.\<close>

fun ack_loop :: "nat \<Rightarrow> 'a machine_scheme \<Rightarrow> (bool \<times> 'a machine_scheme) option" where
  "ack_loop 0 s = Some (False, s)"
| "ack_loop (Suc n) s =
     (let (status, s) = port_in 0x64 s in
      if status AND 1 \<noteq> 0 then
        let (response, s) = port_in 0x60 s in do {
          s \<leftarrow> printf ''Keyboard response: 0x%x\<newline>'' [ucast response] s;
          if response = 0xFA then Some (True, s) else ack_loop n s
        }
      else ack_loop n s)"

definition keyboard_enable :: "'a machine_scheme \<Rightarrow> 'a machine_scheme option" where
  "keyboard_enable s = do {
     s \<leftarrow> keyboard_reset s;
     s \<leftarrow> keyboard_flush s;
     s \<leftarrow> wait_for_input_clear s;
     let s = port_out 0x64 0xAE s;
     s \<leftarrow> wait_for_input_clear s;
     let s = port_out 0x60 0xF4 s;
     (acked, s) \<leftarrow> ack_loop 1000 s;
     if acked then Some s else printf ''Warning: No ACK received from keyboard\<newline>'' [] s
   }"

definition keyboard_install :: "'a isr_state_scheme \<Rightarrow> 'a isr_state_scheme option" where
  "keyboard_install s = do {
     s \<leftarrow> printf ''[KB] Enabling keyboard...'' [] s;
     s \<leftarrow> keyboard_enable s;
     let s = register_interrupt_handler 33 Keyboard_callback s;
     pic_unmask_irq 1 s
   }"

definition keyboard_check_status :: "'a machine_scheme \<Rightarrow> 'a machine_scheme option" where
  "keyboard_check_status s =
     (let (status, s) = port_in 0x64 s in
      if status AND 0x01 \<noteq> 0 then printf ''Output buffer has data!\<newline>'' [] s else Some s)"

text \<open>\<open>while (1)\<close>: no branch returns.\<close>

partial_function (option) keyboard_poll :: "'a keyboard_scheme \<Rightarrow> 'a keyboard_scheme option" where
  "keyboard_poll s =
     (let (status, s) = port_in 0x64 s in
      if status AND 0x01 \<noteq> 0 then keyboard_poll (snd (read_keyboard s)) else keyboard_poll s)"

end
