(* ===== verification/Kernel.thy ===== *)
theory Kernel
  imports Keyboard
begin

text \<open>
  The kernel as a whole (\<open>src/kernel/kernel.cpp\<close>): the boot sequence of \<open>kernel_main\<close> up to its idle
  loop, and the running system, which is that loop interrupted by the timer and the keyboard.
\<close>

section \<open>Boot\<close>

text \<open>The call \<open>handler(regs)\<close>, for the handlers that the kernel registers.\<close>

fun call_isr :: "isr_t \<Rightarrow> registers \<Rightarrow> 'a shell_scheme \<Rightarrow> (fault + 'a shell_scheme) option" where
  "call_isr Page_fault_handler regs s = page_fault_handler regs s"
| "call_isr Timer_handler regs s = Some (Inr (timer_handler regs s))"
| "call_isr Keyboard_callback regs s = keyboard_callback regs s"

text \<open>The part of \<open>kernel_main\<close> that creates the file \<open>README\<close>.\<close>

definition create_readme :: "'a ramfs_scheme \<Rightarrow> 'a ramfs_scheme option" where
  "create_readme s = do {
     let root_node = fs_get_root s;
     (readme, s) \<leftarrow> fs_create_node (lit s ''README'') FS_FILE s;
     if readme \<noteq> 0 then do {
       let s = s\<lparr>mem := store32 (mem s) (size_at readme) 128\<rparr>;
       (data, s) \<leftarrow> kmalloc (load32 (mem s) (size_at readme)) s;
       let s = s\<lparr>mem := store32 (mem s) (data_at readme) data\<rparr>;
       let s = (if load32 (mem s) (data_at readme) \<noteq> 0
                then s\<lparr>mem := strncpy (mem s) (load32 (mem s) (data_at readme))
                                (lit s ''Welcome to ContinuumOS!'') (load32 (mem s) (size_at readme))\<rparr>
                else s);
       fs_add_child root_node readme s
     } else Some s
   }"

text \<open>
  \<open>kernel_main\<close> up to \<open>while (1) hlt\<close>; a fault on the way (the division in \<open>init_timer\<close>) would end
  it.
\<close>

definition kernel_main :: "'a shell_scheme \<Rightarrow> (fault + 'a shell_scheme) option" where
  "kernel_main s =
     fbind (fret (do {
       let s = s\<lparr>con := term_initialize (con s)\<rparr>;
       s \<leftarrow> init_gdt s;
       s \<leftarrow> init_pic s;
       let s = init_idt s;
       s \<leftarrow> vmm_init s;
       s \<leftarrow> vmm_enable s;
       s \<leftarrow> init_heap s;
       s \<leftarrow> fs_init s;
       s \<leftarrow> create_readme s;
       keyboard_install s
     })) (\<lambda>s.
     fbind (init_timer 1000 s) (\<lambda>s.
     fbind (fret (shell_init s)) (\<lambda>s.
     Some (Inr (s\<lparr>interrupts_on := True\<rparr>)))))"

section \<open>The running system\<close>

text \<open>
  A step of the idle loop: an interrupt arrives on a hardware line and its gate leads to
  \<open>irq_handler\<close>; the stub has pushed the vector.
\<close>

inductive kernel_step :: "'a shell_scheme \<Rightarrow> 'a shell_scheme \<Rightarrow> bool" where
  irq: "interrupts_on s \<Longrightarrow> 32 \<le> int_no regs \<Longrightarrow> int_no regs < 48 \<Longrightarrow>
    irq_handler call_isr regs s = Some (Inr s') \<Longrightarrow> kernel_step s s'"

inductive_cases kernel_stepE: "kernel_step s s'"

inductive reachable :: "'a shell_scheme \<Rightarrow> 'a shell_scheme \<Rightarrow> bool" for s0 where
  start: "reachable s0 s0"
| step: "reachable s0 s \<Longrightarrow> kernel_step s s' \<Longrightarrow> reachable s0 s'"

end
