(* ===== verification/Paging_Rep.thy ===== *)
theory Paging_Rep
  imports Paging
begin

text \<open>
  What the paging code builds, as seen by the processor's walk: the tables as arrays of words in
  memory, the directory that \<open>vmm_init\<close> leaves, and the effect of one store on the walk.
\<close>

section \<open>Arrays of 1024 words\<close>

definition entry :: "u32 \<Rightarrow> nat \<Rightarrow> u32" where
  "entry base i = base + 4 * of_nat i"

text \<open>A page-aligned page below 16 MiB.\<close>

definition low_page :: "u32 \<Rightarrow> bool" where
  "low_page a \<longleftrightarrow> 4096 dvd unat a \<and> unat a + 4096 \<le> 0x1000000"

lemma unat_entry: "low_page base \<Longrightarrow> i < 1024 \<Longrightarrow> unat (entry base i) = unat base + 4 * i"
proof -
  assume "low_page base" "i < 1024"
  then have "unat (base + of_nat (4 * i)) = unat base + 4 * i"
    by (intro unat_add_of_nat) (simp add: low_page_def)
  then show ?thesis by (simp add: entry_def)
qed

lemma low_pages_apart: "low_page a \<Longrightarrow> low_page b \<Longrightarrow> a \<noteq> b \<Longrightarrow> apart a 4096 b 4096"
  by (auto simp: low_page_def apart_def u32_eq_iff elim!: dvdE)

lemma load_store_entry:
  assumes "low_page base" "i < 1024" "j < 1024"
  shows "load32 (store32 m (entry base i) v) (entry base j) = (if i = j then v else load32 m (entry base j))"
proof (cases "i = j")
  case False
  then have "apart (entry base i) 4 (entry base j) 4"
    using assms by (auto simp: apart_def unat_entry)
  moreover have "fits (entry base i) 4" "fits (entry base j) 4"
    using assms by (auto simp: fits_def unat_entry low_page_def)
  ultimately show ?thesis
    using False by (simp add: load32_store32_other)
qed simp

lemma store_entry_other:
  assumes "low_page base" "i < 1024" "\<not> in_region a base 4096"
  shows "store32 m (entry base i) v a = m a"
  using assms by (intro store32_other) (auto simp: fits_def in_region_def unat_entry low_page_def)

lemma load_entry_agree:
  assumes "low_page base" "j < 1024" "agree_on m m' base 4096"
  shows "load32 m' (entry base j) = load32 m (entry base j)"
proof (rule agree_on_load32)
  show "agree_on m m' (entry base j) 4"
    using assms by (intro agree_on_sub [OF assms(3)]) (auto simp: unat_entry)
  show "fits (entry base j) 4"
    using assms by (auto simp: fits_def unat_entry low_page_def)
qed

lemma load_store_page:
  assumes "low_page a" "low_page b" "a \<noteq> b" "i < 1024" "j < 1024"
  shows "load32 (store32 m (entry a i) v) (entry b j) = load32 m (entry b j)"
proof (rule load_entry_agree [OF assms(2,5)])
  show "agree_on m (store32 m (entry a i) v) b 4096"
    using low_pages_apart [OF assms(1-3)]
    by (auto simp: agree_on_def apart_sym intro!: store_entry_other assms dest: apart_in_region)
qed

section \<open>Filling a table\<close>

definition pte_of :: "u32 \<Rightarrow> nat \<Rightarrow> u32" where
  "pte_of k i = ((k * 0x400000 + of_nat i * 0x1000) AND 0xFFFFF000) OR 3"

lemma fill_loop_entries:
  fixes k :: u32 and m :: ram
  assumes "low_page base" "n \<le> 1024"
  defines "m' \<equiv> for_u32 n (\<lambda>i m. let phys_addr = k * 0x400000 + i * 0x1000
      in store32 m (base + 4 * i) ((phys_addr AND 0xFFFFF000) OR 0x03)) m"
  shows "(\<forall>j < 1024. load32 m' (entry base j) = (if j < n then pte_of k j else load32 m (entry base j))) \<and>
    (\<forall>a. \<not> in_region a base 4096 \<longrightarrow> m' a = m a)"
  using assms(2) unfolding m'_def
proof (induction n)
  case (Suc n)
  then have "n < 1024" by simp
  then show ?case
    using Suc assms(1)
    by (auto simp: Let_def entry_def [symmetric] load_store_entry store_entry_other pte_of_def less_Suc_eq)
qed simp

lemma fill_table_entries:
  assumes "low_page base"
  shows "j < 1024 \<Longrightarrow> load32 (fill_table k base m) (entry base j) = pte_of k j"
    and "\<not> in_region a base 4096 \<Longrightarrow> fill_table k base m a = m a"
  using fill_loop_entries [OF assms, of 1024 k m] by (simp_all add: fill_table_def)

lemma fill_table_page:
  assumes "low_page a" "low_page b" "a \<noteq> b" "j < 1024"
  shows "load32 (fill_table k a m) (entry b j) = load32 m (entry b j)"
  using low_pages_apart [OF assms(1-3)]
  by (intro load_entry_agree [OF assms(2,4)])
    (auto simp: agree_on_def apart_sym intro!: fill_table_entries(2) [OF assms(1)] dest: apart_in_region)

section \<open>The layout of the image\<close>

text \<open>
  What the linker script and the section attribute guarantee: the five tables are pages of their
  own in low memory.
\<close>

abbreviation (input) page_dir :: "(string \<Rightarrow> u32) \<Rightarrow> u32" where
  "page_dir addr \<equiv> addr ''kernel_page_directory''"

abbreviation (input) page_table :: "(string \<Rightarrow> u32) \<Rightarrow> nat \<Rightarrow> u32" where
  "page_table addr k \<equiv> addr (table_symbol k)"

definition vmm_layout :: "(string \<Rightarrow> u32) \<Rightarrow> bool" where
  "vmm_layout addr \<longleftrightarrow> low_page (page_dir addr) \<and> (\<forall>k < 4. low_page (page_table addr k)) \<and>
     (\<forall>k < 4. page_table addr k \<noteq> page_dir addr) \<and>
     (\<forall>k < 4. \<forall>l < 4. k \<noteq> l \<longrightarrow> page_table addr k \<noteq> page_table addr l)"

definition in_tables :: "(string \<Rightarrow> u32) \<Rightarrow> u32 \<Rightarrow> bool" where
  "in_tables addr a \<longleftrightarrow> in_region a (page_dir addr) 4096 \<or> (\<exists>k < 4. in_region a (page_table addr k) 4096)"

text \<open>
  The directory that maps the first 16 MiB through the four tables, whatever the tables hold.
\<close>

definition dir_ok :: "(string \<Rightarrow> u32) \<Rightarrow> ram \<Rightarrow> bool" where
  "dir_ok addr m \<longleftrightarrow> (\<forall>j < 1024. load32 m (entry (page_dir addr) j) =
     (if j < 4 then (page_table addr j AND 0xFFFFF000) OR 3 else 0))"

lemma less4: "k < (4 :: nat) \<longleftrightarrow> k = 0 \<or> k = 1 \<or> k = 2 \<or> k = 3"
  by auto

lemma walk_entry:
  assumes lay: "vmm_layout addr" and dir: "dir_ok addr m"
  shows "walk m (page_dir addr) v =
    (if unat v div 4194304 < 4
     then (let pte = load32 m (entry (page_table addr (unat v div 4194304)) (unat v div 4096 mod 1024)) in
       if bit pte 0 then Some ((pte AND 0xFFFFF000) OR (v AND 0xFFF), bit pte 1) else None)
     else None)"
proof -
  let ?k = "unat v div 4194304" and ?i = "unat v div 4096 mod 1024"
  have k: "?k < 1024"
    using unat_u32_less [of v] by (simp add: less_mult_imp_div_less)
  have idx: "drop_bit 22 v = (of_nat ?k :: u32)" "drop_bit 12 v AND 0x3FF = (of_nat ?i :: u32)"
    unfolding unat_pd_index [symmetric] unat_pt_index [symmetric] by simp_all
  have low: "4096 dvd unat (page_dir addr)" "?k < 4 \<Longrightarrow> 4096 dvd unat (page_table addr ?k)"
    using lay by (auto simp: vmm_layout_def low_page_def)
  have pde: "load32 m (entry (page_dir addr) ?k) = (if ?k < 4 then (page_table addr ?k AND 0xFFFFF000) OR 3 else 0)"
    using dir k by (simp add: dir_ok_def)
  show ?thesis
  proof (cases "?k < 4")
    case True
    have "((page_table addr ?k AND 0xFFFFF000) OR 3) AND 0xFFFFF000 = page_table addr ?k"
      using page_flags(1) [of 3 "page_table addr ?k"] page_aligned [OF low(2) [OF True]] by simp
    then show ?thesis
      using True pde page_flags(2,3) [of 3 "page_table addr ?k"]
      by (simp add: walk_def Let_def page_aligned [OF low(1)] idx entry_def)
  next
    case False
    then show ?thesis
      using pde by (simp add: walk_def Let_def page_aligned [OF low(1)] idx entry_def)
  qed
qed

section \<open>What vmm_init leaves in memory\<close>

lemma vmm_layoutD:
  assumes "vmm_layout addr"
  shows "low_page (page_dir addr)" "k < 4 \<Longrightarrow> low_page (page_table addr k)"
    "k < 4 \<Longrightarrow> page_table addr k \<noteq> page_dir addr"
    "k < 4 \<Longrightarrow> l < 4 \<Longrightarrow> k \<noteq> l \<Longrightarrow> page_table addr k \<noteq> page_table addr l"
  using assms by (auto simp: vmm_layout_def)

lemma memset_page:
  "low_page a \<Longrightarrow> memset m a 0 4096 x = (if in_region x a 4096 then 0 else m x)"
  by (subst memset_apply) (simp_all add: low_page_def fits_def)

lemma in_tables_cases:
  "in_tables addr x \<longleftrightarrow> in_region x (page_dir addr) 4096 \<or> in_region x (addr ''kernel_page_table0'') 4096 \<or>
    in_region x (addr ''kernel_page_table1'') 4096 \<or> in_region x (addr ''kernel_page_table2'') 4096 \<or>
    in_region x (addr ''kernel_page_table3'') 4096"
proof -
  have "(\<exists>k < 4. P k) \<longleftrightarrow> P 0 \<or> P 1 \<or> P 2 \<or> P (3 :: nat)" for P
    unfolding less4 by blast
  then show ?thesis
    unfolding in_tables_def by simp
qed

lemma clear_tables_apply:
  assumes "vmm_layout addr"
  shows "clear_tables addr m x = (if in_tables addr x then 0 else m x)"
proof -
  note low = vmm_layoutD(1) [OF assms] vmm_layoutD(2) [OF assms, of 0, simplified]
    vmm_layoutD(2) [OF assms, of 1, simplified] vmm_layoutD(2) [OF assms, of 2, simplified]
    vmm_layoutD(2) [OF assms, of 3, simplified]
  show ?thesis
    by (simp add: clear_tables_def Let_def memset_page low in_tables_cases)
qed

lemma load32_zero: "(\<And>x. in_region x p 4 \<Longrightarrow> m x = 0) \<Longrightarrow> fits p 4 \<Longrightarrow> load32 m p = 0"
  using in_region_offset [of p 4 0] in_region_offset [of p 4 1] in_region_offset [of p 4 2]
    in_region_offset [of p 4 3] by (simp add: load32_def)

lemma clear_tables_dir:
  assumes lay: "vmm_layout addr" and j: "j < 1024"
  shows "load32 (clear_tables addr m) (entry (page_dir addr) j) = 0"
proof (rule load32_zero)
  note low = vmm_layoutD(1) [OF lay]
  show "clear_tables addr m x = 0" if "in_region x (entry (page_dir addr) j) 4" for x
    using that low j by (auto simp: clear_tables_apply [OF lay] in_tables_def in_region_def unat_entry)
  show "fits (entry (page_dir addr) j) 4"
    using low j by (auto simp: fits_def unat_entry low_page_def)
qed

text \<open>The tables, one after the other; each leaves the others and the directory alone.\<close>

definition fill_tables :: "(string \<Rightarrow> u32) \<Rightarrow> nat \<Rightarrow> ram \<Rightarrow> ram" where
  "fill_tables addr n m = fold (\<lambda>k. fill_table (of_nat k) (page_table addr k)) [0..<n] m"

lemma fill_tables_Suc:
  "fill_tables addr (Suc n) m = fill_table (of_nat n) (page_table addr n) (fill_tables addr n m)"
  by (simp add: fill_tables_def)

lemma fill_tables_entries:
  assumes lay: "vmm_layout addr"
  shows "n \<le> 4 \<Longrightarrow> (\<forall>k < n. \<forall>j < 1024. load32 (fill_tables addr n m) (entry (page_table addr k) j) = pte_of (of_nat k) j) \<and>
    (\<forall>j < 1024. load32 (fill_tables addr n m) (entry (page_dir addr) j) = load32 m (entry (page_dir addr) j)) \<and>
    (\<forall>x. \<not> in_tables addr x \<longrightarrow> fill_tables addr n m x = m x)"
proof (induction n)
  case 0
  then show ?case by (simp add: fill_tables_def)
next
  case (Suc n)
  then have n: "n < 4" by simp
  note low = vmm_layoutD(2) [OF lay n]
  have "load32 (fill_tables addr (Suc n) m) (entry (page_table addr k) j) = pte_of (of_nat k) j"
    if "k < Suc n" "j < 1024" for k j
  proof (cases "k = n")
    case True
    with that low show ?thesis by (simp only: fill_tables_Suc fill_table_entries(1))
  next
    case False
    with that have k: "k < n" "k < 4" using n by auto
    then show ?thesis
      using Suc that fill_table_page [OF low vmm_layoutD(2) [OF lay k(2)] vmm_layoutD(4) [OF lay n k(2)] that(2)]
      by (simp add: fill_tables_Suc)
  qed
  moreover have "load32 (fill_tables addr (Suc n) m) (entry (page_dir addr) j) = load32 m (entry (page_dir addr) j)"
    if "j < 1024" for j
    using Suc that fill_table_page [OF low vmm_layoutD(1) [OF lay] vmm_layoutD(3) [OF lay n] that]
    by (simp add: fill_tables_Suc)
  moreover have "fill_tables addr (Suc n) m x = m x" if "\<not> in_tables addr x" for x
  proof -
    have "\<not> in_region x (page_table addr n) 4096"
      using that n by (auto simp: in_tables_def)
    then have "fill_tables addr (Suc n) m x = fill_tables addr n m x"
      unfolding fill_tables_Suc by (rule fill_table_entries(2) [OF low])
    then show ?thesis using Suc that by simp
  qed
  ultimately show ?case by blast
qed

lemma set_pde_entries:
  assumes lay: "vmm_layout addr" and i: "i < 1024"
  shows "j < 1024 \<Longrightarrow> load32 (set_pde (page_dir addr) (of_nat i) t m) (entry (page_dir addr) j) =
      (if i = j then (t AND 0xFFFFF000) OR 3 else load32 m (entry (page_dir addr) j))"
    and "k < 4 \<Longrightarrow> j < 1024 \<Longrightarrow> load32 (set_pde (page_dir addr) (of_nat i) t m) (entry (page_table addr k) j) =
      load32 m (entry (page_table addr k) j)"
    and "\<not> in_tables addr x \<Longrightarrow> set_pde (page_dir addr) (of_nat i) t m x = m x"
proof -
  note low = vmm_layoutD(1) [OF lay]
  have eq: "set_pde (page_dir addr) (of_nat i) t m = store32 m (entry (page_dir addr) i) ((t AND 0xFFFFF000) OR 3)"
    by (simp add: set_pde_def entry_def)
  show "load32 (set_pde (page_dir addr) (of_nat i) t m) (entry (page_dir addr) j) =
      (if i = j then (t AND 0xFFFFF000) OR 3 else load32 m (entry (page_dir addr) j))" if "j < 1024"
    unfolding eq by (rule load_store_entry [OF low i that])
  show "load32 (set_pde (page_dir addr) (of_nat i) t m) (entry (page_table addr k) j) =
      load32 m (entry (page_table addr k) j)" if "k < 4" "j < 1024"
    unfolding eq by (rule load_store_page [OF low vmm_layoutD(2) [OF lay that(1)]
      vmm_layoutD(3) [OF lay that(1), symmetric] i that(2)])
  show "set_pde (page_dir addr) (of_nat i) t m x = m x" if "\<not> in_tables addr x"
    unfolding eq using that by (intro store_entry_other [OF low i]) (auto simp: in_tables_def)
qed

lemma build_tables_eq:
  "build_tables addr m =
    set_pde (page_dir addr) (of_nat 3) (page_table addr 3) (set_pde (page_dir addr) (of_nat 2) (page_table addr 2)
     (set_pde (page_dir addr) (of_nat 1) (page_table addr 1) (set_pde (page_dir addr) (of_nat 0) (page_table addr 0)
      (fill_tables addr 4 m))))"
  by (simp add: build_tables_def fill_tables_def Let_def)

lemma pick_less4:
  "(if 3 = j then f 3 else if 2 = j then f 2 else if 1 = j then f 1 else if 0 = j then f 0 else c) =
    (if j < (4 :: nat) then f j else c)"
  by (auto simp: less4)

lemma build_tables_ok:
  fixes m :: ram
  assumes lay: "vmm_layout addr"
  defines "m' \<equiv> build_tables addr (clear_tables addr m)"
  shows "dir_ok addr m'"
    and "k < 4 \<Longrightarrow> j < 1024 \<Longrightarrow> load32 m' (entry (page_table addr k) j) = pte_of (of_nat k) j"
    and "\<not> in_tables addr x \<Longrightarrow> m' x = m x"
proof -
  note fill = fill_tables_entries [OF lay, of 4 "clear_tables addr m", simplified]
  have small: "(0 :: nat) < 1024" "(1 :: nat) < 1024" "(2 :: nat) < 1024" "(3 :: nat) < 1024"
    by simp_all
  note pde = set_pde_entries [OF lay small(1)] set_pde_entries [OF lay small(2)]
    set_pde_entries [OF lay small(3)] set_pde_entries [OF lay small(4)]
  show "dir_ok addr m'"
    unfolding dir_ok_def
  proof (intro allI impI)
    fix j :: nat
    assume j: "j < 1024"
    have "load32 (fill_tables addr 4 (clear_tables addr m)) (entry (page_dir addr) j) = 0"
      using fill j by (simp add: clear_tables_dir [OF lay])
    then have "load32 m' (entry (page_dir addr) j) =
        (if 3 = j then (page_table addr 3 AND 0xFFFFF000) OR 3
         else if 2 = j then (page_table addr 2 AND 0xFFFFF000) OR 3
         else if 1 = j then (page_table addr 1 AND 0xFFFFF000) OR 3
         else if 0 = j then (page_table addr 0 AND 0xFFFFF000) OR 3 else 0)"
      unfolding m'_def build_tables_eq
      by (simp only: set_pde_entries(1) [OF lay small(1) j] set_pde_entries(1) [OF lay small(2) j]
          set_pde_entries(1) [OF lay small(3) j] set_pde_entries(1) [OF lay small(4) j])
    then show "load32 m' (entry (page_dir addr) j) = (if j < 4 then (page_table addr j AND 0xFFFFF000) OR 3 else 0)"
      by (simp only: pick_less4 [of j "\<lambda>k. (page_table addr k AND 0xFFFFF000) OR 3" 0])
  qed
  show "load32 m' (entry (page_table addr k) j) = pte_of (of_nat k) j" if "k < 4" "j < 1024"
    unfolding m'_def build_tables_eq using fill that by (simp only: pde simp_thms)
  show "m' x = m x" if "\<not> in_tables addr x"
    unfolding m'_def build_tables_eq using fill that
    by (simp only: pde clear_tables_apply [OF lay] simp_thms if_False)
qed

text \<open>The entry that the walk of an address below 16 MiB finds names the address's own page.\<close>

lemma pte_identity:
  assumes "unat v < 0x1000000"
  shows "pte_of (of_nat (unat v div 4194304)) (unat v div 4096 mod 1024) = (v AND 0xFFFFF000) OR 3"
proof -
  let ?k = "unat v div 4194304" and ?i = "unat v div 4096 mod 1024"
  have k: "?k < 4" and i: "?i < 1024" using assms by auto
  have "?k = unat v div 4096 div 1024" by (simp add: div_mult2_eq [symmetric])
  then have sum: "?k * 1024 + ?i = unat v div 4096" by simp
  have eq: "(of_nat ?k * 0x400000 + of_nat ?i * 0x1000 :: u32) = of_nat (?k * 4194304 + ?i * 4096)"
    by simp
  have "?k * 4194304 + ?i * 4096 = unat v div 4096 * 4096"
    using sum by (simp add: algebra_simps)
  then have "unat (of_nat ?k * 0x400000 + of_nat ?i * 0x1000 :: u32) = unat v div 4096 * 4096"
    unfolding eq using assms by (subst unat_of_nat_u32) auto
  then have "(of_nat ?k * 0x400000 + of_nat ?i * 0x1000) AND 0xFFFFF000 = (v AND 0xFFFFF000 :: u32)"
    by (simp only: u32_eq_iff unat_page) simp
  then show ?thesis by (simp add: pte_of_def)
qed

lemma identity_walk:
  assumes lay: "vmm_layout addr" and dir: "dir_ok addr m"
    and pte: "\<And>k j. k < 4 \<Longrightarrow> j < 1024 \<Longrightarrow> load32 m (entry (page_table addr k) j) = pte_of (of_nat k) j"
  shows "walk m (page_dir addr) v = (if unat v < 0x1000000 then Some (v, True) else None)"
proof (cases "unat v < 0x1000000")
  case True
  then have k: "unat v div 4194304 < 4" by auto
  have "load32 m (entry (page_table addr (unat v div 4194304)) (unat v div 4096 mod 1024)) = (v AND 0xFFFFF000) OR 3"
    using pte [OF k] pte_identity [OF True] by simp
  then show ?thesis
    using True k page_flags [of 3 v] page_offset [of v]
    by (simp only: walk_entry [OF lay dir] Let_def if_True page_flags simp_thms)
next
  case False
  then have "\<not> unat v div 4194304 < 4" by auto
  with False show ?thesis by (simp add: walk_entry [OF lay dir])
qed

end
