(* ===== verification/Paging_Props.thy ===== *)
theory Paging_Props
  imports Paging_Rep
begin

text \<open>
  The properties of paging: the map that \<open>vmm_init\<close> sets up and \<open>vmm_enable\<close> switches to, the effect
  of \<open>vmm_map\<close> on it, and what the page fault handler reports.
\<close>

lemma vmm_init_steps:
  "returns (vmm_init s) (\<lambda>s'. mem s' = build_tables (sym s) (clear_tables (sym s) (mem s)) \<and>
     sym s' = sym s \<and> lit s' = lit s \<and> cr0 s' = cr0 s \<and> cr3 s' = cr3 s \<and>
     interrupt_handlers s' = (interrupt_handlers s)(14 \<mapsto> Page_fault_handler) \<and>
     (\<exists>out. con s' = term_write out (con s)))"
  unfolding vmm_init_def Let_def
  apply (rule printf_step, simp, rule prints_refl)
  apply (rule printf_step, simp, rule prints_refl)
  apply (rule printf_step, simp, rule prints_refl)
  apply (rule printf_step, simp, assumption)+
  apply (rule printf_last, simp, assumption)
  apply (auto simp: prints_def register_interrupt_handler_def term_write_append [symmetric] simp del: term_write_append)
  done

section \<open>Translation\<close>

text \<open>The address that an access to \<open>v\<close> reaches, by the control registers.\<close>

definition translate :: "'a vmm_scheme \<Rightarrow> u32 \<Rightarrow> u32 option" where
  "translate s v = (if bit (cr0 s) 31 then map_option fst (walk (mem s) (cr3 s) v) else Some v)"

lemma vmm_enable_steps:
  "returns (vmm_enable s) (\<lambda>s'. mem s' = mem s \<and> sym s' = sym s \<and> \<not> interrupts_on s' \<and>
     cr3 s' = page_dir (sym s) \<and> cr0 s' = cr0 s OR 0x80000001 \<and>
     interrupt_handlers s' = interrupt_handlers s)"
  unfolding vmm_enable_def Let_def
  apply (rule printf_step, simp, rule prints_refl)
  apply (rule printf_step, simp, rule prints_refl)
  apply (rule printf_step, simp, rule prints_refl)
  apply (rule printf_step, simp, assumption)
  apply (rule printf_last, simp, rule prints_refl)
  apply (auto simp: prints_def or.assoc)
  done

lemma vmm_map_steps:
  "returns (vmm_map v p rw s) (\<lambda>s'. sym s' = sym s \<and> cr3 s' = cr3 s \<and> cr0 s' = cr0 s \<and>
     mem s' = (let pde = load32 (mem s) (page_dir (sym s) + 4 * drop_bit 22 v) in
       if pde AND 1 = 0 then mem s
       else store32 (mem s) ((pde AND 0xFFFFF000) + 4 * (drop_bit 12 v AND 0x3FF))
         ((p AND 0xFFFFF000) OR (if rw \<noteq> 0 then 3 else 1))))"
  unfolding vmm_map_def Let_def pd_index_mask
  apply (rule printf_step, simp, rule prints_refl)
  subgoal for s1
    apply (frule prints_sel, elim conjE)
    apply (cases "load32 (mem s) (page_dir (sym s) + 4 * drop_bit 22 v) AND 1 = 0"; simp only: if_True if_False simp_thms)
     apply (rule printf_last, simp, assumption)
     apply (auto simp: prints_def) [1]
    apply (rule printf_step, simp, rule prints_refl)
    apply (rule printf_last, simp, assumption)
    apply (auto simp: prints_def)
    done
  done

lemma and_one_bit: "(x AND 1 = (0 :: u32)) \<longleftrightarrow> \<not> bit x 0"
  by (simp add: bit_0 and_one_eq even_iff_mod_2_eq_zero)

lemma same_page: "v AND 0xFFFFF000 = (w AND 0xFFFFF000 :: u32) \<longleftrightarrow> unat v div 4096 = unat w div 4096"
  by (simp only: u32_eq_iff unat_page) auto

lemma page_index: "unat v div 4096 = unat (w :: u32) div 4096 \<longleftrightarrow>
    unat v div 4194304 = unat w div 4194304 \<and> unat v div 4096 mod 1024 = unat w div 4096 mod 1024"
proof -
  have "n div 4194304 = n div 4096 div 1024" for n :: nat
    by (simp add: div_mult2_eq [symmetric])
  then show ?thesis
    by (metis div_mult_mod_eq)
qed

text \<open>One store into a table changes the walk of one page.\<close>

lemma walk_map_page:
  fixes p :: u32
  assumes lay: "vmm_layout addr" and dir: "dir_ok addr m" and v: "unat v < 0x1000000"
    and f: "f = 1 \<or> f = (3 :: u32)"
  defines "m' \<equiv> store32 m (entry (page_table addr (unat v div 4194304)) (unat v div 4096 mod 1024))
      ((p AND 0xFFFFF000) OR f)"
  shows "dir_ok addr m'"
    and "walk m' (page_dir addr) w =
      (if w AND 0xFFFFF000 = v AND 0xFFFFF000 then Some ((p AND 0xFFFFF000) OR (w AND 0xFFF), f = 3)
       else walk m (page_dir addr) w)"
proof -
  let ?k = "unat v div 4194304" and ?i = "unat v div 4096 mod 1024"
  have k: "?k < 4" and i: "?i < 1024" using v by auto
  note low = vmm_layoutD(2) [OF lay k]
  show dir': "dir_ok addr m'"
    unfolding dir_ok_def m'_def
    using load_store_page [OF low vmm_layoutD(1) [OF lay] vmm_layoutD(3) [OF lay k] i] dir
    by (simp add: dir_ok_def)
  have pte: "load32 m' (entry (page_table addr l) j) =
      (if l = ?k \<and> j = ?i then (p AND 0xFFFFF000) OR f else load32 m (entry (page_table addr l) j))"
    if "l < 4" "j < 1024" for l j
  proof (cases "l = ?k")
    case True
    then show ?thesis
      unfolding m'_def using load_store_entry [OF low i that(2)] by auto
  next
    case False
    then show ?thesis
      unfolding m'_def
      using load_store_page [OF low vmm_layoutD(2) [OF lay that(1)] _ i that(2)]
        vmm_layoutD(4) [OF lay k that(1)] by auto
  qed
  let ?l = "unat w div 4194304" and ?j = "unat w div 4096 mod 1024"
  have same: "w AND 0xFFFFF000 = v AND 0xFFFFF000 \<longleftrightarrow> ?l = ?k \<and> ?j = ?i"
    using same_page [of w v] page_index [of w v] by simp
  show "walk m' (page_dir addr) w =
      (if w AND 0xFFFFF000 = v AND 0xFFFFF000 then Some ((p AND 0xFFFFF000) OR (w AND 0xFFF), f = 3)
       else walk m (page_dir addr) w)"
  proof (cases "?l = ?k \<and> ?j = ?i")
    case True
    then have "load32 m' (entry (page_table addr ?l) ?j) = (p AND 0xFFFFF000) OR f"
      using pte [OF k i] by simp
    then show ?thesis
      unfolding walk_entry [OF lay dir'] same using True k page_flags [OF f, of p] by (simp add: Let_def)
  next
    case False
    show ?thesis
    proof (cases "?l < 4")
      case True
      then have "load32 m' (entry (page_table addr ?l) ?j) = load32 m (entry (page_table addr ?l) ?j)"
        using pte [of ?l ?j] False by auto
      then show ?thesis
        unfolding walk_entry [OF lay dir'] walk_entry [OF lay dir] same if_not_P [OF False] by (simp only:)
    next
      case out: False
      show ?thesis
        unfolding walk_entry [OF lay dir'] walk_entry [OF lay dir] same if_not_P [OF False] if_not_P [OF out]
        by (rule refl)
    qed
  qed
qed

section \<open>The report of a page fault\<close>

definition fault_literals :: "string list" where
  "fault_literals = [''write'', ''read'', ''protection'', ''non-present'', ''user'', ''supervisor'',
     ''instruction fetch'', ''data access'']"

definition literals_in :: "'a machine_scheme \<Rightarrow> string list \<Rightarrow> bool" where
  "literals_in s ts \<longleftrightarrow> (\<forall>t \<in> set ts. cstring (mem s) (lit s t) (bytes_of t))"

text \<open>The four lines that depend on the error code.\<close>

definition fault_lines :: "u32 \<Rightarrow> string" where
  "fault_lines e =
     ''[VMM] Page fault caused by '' @ (if bit e 0 then ''write'' else ''read'') @ '' access\<newline>'' @
     ''[VMM] Page fault '' @ (if bit e 1 then ''protection'' else ''non-present'') @ ''\<newline>'' @
     ''[VMM] Page fault in '' @ (if bit e 2 then ''user'' else ''supervisor'') @ '' mode\<newline>'' @
     ''[VMM] Page fault caused by '' @ (if bit e 3 then ''instruction fetch'' else ''data access'') @ '' operation\<newline>''"

lemma and_bit:
  "(x AND 1 \<noteq> (0 :: u32)) \<longleftrightarrow> bit x 0" "(x AND 2 \<noteq> (0 :: u32)) \<longleftrightarrow> bit x 1"
  "(x AND 4 \<noteq> (0 :: u32)) \<longleftrightarrow> bit x 2" "(x AND 8 \<noteq> (0 :: u32)) \<longleftrightarrow> bit x 3"
  using and_exp_eq_0_iff_not_bit [of x 0] and_exp_eq_0_iff_not_bit [of x 1]
    and_exp_eq_0_iff_not_bit [of x 2] and_exp_eq_0_iff_not_bit [of x 3] by simp_all

lemma printf_lit:
  assumes "literals_in s fault_literals" "t \<in> set fault_literals" "CHR ''%'' \<notin> set f" "CHR ''%'' \<notin> set g"
  shows "printf (f @ ''%s'' @ g) [lit s t] s =
    Some (s\<lparr>con := term_write (bytes_of f @ bytes_of t @ bytes_of g) (con s)\<rparr>)"
  using assms by (intro printf_s) (auto simp: literals_in_def)

lemma literals_in_con [simp]: "literals_in (s\<lparr>con := t\<rparr>) ts = literals_in s ts"
  by (simp add: literals_in_def)

lemma page_fault_report_text:
  assumes lits: "literals_in s fault_literals"
  shows "\<exists>pre. page_fault_report regs s =
    Some (s\<lparr>con := term_write (pre @ bytes_of (fault_lines (err_code regs))) (con s)\<rparr>)"
proof -
  let ?e = "err_code regs"
  define k0 where "k0 = (if bit ?e 0 then ''write'' else ''read'')"
  define k1 where "k1 = (if bit ?e 1 then ''protection'' else ''non-present'')"
  define k2 where "k2 = (if bit ?e 2 then ''user'' else ''supervisor'')"
  define k3 where "k3 = (if bit ?e 3 then ''instruction fetch'' else ''data access'')"
  have k: "k0 \<in> set fault_literals" "k1 \<in> set fault_literals" "k2 \<in> set fault_literals" "k3 \<in> set fault_literals"
    by (simp_all add: k0_def k1_def k2_def k3_def fault_literals_def)
  have args: "(if ?e AND 1 \<noteq> 0 then lit u ''write'' else lit u ''read'') = lit u k0"
    "(if ?e AND 2 \<noteq> 0 then lit u ''protection'' else lit u ''non-present'') = lit u k1"
    "(if ?e AND 4 \<noteq> 0 then lit u ''user'' else lit u ''supervisor'') = lit u k2"
    "(if ?e AND 8 \<noteq> 0 then lit u ''instruction fetch'' else lit u ''data access'') = lit u k3" for u :: "'a vmm_scheme"
    unfolding and_bit k0_def k1_def k2_def k3_def by simp_all
  have "returns (printf ''[VMM] Page Fault at 0x%x\<newline>'' [cr2 s] s \<bind> printf ''[VMM] Page info: 0x%x\<newline>'' [eip regs]) (prints s)"
    by (rule printf_step, simp, rule prints_refl, rule printf_last, simp, assumption, assumption)
  then obtain s1 where s1: "printf ''[VMM] Page Fault at 0x%x\<newline>'' [cr2 s] s \<bind>
      printf ''[VMM] Page info: 0x%x\<newline>'' [eip regs] = Some s1" "prints s s1"
    by (rule returnsE)
  obtain pre where pre: "s1 = s\<lparr>con := term_write pre (con s)\<rparr>"
    using s1(2) by (rule printsE)
  have l1: "literals_in (s\<lparr>con := t\<rparr>) fault_literals" for t
    using lits by simp
  have line: "printf ''[VMM] Page fault caused by %s access\<newline>'' [lit s k0] (s\<lparr>con := t\<rparr>) =
      Some (s\<lparr>con := term_write (bytes_of (''[VMM] Page fault caused by '' @ k0 @ '' access\<newline>'')) t\<rparr>)"
    "printf ''[VMM] Page fault %s\<newline>'' [lit s k1] (s\<lparr>con := t\<rparr>) =
      Some (s\<lparr>con := term_write (bytes_of (''[VMM] Page fault '' @ k1 @ ''\<newline>'')) t\<rparr>)"
    "printf ''[VMM] Page fault in %s mode\<newline>'' [lit s k2] (s\<lparr>con := t\<rparr>) =
      Some (s\<lparr>con := term_write (bytes_of (''[VMM] Page fault in '' @ k2 @ '' mode\<newline>'')) t\<rparr>)"
    "printf ''[VMM] Page fault caused by %s operation\<newline>'' [lit s k3] (s\<lparr>con := t\<rparr>) =
      Some (s\<lparr>con := term_write (bytes_of (''[VMM] Page fault caused by '' @ k3 @ '' operation\<newline>'')) t\<rparr>)" for t
    using printf_lit [OF l1 k(1), of "''[VMM] Page fault caused by ''" "'' access\<newline>''" t]
      printf_lit [OF l1 k(2), of "''[VMM] Page fault ''" "''\<newline>''" t]
      printf_lit [OF l1 k(3), of "''[VMM] Page fault in ''" "'' mode\<newline>''" t]
      printf_lit [OF l1 k(4), of "''[VMM] Page fault caused by ''" "'' operation\<newline>''" t]
    by simp_all
  have "page_fault_report regs s =
      printf ''[VMM] Page fault caused by %s access\<newline>'' [lit s1 k0] s1 \<bind>
      (\<lambda>s. printf ''[VMM] Page fault %s\<newline>'' [lit s k1] s \<bind>
      (\<lambda>s. printf ''[VMM] Page fault in %s mode\<newline>'' [lit s k2] s \<bind>
      (\<lambda>s. printf ''[VMM] Page fault caused by %s operation\<newline>'' [lit s k3] s)))"
    using s1(1) unfolding page_fault_report_def Let_def args bind_assoc [symmetric] by simp
  also have "\<dots> = Some (s\<lparr>con := term_write (pre @ bytes_of (fault_lines ?e)) (con s)\<rparr>)"
    unfolding fault_lines_def k0_def [symmetric] k1_def [symmetric] k2_def [symmetric] k3_def [symmetric]
    by (simp add: line pre)
  finally show ?thesis by blast
qed

section \<open>Properties\<close>

definition reset_vmm :: vmm where
  "reset_vmm = \<lparr>con = \<lparr>io_dev = \<lambda>_ _. 0, io_devw = \<lambda>_ _. 0, io_log = [], trow = 0, tcol = 0,
     tcolor = 7, tbuf = \<lambda>_. 0\<rparr>, mem = \<lambda>_. 0,
     sym = (\<lambda>_. 0)(''kernel_page_directory'' := 0x1000, ''kernel_page_table0'' := 0x2000,
       ''kernel_page_table1'' := 0x3000, ''kernel_page_table2'' := 0x4000, ''kernel_page_table3'' := 0x5000),
     lit = \<lambda>_. 0, gdt = [], gdt_desc = \<lparr>gdt_limit = 0, gdt_base = 0\<rparr>, gdtr = \<lparr>gdt_limit = 0, gdt_base = 0\<rparr>,
     data_selector = 0, code_selector = 0, idt = [], idt_desc = \<lparr>idt_limit = 0, idt_base = 0\<rparr>,
     idtr = \<lparr>idt_limit = 0, idt_base = 0\<rparr>, interrupt_handlers = \<lambda>_. None, timer_ticks = 0,
     cr0 = 0x11, cr2 = 0, cr3 = 0, interrupts_on = True\<rparr>"

lemma reset_vmm_layout: "vmm_layout (sym reset_vmm)"
  by (simp add: vmm_layout_def less4 low_page_def reset_vmm_def)

text \<open>
  C26: \<open>vmm_init\<close> and \<open>vmm_enable\<close> return, switch paging on with interrupts off, and from then on
  every address below 16 MiB translates to itself and no other address translates at all; the walk
  from \<open>cr3\<close> finds each of these pages writable, in the directory and in its table; outside the five
  tables memory is untouched, and vector 14 is the page fault handler's.
\<close>

theorem paging_identity:
  assumes "vmm_layout (sym s)"
  shows "\<exists>s1 s2. vmm_init s = Some s1 \<and> vmm_enable s1 = Some s2 \<and>
    (\<forall>v. translate s2 v = (if unat v < 0x1000000 then Some v else None)) \<and> bit (cr0 s2) 31 \<and>
    (\<forall>v. walk (mem s2) (cr3 s2) v = (if unat v < 0x1000000 then Some (v, True) else None)) \<and>
    (\<forall>x. \<not> in_tables (sym s) x \<longrightarrow> mem s2 x = mem s x) \<and> \<not> interrupts_on s2 \<and>
    interrupt_handlers s2 14 = Some Page_fault_handler"
proof -
  obtain s1 where s1: "vmm_init s = Some s1" "mem s1 = build_tables (sym s) (clear_tables (sym s) (mem s))"
    "sym s1 = sym s" "interrupt_handlers s1 14 = Some Page_fault_handler"
    using vmm_init_steps [of s] by (auto elim!: returnsE)
  obtain s2 where s2: "vmm_enable s1 = Some s2" "mem s2 = mem s1" "\<not> interrupts_on s2"
    "cr3 s2 = page_dir (sym s1)" "cr0 s2 = cr0 s1 OR 0x80000001" "interrupt_handlers s2 = interrupt_handlers s1"
    using vmm_enable_steps [of s1] by (auto elim!: returnsE)
  note build = build_tables_ok [OF assms, where m = "mem s", folded s1(2)]
  have on: "bit (cr0 s2) 31"
    by (simp add: s2(5) bit_or_iff bit_numeral_rec)
  have w: "walk (mem s2) (cr3 s2) v = (if unat v < 0x1000000 then Some (v, True) else None)" for v
    by (simp add: s2 s1(3) identity_walk [OF assms build(1,2)])
  with on have "translate s2 v = (if unat v < 0x1000000 then Some v else None)" for v
    by (simp add: translate_def)
  with s1 s2 build(3) on w show ?thesis by auto
qed

lemma paging_identity_witness:
  "\<exists>s1 s2. vmm_init reset_vmm = Some s1 \<and> vmm_enable s1 = Some s2 \<and>
    translate s2 0xB8000 = Some 0xB8000 \<and> walk (mem s2) (cr3 s2) 0xB8000 = Some (0xB8000, True) \<and>
    translate s2 0x1000000 = None"
  using paging_identity [OF reset_vmm_layout] by fastforce

text \<open>
  On a directory that \<open>vmm_init\<close> has built, \<open>vmm_map\<close> maps exactly one page: the addresses of
  the page of \<open>v\<close> go to the page of \<open>p\<close>, writable when asked for, and every other address translates
  as before; above 16 MiB, where no table is present, it reports that and changes nothing.
\<close>

theorem vmm_map_one_page:
  assumes "vmm_layout (sym s)" "dir_ok (sym s) (mem s)"
  shows "\<exists>s'. vmm_map v p rw s = Some s' \<and> dir_ok (sym s) (mem s') \<and>
    (if unat v < 0x1000000
     then \<forall>w. walk (mem s') (page_dir (sym s)) w =
       (if w AND 0xFFFFF000 = v AND 0xFFFFF000 then Some ((p AND 0xFFFFF000) OR (w AND 0xFFF), rw \<noteq> 0)
        else walk (mem s) (page_dir (sym s)) w)
     else mem s' = mem s)"
proof -
  let ?k = "unat v div 4194304" and ?f = "if rw \<noteq> 0 then 3 else (1 :: u32)"
  let ?pde = "load32 (mem s) (page_dir (sym s) + 4 * drop_bit 22 v)"
  obtain s' where s': "vmm_map v p rw s = Some s'"
    "mem s' = (if ?pde AND 1 = 0 then mem s
       else store32 (mem s) ((?pde AND 0xFFFFF000) + 4 * (drop_bit 12 v AND 0x3FF)) ((p AND 0xFFFFF000) OR ?f))"
    using vmm_map_steps [of v p rw s] by (auto elim!: returnsE simp: Let_def)
  have k: "?k < 1024"
    using unat_u32_less [of v] by (simp add: less_mult_imp_div_less)
  have idx: "drop_bit 22 v = (of_nat ?k :: u32)" "drop_bit 12 v AND 0x3FF = (of_nat (unat v div 4096 mod 1024) :: u32)"
    unfolding unat_pd_index [symmetric] unat_pt_index [symmetric] by simp_all
  have pde: "?pde = (if ?k < 4 then (page_table (sym s) ?k AND 0xFFFFF000) OR 3 else 0)"
    using assms(2) k unfolding dir_ok_def idx entry_def [symmetric] by simp
  show ?thesis
  proof (cases "unat v < 0x1000000")
    case True
    then have k4: "?k < 4" by auto
    have low: "4096 dvd unat (page_table (sym s) ?k)"
      using vmm_layoutD(2) [OF assms(1) k4] by (simp add: low_page_def)
    have f: "?f = 1 \<or> ?f = 3" and f3: "?f = 3 \<longleftrightarrow> rw \<noteq> 0" by simp_all
    have "\<not> ?pde AND 1 = 0"
      using and_bit(1) page_flags(2) [of 3] pde k4 by simp
    moreover have "?pde AND 0xFFFFF000 = page_table (sym s) ?k"
      using page_flags(1) [of 3 "page_table (sym s) ?k"] page_aligned [OF low] pde k4 by simp
    ultimately have "mem s' = store32 (mem s) (entry (page_table (sym s) ?k) (unat v div 4096 mod 1024))
        ((p AND 0xFFFFF000) OR ?f)"
      unfolding s'(2) by (simp only: if_False entry_def idx)
    then show ?thesis
      using s'(1) True walk_map_page [OF assms True f, of p] unfolding f3 by auto
  next
    case False
    then have "\<not> ?k < 4" by auto
    then have "mem s' = mem s" using s'(2) pde by simp
    with False s'(1) assms(2) show ?thesis by auto
  qed
qed

lemma vmm_map_one_page_witness:
  "\<exists>s1 s2. vmm_init reset_vmm = Some s1 \<and> vmm_map 0x400123 0x7000 0 s1 = Some s2 \<and>
    walk (mem s2) 0x1000 0x400ABC = Some (0x7ABC, False) \<and> walk (mem s2) 0x1000 0x401ABC = Some (0x401ABC, True)"
proof -
  obtain s1 where s1: "vmm_init reset_vmm = Some s1"
    "mem s1 = build_tables (sym reset_vmm) (clear_tables (sym reset_vmm) (mem reset_vmm))" "sym s1 = sym reset_vmm"
    using vmm_init_steps [of reset_vmm] by (auto elim!: returnsE)
  note build = build_tables_ok [OF reset_vmm_layout, where m = "mem reset_vmm", folded s1(2)]
  have lay: "vmm_layout (sym s1)" using reset_vmm_layout s1(3) by simp
  obtain s2 where "vmm_map 0x400123 0x7000 0 s1 = Some s2" and
    w: "\<forall>w. walk (mem s2) (page_dir (sym s1)) w = (if w AND 0xFFFFF000 = 0x400123 AND 0xFFFFF000
        then Some ((0x7000 AND 0xFFFFF000) OR (w AND 0xFFF), False) else walk (mem s1) (page_dir (sym s1)) w)"
    using vmm_map_one_page [OF lay, of "0x400123" "0x7000" 0] build(1) s1(3) by auto
  moreover have "page_dir (sym s1) = 0x1000"
    by (simp add: s1(3) reset_vmm_def)
  moreover have "walk (mem s1) 0x1000 0x401ABC = Some (0x401ABC, True)"
    using identity_walk [OF reset_vmm_layout build(1,2), of "0x401ABC"] by (simp add: reset_vmm_def)
  ultimately show ?thesis
    using s1(1) w by auto
qed

text \<open>
  C30: the page fault handler never returns to the faulting code: it reports and halts. Of the error
  code it reads bit 0 as write or read and bit 1 as protection or non-present, which is the reverse
  of the processor's meaning (bit 0 is the protection violation, bit 1 the write).
\<close>

theorem page_fault_halts:
  assumes "literals_in s fault_literals"
  shows "page_fault_handler regs s = Some (Inl Halted) \<and>
    (\<exists>pre. page_fault_report regs s =
      Some (s\<lparr>con := term_write (pre @ bytes_of (fault_lines (err_code regs))) (con s)\<rparr>))"
  using page_fault_report_text [OF assms, of regs] by (auto simp: page_fault_handler_def)

definition demo_registers :: registers where
  "demo_registers = \<lparr>ds_reg = 0, edi = 0, esi = 0, ebp = 0, esp = 0, ebx = 0, edx = 0, ecx = 0, eax = 0,
     int_no = 14, err_code = 2, eip = 0, cs_reg = 0, eflags = 0, useresp = 0, ss_reg = 0\<rparr>"

text \<open>A memory that holds the literals, one after the other from address 0.\<close>

definition literal_data :: "u8 list" where
  "literal_data = concat (map (\<lambda>t. bytes_of t @ [0]) fault_literals)"

lemma literal_data_bytes: "literal_data = [119, 114, 105, 116, 101, 0, 114, 101, 97, 100, 0, 112, 114, 111, 116, 101, 99, 116, 105, 111, 110, 0, 110, 111, 110, 45, 112, 114, 101, 115, 101, 110, 116, 0, 117, 115, 101, 114, 0, 115, 117, 112, 101, 114, 118, 105, 115, 111, 114, 0, 105, 110, 115, 116, 114, 117, 99, 116, 105, 111, 110, 32, 102, 101, 116, 99, 104, 0, 100, 97, 116, 97, 32, 97, 99, 99, 101, 115, 115, 0]"
  by (simp add: literal_data_def fault_literals_def)

lemma cstring_at:
  assumes "\<And>a. m a = (if unat a < length d then d ! unat a else 0)" "n + length bs < length d"
    "take (length bs) (drop n d) = bs" "d ! (n + length bs) = 0" "0 \<notin> set bs" "length d < 4294967296"
  shows "cstring m (of_nat n) bs"
  unfolding cstring_iff
proof (intro conjI allI impI)
  have u: "unat (of_nat n + of_nat i :: u32) = n + i" if "i \<le> length bs" for i
    using that assms(2,6) by (simp add: unat_of_nat_u32 flip: of_nat_add)
  show "m (of_nat n + of_nat i) = bs ! i" if "i < length bs" for i
  proof -
    have "bs ! i = d ! (n + i)"
      using that assms(2,3) by (metis nth_drop nth_take add_lessD1 less_imp_le_nat)
    with that assms(1,2) u [of i] show ?thesis by simp
  qed
  show "m (of_nat n + of_nat (length bs)) = 0"
    using assms(1,2,4) u [of "length bs"] by simp
qed (rule assms(5))

definition demo_fault :: vmm where
  "demo_fault = reset_vmm\<lparr>mem := \<lambda>a. if unat a < length literal_data then literal_data ! unat a else 0,
     lit := \<lambda>t. if t = ''write'' then 0 else if t = ''read'' then 6 else if t = ''protection'' then 11
       else if t = ''non-present'' then 22 else if t = ''user'' then 34 else if t = ''supervisor'' then 39
       else if t = ''instruction fetch'' then 50 else 68\<rparr>"

lemma demo_fault_literals: "literals_in demo_fault fault_literals"
proof -
  have d: "cstring (mem demo_fault) (of_nat n) bs"
    if "n + length bs < length literal_data" "take (length bs) (drop n literal_data) = bs"
      "literal_data ! (n + length bs) = 0" "0 \<notin> set bs" for n bs
    using that by (intro cstring_at [where d = literal_data])
      (simp_all add: demo_fault_def literal_data_bytes)
  have c: "cstring (mem demo_fault) 0 (bytes_of ''write'')"
    "cstring (mem demo_fault) 6 (bytes_of ''read'')"
    "cstring (mem demo_fault) 11 (bytes_of ''protection'')"
    "cstring (mem demo_fault) 22 (bytes_of ''non-present'')"
    "cstring (mem demo_fault) 34 (bytes_of ''user'')"
    "cstring (mem demo_fault) 39 (bytes_of ''supervisor'')"
    "cstring (mem demo_fault) 50 (bytes_of ''instruction fetch'')"
    "cstring (mem demo_fault) 68 (bytes_of ''data access'')"
    using d [of 0 "bytes_of ''write''"]
      d [of 6 "bytes_of ''read''"]
      d [of 11 "bytes_of ''protection''"]
      d [of 22 "bytes_of ''non-present''"]
      d [of 34 "bytes_of ''user''"]
      d [of 39 "bytes_of ''supervisor''"]
      d [of 50 "bytes_of ''instruction fetch''"]
      d [of 68 "bytes_of ''data access''"]
    by (simp_all only: literal_data_bytes) simp_all
  have l: "lit demo_fault ''write'' = 0"
    "lit demo_fault ''read'' = 6"
    "lit demo_fault ''protection'' = 11"
    "lit demo_fault ''non-present'' = 22"
    "lit demo_fault ''user'' = 34"
    "lit demo_fault ''supervisor'' = 39"
    "lit demo_fault ''instruction fetch'' = 50"
    "lit demo_fault ''data access'' = 68"
    by (simp_all add: demo_fault_def)
  show ?thesis
    unfolding literals_in_def fault_literals_def list.set ball_simps l
    by (intro conjI c TrueI)
qed

lemma page_fault_halts_witness:
  "page_fault_handler demo_registers demo_fault = Some (Inl Halted) \<and>
    (\<exists>pre. page_fault_report demo_registers demo_fault =
      Some (demo_fault\<lparr>con := term_write (pre @ bytes_of (fault_lines 2)) (con demo_fault)\<rparr>))"
  using page_fault_halts [OF demo_fault_literals, of demo_registers] by (simp add: demo_registers_def)

end
