(* ===== verification/Boot_Props.thy ===== *)
theory Boot_Props
  imports Paging_Props
begin

text \<open>
  The properties of the processor tables and the interrupt hardware: what the segment and gate
  descriptors decode to, which handler an interrupt reaches, and the state that the port accesses
  of \<open>pic.cpp\<close> and \<open>timer.cpp\<close> leave in the devices.
\<close>

section \<open>Descriptor tables\<close>

lemma init_gdt_steps:
  assumes "length (gdt s) = 5"
  shows "returns (init_gdt s) (\<lambda>s'. length (gdt s') = 5 \<and>
     gdt s' = set_gdt_entry 4 0 0xFFFFF 0xF2 0xCF (set_gdt_entry 3 0 0xFFFFF 0xFA 0xCF
       (set_gdt_entry 2 0 0xFFFFF 0x92 0xCF (set_gdt_entry 1 0 0xFFFFF 0x9A 0xCF (set_gdt_entry 0 0 0 0 0 (gdt s))))) \<and>
     gdtr s' = \<lparr>gdt_limit = 39, gdt_base = sym s ''gdt''\<rparr> \<and> data_selector s' = 0x10 \<and> code_selector s' = 0x08)"
  unfolding init_gdt_def Let_def
  apply (rule printf_step, simp, rule prints_refl)
  apply (auto simp: prints_def gdt_flush_def set_gdt_entry_other assms)
  done

definition flat_segment :: "u8 \<Rightarrow> gdt_entry \<Rightarrow> bool" where
  "flat_segment acc e \<longleftrightarrow> access_byte e = acc \<and> seg_base e = 0 \<and> seg_last e = 0xFFFFFFFF \<and> seg_present e"

lemma set_flat_segment:
  assumes "i < length table" "bit acc 7"
  shows "flat_segment acc (set_gdt_entry i 0 0xFFFFF acc 0xCF table ! i)"
proof -
  note f = set_gdt_entry_fields [OF assms(1), of 0 "0xFFFFF" acc "0xCF"]
  have lim: "seg_limit (set_gdt_entry i 0 0xFFFFF acc 0xCF table ! i) = 0xFFFFF"
    by (rule set_gdt_entry_fields(3) [OF assms(1)]) simp
  have "bit (granularity (set_gdt_entry i 0 0xFFFFF acc 0xCF table ! i)) 7 =
      bit (drop_bit 4 (granularity (set_gdt_entry i 0 0xFFFFF acc 0xCF table ! i))) 3"
    by (simp add: bit_drop_bit_eq)
  also have "\<dots> \<longleftrightarrow> True"
    unfolding f(4) by (simp add: bit_numeral_rec)
  finally show ?thesis
    using f(1,2) lim assms(2) by (simp add: flat_segment_def seg_last_def seg_present_def)
qed

text \<open>A machine before the tables are set up, for the witnesses.\<close>

definition reset_boot :: vmm where
  "reset_boot = reset_vmm\<lparr>gdt := replicate 5 blank_gdt_entry,
     idt := replicate 256 (make_gate 0 0 0)\<rparr>"

text \<open>
  An entry that \<open>set_gdt_entry\<close> writes decodes to the base, the 20-bit limit, the access byte and
  the flags that were passed; the other entries are unchanged.
\<close>

theorem gdt_entry_roundtrip:
  assumes "i < length table" "drop_bit 20 limit = 0"
  shows "seg_base (set_gdt_entry i base limit acc gran table ! i) = base \<and>
    seg_limit (set_gdt_entry i base limit acc gran table ! i) = limit \<and>
    access_byte (set_gdt_entry i base limit acc gran table ! i) = acc \<and>
    drop_bit 4 (granularity (set_gdt_entry i base limit acc gran table ! i)) = drop_bit 4 gran \<and>
    (\<forall>j. j \<noteq> i \<longrightarrow> set_gdt_entry i base limit acc gran table ! j = table ! j)"
  using set_gdt_entry_fields [OF assms(1)] assms(2) by (simp add: set_gdt_entry_other)

lemma gdt_entry_roundtrip_witness:
  "seg_base (set_gdt_entry 1 0x12345678 0xABCDE 0x9A 0xCF (replicate 5 blank_gdt_entry) ! 1) = 0x12345678 \<and>
    seg_limit (set_gdt_entry 1 0x12345678 0xABCDE 0x9A 0xCF (replicate 5 blank_gdt_entry) ! 1) = 0xABCDE"
  using gdt_entry_roundtrip [of 1 "replicate 5 blank_gdt_entry" "0xABCDE" "0x12345678" "0x9A" "0xCF"] by simp

text \<open>
  After \<open>init_gdt\<close> the descriptor table register covers exactly the five entries; entry 0 is
  absent, entries 1 to 4 are the flat 4 GiB code and data segments of ring 0 and of ring 3, and the
  selectors in use are those of ring 0.
\<close>

theorem init_gdt_flat:
  assumes "length (gdt s) = 5"
  shows "\<exists>s'. init_gdt s = Some s' \<and> unat (gdt_limit (gdtr s')) + 1 = 8 * length (gdt s') \<and>
    \<not> seg_present (gdt s' ! 0) \<and> flat_segment 0x9A (gdt s' ! 1) \<and> flat_segment 0x92 (gdt s' ! 2) \<and>
    flat_segment 0xFA (gdt s' ! 3) \<and> flat_segment 0xF2 (gdt s' ! 4) \<and>
    code_selector s' = 8 * 1 \<and> data_selector s' = 8 * 2"
proof -
  obtain s' where s': "init_gdt s = Some s'" "length (gdt s') = 5"
    "gdt s' = set_gdt_entry 4 0 0xFFFFF 0xF2 0xCF (set_gdt_entry 3 0 0xFFFFF 0xFA 0xCF
       (set_gdt_entry 2 0 0xFFFFF 0x92 0xCF (set_gdt_entry 1 0 0xFFFFF 0x9A 0xCF (set_gdt_entry 0 0 0 0 0 (gdt s)))))"
    "gdtr s' = \<lparr>gdt_limit = 39, gdt_base = sym s ''gdt''\<rparr>" "data_selector s' = 0x10" "code_selector s' = 0x08"
    using init_gdt_steps [OF assms] by (auto elim: returnsE)
  have "access_byte (gdt s' ! 0) = 0"
    unfolding s'(3) using set_gdt_entry_fields(2) [of 0 "gdt s" 0 0 0 0] assms by (simp add: set_gdt_entry_other)
  moreover have "flat_segment 0x9A (gdt s' ! 1)" "flat_segment 0x92 (gdt s' ! 2)"
    "flat_segment 0xFA (gdt s' ! 3)" "flat_segment 0xF2 (gdt s' ! 4)"
    unfolding s'(3) using assms
    by (simp_all add: set_gdt_entry_other set_flat_segment bit_numeral_rec)
  ultimately show ?thesis
    using s'(1,2,4-6) by (simp add: seg_present_def)
qed

lemma init_gdt_flat_witness:
  "\<exists>s'. init_gdt reset_boot = Some s' \<and> flat_segment 0x9A (gdt s' ! 1) \<and> code_selector s' = 8"
  using init_gdt_flat [of reset_boot] by (auto simp: reset_boot_def)

text \<open>
  C29: after \<open>init_idt\<close> the vectors 0 to 31 and 32 to 47 are interrupt gates of privilege level 0,
  through the kernel's code selector, to the assembly stubs of the exceptions and of the IRQs; the
  remaining gates, cleared as the comment says, are marked present all the same, with address 0 and
  the null selector. No gate can be used by \<open>int\<close> from outside ring 0.
\<close>

theorem init_idt_vectors:
  assumes "length (idt s) = 256" "n < 256"
  shows "gate_present (idt (init_idt s) ! n) \<and> gate_dpl (idt (init_idt s) ! n) = 0 \<and>
    (if n < 48 then interrupt_gate (idt (init_idt s) ! n) \<and> selector (idt (init_idt s) ! n) = 0x08 \<and>
       gate_offset (idt (init_idt s) ! n) =
         (if n < 32 then load32 (mem s) (sym s ''isr_stub_table'' + 4 * of_nat n)
          else load32 (mem s) (sym s ''irq_stub_table'' + 4 * of_nat (n - 32)))
     else gate_offset (idt (init_idt s) ! n) = 0 \<and> selector (idt (init_idt s) ! n) = 0) \<and>
    unat (idt_limit (idtr (init_idt s))) + 1 = 8 * length (idt (init_idt s))"
proof -
  have "idtr (init_idt s) = \<lparr>idt_limit = 2047, idt_base = sym s ''idt''\<rparr>"
    by (simp add: init_idt_def load_idt_def Let_def)
  then show ?thesis
    using init_idt_gates [OF assms]
    by (simp add: idt_wanted_def gate_present_def gate_dpl_def interrupt_gate_def bit_numeral_rec bit_or_iff)
qed

lemma init_idt_vectors_witness:
  "gate_present (idt (init_idt reset_boot) ! 200) \<and> selector (idt (init_idt reset_boot) ! 33) = 8 \<and>
    gate_dpl (idt (init_idt reset_boot) ! 33) = 0"
  using init_idt_vectors [of reset_boot 200] init_idt_vectors [of reset_boot 33]
  by (simp add: reset_boot_def)

section \<open>Dispatch\<close>

text \<open>
  C27: a processor exception never returns to the interrupted code: whatever handler is
  registered, \<open>isr_handler\<close> ends in a halt or in the handler's own fault, and with no handler it
  halts.
\<close>

theorem exceptions_do_not_return:
  assumes "int_no regs < 32"
  shows "(\<forall>s'. isr_handler call regs s \<noteq> Some (Inr s')) \<and>
    (interrupt_handlers s (ucast (int_no regs)) = None \<longrightarrow> isr_handler call regs s = Some (Inl Halted))"
proof -
  obtain s1 where s1: "printf ''ISR Exception: Interrupt %d, Error Code: %d\<newline>'' [int_no regs, err_code regs] s = Some s1"
    "prints s s1"
    using printf_last [of "''ISR Exception: Interrupt %d, Error Code: %d\<newline>''" "[int_no regs, err_code regs]" s s "prints s"]
    by (auto elim: returnsE)
  have h: "interrupt_handlers s1 = interrupt_handlers s"
    using s1(2) by (auto elim: printsE)
  have n: "\<not> 256 \<le> int_no regs"
    using assms by (simp add: word_le_nat_alt word_less_nat_alt)
  have stop: "fbind (fret (printf ''Critical CPU Exception! Halting...\<newline>'' [] u)) (\<lambda>s. Some (Inl Halted)) = Some (Inl Halted)" for u :: "'a isr_state_scheme"
    by (simp add: printf_plain)
  have step: "isr_handler call regs s = fbind (call_handler call regs s1) (\<lambda>s. Some (Inl Halted))"
    using assms by (simp add: isr_handler_def s1(1) stop)
  have "fbind r (\<lambda>s. Some (Inl Halted)) \<noteq> Some (Inr s')" for r :: "(fault + 'a isr_state_scheme) option" and s' :: "'a isr_state_scheme"
    by (auto simp: fbind_def split: option.splits sum.splits)
  then have "isr_handler call regs s \<noteq> Some (Inr s')" for s'
    unfolding step by blast
  moreover have "isr_handler call regs s = Some (Inl Halted)" if "interrupt_handlers s (ucast (int_no regs)) = None"
    using n that by (simp add: step call_handler_def h)
  ultimately show ?thesis by blast
qed

lemma exceptions_do_not_return_witness:
  "isr_handler (\<lambda>_ _ s. Some (Inr s)) demo_registers reset_vmm = Some (Inl Halted)"
  using exceptions_do_not_return [of demo_registers "\<lambda>_ _ s. Some (Inr s)" reset_vmm]
  by (simp add: demo_registers_def reset_vmm_def)

text \<open>
  C28: for every hardware interrupt the end-of-interrupt command goes out before the handler runs,
  once to the master and for IRQ 8 to 15 once to the slave, then exactly the registered handler
  is called, on a machine that is otherwise unchanged.
\<close>

theorem irq_acknowledges_then_calls:
  assumes "32 \<le> int_no regs" "int_no regs < 48"
  shows "\<exists>s1. irq_handler call regs s =
      (case interrupt_handlers s (ucast (int_no regs)) of Some h \<Rightarrow> call h regs s1 | None \<Rightarrow> Some (Inr s1)) \<and>
    eois (pic_state 0x20 (io_log (con s1))) = eois (pic_state 0x20 (io_log (con s))) + 1 \<and>
    eois (pic_state 0xA0 (io_log (con s1))) =
      eois (pic_state 0xA0 (io_log (con s))) + (if 40 \<le> int_no regs then 1 else 0) \<and>
    s1\<lparr>con := con s\<rparr> = s"
proof -
  let ?s1 = "port_out 0x20 0x20 (if 40 \<le> int_no regs then port_out 0xA0 0x20 s else s)"
  have n: "\<not> 256 \<le> int_no regs"
    using assms(2) by (simp add: word_le_nat_alt word_less_nat_alt)
  have "irq_handler call regs s = call_handler call regs ?s1"
    using assms(1) by (simp add: irq_handler_def Let_def)
  moreover have "interrupt_handlers ?s1 = interrupt_handlers s"
    by simp
  moreover have "?s1\<lparr>con := con s\<rparr> = s"
    by (simp add: port_out_def)
  ultimately show ?thesis
    using n by (intro exI [of _ ?s1]) (simp add: call_handler_def bit_eoi)
qed

lemma irq_acknowledges_then_calls_witness:
  "\<exists>s1. irq_handler (\<lambda>_ _ s. Some (Inr s)) (demo_registers\<lparr>int_no := 44\<rparr>) reset_vmm = Some (Inr s1) \<and>
    eois (pic_state 0xA0 (io_log (con s1))) = 1"
  using irq_acknowledges_then_calls [of "demo_registers\<lparr>int_no := 44\<rparr>" "\<lambda>_ _ s. Some (Inr s)" reset_vmm]
  by (auto simp: reset_vmm_def pic_state_def)

section \<open>Devices\<close>

text \<open>
  \<open>pic_remap\<close> leaves both controllers operational with the vector offsets 32 and 40 and the
  cascade on line 2, and with the interrupt masks that they had before.
\<close>

theorem pic_remap_offsets:
  assumes "masks_readable (io_dev (con s))"
  defines "log' \<equiv> io_log (con (pic_remap s))"
  shows "pic_state 0x20 log' = \<lparr>expects = 0, vector_offset = 32, cascade_byte = 4, icw4 = 1,
      imr = imr (pic_state 0x20 (io_log (con s))), eois = eois (pic_state 0x20 (io_log (con s)))\<rparr> \<and>
    pic_state 0xA0 log' = \<lparr>expects = 0, vector_offset = 40, cascade_byte = 2, icw4 = 1,
      imr = imr (pic_state 0xA0 (io_log (con s))), eois = eois (pic_state 0xA0 (io_log (con s)))\<rparr>"
proof -
  have dev: "io_dev (con s) log 0x21 = imr (pic_state 0x20 log)" "io_dev (con s) log 0xA1 = imr (pic_state 0xA0 log)" for log
    using assms(1) by (auto simp: masks_readable_def)
  show ?thesis
    by (simp add: log'_def pic_remap_def Let_def port_in_def inb_def dev bit_icw1 split: prod.splits)
qed

text \<open>Devices whose mask registers can be read.\<close>

definition pic_devices :: "io_event list \<Rightarrow> u16 \<Rightarrow> u8" where
  "pic_devices log p = (if p = 0x21 then imr (pic_state 0x20 log)
     else if p = 0xA1 then imr (pic_state 0xA0 log) else 0)"

definition reset_pic :: vmm where
  "reset_pic = reset_vmm\<lparr>con := (con reset_vmm)\<lparr>io_dev := pic_devices, io_log := [Out 0x21 0xB8]\<rparr>\<rparr>"

lemma reset_pic_masks: "masks_readable (io_dev (con reset_pic))"
  by (simp add: masks_readable_def reset_pic_def pic_devices_def)

lemma pic_remap_offsets_witness:
  "vector_offset (pic_state 0x20 (io_log (con (pic_remap reset_pic)))) = 32 \<and>
    imr (pic_state 0x20 (io_log (con (pic_remap reset_pic)))) = 0xB8"
  using pic_remap_offsets [OF reset_pic_masks] by (simp add: reset_pic_def pic_state_def)

text \<open>
  \<open>pic_unmask_irq\<close> clears the mask bit of its line and no other bit of either controller, and on
  controllers that read back as written it prints no error.
\<close>

theorem pic_unmask_one_line:
  assumes "masks_readable (io_dev (con s))" "irq < 16"
    and "expects (pic_state 0x20 (io_log (con s))) = 0" "expects (pic_state 0xA0 (io_log (con s))) = 0"
  shows "\<exists>s'. pic_unmask_irq irq s = Some s' \<and> tbuf (con s') = tbuf (con s) \<and>
    (\<forall>n. bit (imr (pic_state 0x20 (io_log (con s')))) n \<longleftrightarrow>
      bit (imr (pic_state 0x20 (io_log (con s)))) n \<and> n \<noteq> unat irq) \<and>
    (\<forall>n. bit (imr (pic_state 0xA0 (io_log (con s')))) n \<longleftrightarrow>
      bit (imr (pic_state 0xA0 (io_log (con s)))) n \<and> n + 8 \<noteq> unat irq)"
proof -
  have dev: "io_dev (con s) log 0x21 = imr (pic_state 0x20 log)" "io_dev (con s) log 0xA1 = imr (pic_state 0xA0 log)" for log
    using assms(1) by (auto simp: masks_readable_def)
  have mask: "bit (ucast (push_bit k (1 :: u32)) :: u8) n \<longleftrightarrow> n = k" if "k < 8" for k n
    using that by (auto simp: bit_simps)
  have clr: "(x AND NOT b) AND b = (0 :: u8)" for x b
    by (rule bit_word_eqI) (auto simp: bit_simps)
  have crt: "tbuf (outb p v t) = tbuf t" for p v and t :: terminal
    by (simp add: outb_def)
  have len: "bit (x :: u8) n \<Longrightarrow> n < 8" for x n
    using bit_imp_le_length [of x n] by simp
  show ?thesis
  proof (cases "irq < 8")
    case True
    then have k: "unat irq < 8" by (simp add: word_less_nat_alt)
    have "n + 8 \<noteq> unat irq" for n using k by simp
    with True show ?thesis
      using mask [OF k] assms(3)
      by (auto simp: pic_unmask_irq_def Let_def port_in_def inb_def dev clr crt bit_and_iff bit_not_iff dest: len)
  next
    case False
    then have u: "unat (irq - 8) = unat irq - 8" "8 \<le> unat irq" "unat irq < 16"
      using assms(2) by (simp_all add: word_less_nat_alt unat_sub word_le_nat_alt)
    then have k: "unat (irq - 8) < 8" by simp
    have "n \<noteq> unat irq" if "bit (x :: u8) n" for x n using len [OF that] u by simp
    moreover have "n + 8 \<noteq> unat irq \<longleftrightarrow> n \<noteq> unat irq - 8" for n using u by auto
    ultimately show ?thesis
      using False mask [OF k] assms(4) u
      by (auto simp: pic_unmask_irq_def Let_def port_in_def inb_def dev clr crt bit_and_iff bit_not_iff dest: len)
  qed
qed

lemma pic_unmask_one_line_witness:
  "\<exists>s'. pic_unmask_irq 3 reset_pic = Some s' \<and> \<not> bit (imr (pic_state 0x20 (io_log (con s')))) 3 \<and>
    bit (imr (pic_state 0x20 (io_log (con s')))) 4"
proof -
  have "expects (pic_state 0x20 (io_log (con reset_pic))) = 0" "expects (pic_state 0xA0 (io_log (con reset_pic))) = 0"
    by (simp_all add: reset_pic_def pic_state_def)
  then obtain s' where s': "pic_unmask_irq 3 reset_pic = Some s'"
    "\<And>n. bit (imr (pic_state 0x20 (io_log (con s')))) n \<longleftrightarrow> bit (imr (pic_state 0x20 (io_log (con reset_pic)))) n \<and> n \<noteq> 3"
    using pic_unmask_one_line [OF reset_pic_masks, of 3] by auto
  moreover have "bit (imr (pic_state 0x20 (io_log (con reset_pic)))) 4"
    by (simp add: reset_pic_def pic_state_def bit_numeral_rec)
  ultimately show ?thesis by auto
qed

text \<open>
  \<open>init_timer\<close> programs counter 0 with the divisor of the requested frequency, low byte first,
  and installs the tick handler, for every frequency whose divisor has 16 bits; frequency 0 divides
  by zero.
\<close>

theorem init_timer_reload:
  "init_timer 0 s = Some (Inl DivideError) \<and>
   (19 \<le> f \<longrightarrow> (\<exists>s'. init_timer f s = Some (Inr s') \<and>
     unat (reload (pit_state (io_log (con s')))) = 1193180 div unat f \<and>
     interrupt_handlers s' 32 = Some Timer_handler))"
proof (intro conjI impI)
  show "init_timer 0 s = Some (Inl DivideError)"
    by (simp add: init_timer_def)
  assume f: "19 \<le> f"
  let ?d = "1193180 div f"
  let ?s1 = "register_interrupt_handler 32 Timer_handler (port_out 0x40 (ucast (drop_bit 8 ?d AND 0xFF))
    (port_out 0x40 (ucast (?d AND 0xFF)) (port_out 0x43 0x36 s)))"
  obtain s' where s': "printf ''[TIMER] Timer initialized to %d Hz\<newline>'' [f] ?s1 = Some s'" "prints ?s1 s'"
    using printf_last [of "''[TIMER] Timer initialized to %d Hz\<newline>''" "[f]" ?s1 ?s1 "prints ?s1"]
    by (auto elim: returnsE)
  obtain out where out: "s' = ?s1\<lparr>con := term_write out (con ?s1)\<rparr>"
    using s'(2) by (rule printsE)
  have nz: "f \<noteq> 0"
    using f by auto
  have "unat ?d = 1193180 div unat f"
    by (simp add: unat_div)
  moreover have "unat f \<ge> 19"
    using f by (simp add: word_le_nat_alt)
  then have "1193180 div unat f \<le> 1193180 div 19"
    by (rule div_le_mono2 [rotated]) simp
  then have "1193180 div unat f < 65536" by simp
  ultimately have d: "unat (ucast ?d :: u16) = 1193180 div unat f"
    by (simp add: unsigned_ucast_eq take_bit_eq_mod)
  have "pit_state (io_log (con s')) = pit_state (io_log (con ?s1))"
    unfolding out using extends_crt_pit [OF term_write_crt] by simp
  also have "reload (pit_state (io_log (con ?s1))) = ucast ?d"
    by (simp add: register_interrupt_handler_def pit_bytes)
  finally have "unat (reload (pit_state (io_log (con s')))) = 1193180 div unat f"
    using d by simp
  moreover have "init_timer f s = Some (Inr s')"
    using nz s'(1) by (simp add: init_timer_def Let_def)
  moreover have "interrupt_handlers s' 32 = Some Timer_handler"
    unfolding out by (simp add: register_interrupt_handler_def)
  ultimately show "\<exists>s'. init_timer f s = Some (Inr s') \<and>
     unat (reload (pit_state (io_log (con s')))) = 1193180 div unat f \<and>
     interrupt_handlers s' 32 = Some Timer_handler"
    by blast
qed

lemma init_timer_reload_witness:
  "\<exists>s'. init_timer 1000 reset_vmm = Some (Inr s') \<and> unat (reload (pit_state (io_log (con s')))) = 1193"
  using init_timer_reload [of reset_vmm 1000] by auto

end
