(* ===== verification/Heap_Props.thy ===== *)
theory Heap_Props
  imports Heap_Rep
begin

text \<open>
  The properties of the kernel heap, over the functions of \<open>Heap\<close>; each rests on the refinement
  lemmas of \<open>Heap_Rep\<close> and on the interpretation \<open>kheap\<close> of the allocator's contract.
\<close>

section \<open>Properties\<close>

text \<open>A concrete machine, for the witnesses: blank memory, devices that answer 0.\<close>

definition reset_heap :: heap where
  "reset_heap = \<lparr>con = \<lparr>io_dev = \<lambda>_ _. 0, io_devw = \<lambda>_ _. 0, io_log = [], trow = 0, tcol = 0,
     tcolor = 7, tbuf = \<lambda>_. 0\<rparr>, mem = \<lambda>_. 0, sym = \<lambda>_. 0, lit = \<lambda>_. 0,
     gdt = [], gdt_desc = \<lparr>gdt_limit = 0, gdt_base = 0\<rparr>, gdtr = \<lparr>gdt_limit = 0, gdt_base = 0\<rparr>,
     data_selector = 0, code_selector = 0, idt = [], idt_desc = \<lparr>idt_limit = 0, idt_base = 0\<rparr>,
     idtr = \<lparr>idt_limit = 0, idt_base = 0\<rparr>, interrupt_handlers = \<lambda>_. None, timer_ticks = 0,
     cr0 = 0, cr2 = 0, cr3 = 0, interrupts_on = False, free_list = 0\<rparr>"

lemma reset_heap_rep:
  obtains s where "init_heap reset_heap = Some s" "heap_rep s [(KERNEL_HEAP_SIZE - 12, True)]"
  using init_heap_rep [of reset_heap] by auto

text \<open>
  C4: whatever a client of the heap does with \<open>kmalloc\<close>, \<open>kfree\<close> and stores into the blocks it
  owns, every call returns, the heap stays well formed, the client's blocks never overlap and lie
  in the heap, and each block still holds the last byte that the client stored at each offset.
\<close>

theorem heap_client_isolated:
  assumes "heap_rep s bs" and "\<forall>x \<in> set ops. sane_op x"
  shows "\<exists>s' own sh bs'. client_run mem (\<lambda>m s. s\<lparr>mem := m\<rparr>) kmalloc kfree ops (s, [], \<lambda>_. None) =
      Some (s', own, sh) \<and> heap_rep s' bs' \<and> owns (heap_live bs') own \<and> holds_shadow (mem s') own sh \<and>
      (\<forall>(p, n) \<in> set own. \<forall>(q, l) \<in> set own. p \<noteq> q \<longrightarrow> apart p n q l)"
proof -
  have "owns (heap_live bs) []" "holds_shadow (mem s) [] (\<lambda>_. None)"
    by (simp_all add: owns_def holds_shadow_def)
  with assms(1) have "kheap.good (s, [], \<lambda>_. None)"
    by auto
  then obtain c where c: "client_run mem (\<lambda>m s. s\<lparr>mem := m\<rparr>) kmalloc kfree ops (s, [], \<lambda>_. None) = Some c"
    "kheap.good c"
    using kheap.client_run_ok [of ops "(s, [], \<lambda>_. None)"] assms(2) by auto
  obtain s' own sh where "c = (s', own, sh)" by (cases c)
  with c show ?thesis
    using kheap.owned_apart by fastforce
qed

lemma heap_client_isolated_witness:
  "\<exists>s s' own sh bs'. init_heap reset_heap = Some s \<and>
    client_run mem (\<lambda>m s. s\<lparr>mem := m\<rparr>) kmalloc kfree
      [Get 64, Get 128, Store 0x80000C 5 42, Put 0x800058, Get 0x10000] (s, [], \<lambda>_. None) =
      Some (s', own, sh) \<and> heap_rep s' bs' \<and> owns (heap_live bs') own \<and> holds_shadow (mem s') own sh \<and>
      (\<forall>(p, n) \<in> set own. \<forall>(q, l) \<in> set own. p \<noteq> q \<longrightarrow> apart p n q l)"
  by (rule reset_heap_rep, frule heap_client_isolated
      [of _ _ "[Get 64, Get 128, Store 0x80000C 5 42, Put 0x800058, Get 0x10000]"])
    (simp, blast)

text \<open>
  C5: \<open>kmalloc\<close> is first fit. For a nonzero size, it returns the payload of the first free block
  that is large enough for the rounded size, split when 28 bytes or more are left over, with
  everything else unchanged; if no free block is large enough it returns NULL and the heap is
  unchanged.
\<close>

theorem kmalloc_first_fit:
  assumes "heap_rep s bs" "n \<noteq> 0"
  shows "\<exists>out m'. kmalloc n s =
      Some (case first_fit (unat (align16 n)) KERNEL_HEAP_START bs of
          None \<Rightarrow> (0, heap_after s out (mem s))
        | Some (q, bs') \<Rightarrow> (of_nat q, heap_after s out m')) \<and>
    (case first_fit (unat (align16 n)) KERNEL_HEAP_START bs of
        None \<Rightarrow> \<forall>(k, f) \<in> set bs. f \<longrightarrow> k < unat (align16 n)
      | Some (q, bs') \<Rightarrow> heap_rep (heap_after s out m') bs' \<and> keeps heap_area (heap_live bs) (mem s) m')"
proof (cases "first_fit (unat (align16 n)) KERNEL_HEAP_START bs")
  case None
  then show ?thesis
    using kmalloc_none [OF assms None] first_fit_None [of "unat (align16 n)" KERNEL_HEAP_START bs] by auto
next
  case (Some r)
  obtain q bs' where "r = (q, bs')" by (cases r)
  with Some show ?thesis
    using kmalloc_some [OF assms] by auto
qed

lemma kmalloc_first_fit_witness:
  "\<exists>s out m'. init_heap reset_heap = Some s \<and> kmalloc 100 s = Some (0x80000C, heap_after s out m') \<and>
    heap_rep (heap_after s out m') [(112, False), (0x7FFF78, True)]"
proof (rule reset_heap_rep)
  fix s
  assume s: "init_heap reset_heap = Some s" "heap_rep s [(KERNEL_HEAP_SIZE - 12, True)]"
  have "unat (align16 100) = 112"
    by (simp add: unat_align16)
  then have "first_fit (unat (align16 100)) KERNEL_HEAP_START [(KERNEL_HEAP_SIZE - 12, True)] =
      Some (0x80000C, [(112, False), (0x7FFF78, True)])"
    by (simp add: use_block_def)
  with kmalloc_first_fit [OF s(2), of 100] s(1) show ?thesis
    by auto
qed

text \<open>
  C6: freeing an allocated block takes exactly that block out of the allocated ones, absorbs the
  block after it when that is free, and changes no other allocated byte.
\<close>

theorem kfree_releases:
  assumes "heap_rep s bs" "(q, k) \<in> set (payloads KERNEL_HEAP_START bs)"
  shows "\<exists>out m'. kfree (of_nat q) s = Some (heap_after s out m') \<and>
    heap_rep (heap_after s out m') (release q KERNEL_HEAP_START bs) \<and>
    set (payloads KERNEL_HEAP_START (release q KERNEL_HEAP_START bs)) =
      set (payloads KERNEL_HEAP_START bs) - {(q, k)} \<and>
    keeps heap_area (heap_live bs) (mem s) m'"
  using kfree_live [OF assms] release_payloads(2) [OF assms(2)] by blast

lemma two_blocks:
  obtains s out m' where "init_heap reset_heap = Some s" "kmalloc 100 s = Some (0x80000C, heap_after s out m')"
    "heap_rep (heap_after s out m') [(112, False), (0x7FFF78, True)]"
proof (rule reset_heap_rep)
  fix s
  assume s: "init_heap reset_heap = Some s" "heap_rep s [(KERNEL_HEAP_SIZE - 12, True)]"
  have "unat (align16 100) = 112"
    by (simp add: unat_align16)
  then have "first_fit (unat (align16 100)) KERNEL_HEAP_START [(KERNEL_HEAP_SIZE - 12, True)] =
      Some (0x80000C, [(112, False), (0x7FFF78, True)])"
    by (simp add: use_block_def)
  then show thesis
    using that kmalloc_some [OF s(2), of 100] s(1) by auto
qed

lemma kfree_releases_witness:
  "\<exists>s s' out m'. init_heap reset_heap = Some s \<and> kmalloc 100 s = Some (0x80000C, s') \<and>
    kfree 0x80000C s' = Some (heap_after s' out m') \<and>
    heap_rep (heap_after s' out m') [(KERNEL_HEAP_SIZE - 12, True)]"
proof (rule two_blocks)
  fix s out m'
  assume "init_heap reset_heap = Some s" "kmalloc 100 s = Some (0x80000C, heap_after s out m')"
    and rep: "heap_rep (heap_after s out m') [(112, False), (0x7FFF78, True)]"
  with kfree_releases [OF rep, of "0x80000C" 112] show ?thesis
    by (fastforce simp: merge_next_def)
qed

text \<open>
  C7: \<open>krealloc\<close> of an allocated block returns a block that is large enough and begins with the
  old block's bytes, in its place or in a fresh one with the old one freed; on failure it returns
  NULL and the old block stays. No other allocated byte changes.
\<close>

theorem krealloc_keeps_contents:
  assumes "heap_rep s bs" "(p, k) \<in> heap_live bs" "0 < n" "n \<le> 0xFFFFFFF0"
  shows "\<exists>r s' bs'. krealloc p n s = Some (r, s') \<and> heap_rep s' bs' \<and>
    keeps heap_area (heap_live bs - {(p, k)}) (mem s) (mem s') \<and>
    bytes_at (mem s') (if r = 0 then p else r) k = bytes_at (mem s) p k \<and>
    (if r = 0 then heap_live bs' = heap_live bs
     else (\<forall>i. (r, i) \<notin> heap_live bs - {(p, k)}) \<and>
       (\<exists>j \<ge> unat n. heap_live bs' = insert (r, j) (heap_live bs - {(p, k)})))"
  by (rule krealloc_ok [OF assms])

lemma krealloc_keeps_contents_witness:
  "\<exists>s s1 r s' bs'. init_heap reset_heap = Some s \<and> kmalloc 100 s = Some (0x80000C, s1) \<and>
    krealloc 0x80000C 5000 s1 = Some (r, s') \<and> heap_rep s' bs' \<and>
    bytes_at (mem s') (if r = 0 then 0x80000C else r) 112 = bytes_at (mem s1) 0x80000C 112"
proof (rule two_blocks)
  fix s out m'
  assume "init_heap reset_heap = Some s" "kmalloc 100 s = Some (0x80000C, heap_after s out m')"
    and rep: "heap_rep (heap_after s out m') [(112, False), (0x7FFF78, True)]"
  moreover have "(0x80000C, 112) \<in> heap_live [(112, False), (0x7FFF78, True)]"
    by (simp add: heap_live_def)
  ultimately show ?thesis
    using krealloc_keeps_contents [OF rep, of "0x80000C" 112 5000] by fastforce
qed

text \<open>
  C31: the comment at \<open>align16\<close> says that it ensures 16-byte alignment; what it aligns is the size.
  Every pointer that \<open>kmalloc\<close> returns is a multiple of 4, and the very first one is 12 modulo 16.
\<close>

theorem kmalloc_alignment:
  assumes "heap_rep s bs" "kmalloc n s = Some (p, s')"
  shows "4 dvd unat p \<and> (bs = [(KERNEL_HEAP_SIZE - 12, True)] \<and> p \<noteq> 0 \<longrightarrow> unat p mod 16 = 12)"
proof (cases "n = 0 \<or> first_fit (unat (align16 n)) KERNEL_HEAP_START bs = None")
  case True
  have "p = 0"
  proof (cases "n = 0")
    case True
    then show ?thesis using assms(2) by (simp add: kmalloc_def)
  next
    case False
    then show ?thesis using True kmalloc_none [OF assms(1) False] assms(2) by auto
  qed
  then show ?thesis by simp
next
  case False
  then obtain q bs' where some: "first_fit (unat (align16 n)) KERNEL_HEAP_START bs = Some (q, bs')"
    by auto
  then have p: "p = of_nat q"
    using kmalloc_some [OF assms(1) _ some] False assms(2) by auto
  have q: "q \<le> 0x1000000"
    using first_fit_address [OF assms(1) some] by simp
  obtain xs k ys where bs: "bs = xs @ (k, True) # ys" "q = KERNEL_HEAP_START + extent xs + 12"
    using first_fit_split [OF some] by blast
  then have "4 dvd q"
    using assms(1) words4_extent [of xs] by (simp add: heap_rep_def)
  moreover have "xs = []" if "bs = [(KERNEL_HEAP_SIZE - 12, True)]"
    using that bs(1) by (cases xs) auto
  moreover have "unat p = q"
    using q by (simp only: p) (rule unat_of_nat_u32, simp)
  ultimately show ?thesis
    using bs(2) by auto
qed

lemma kmalloc_alignment_witness:
  "\<exists>s s1. init_heap reset_heap = Some s \<and> kmalloc 100 s = Some (0x80000C, s1) \<and>
    4 dvd unat (0x80000C :: u32) \<and> unat (0x80000C :: u32) mod 16 = 12"
proof (rule reset_heap_rep)
  fix s
  assume s: "init_heap reset_heap = Some s" "heap_rep s [(KERNEL_HEAP_SIZE - 12, True)]"
  obtain s1 where s1: "kmalloc 100 s = Some (0x80000C, s1)"
    using two_blocks s(1) by (metis option.inject)
  with s kmalloc_alignment [OF s(2) s1] show ?thesis
    by auto
qed

text \<open>
  A request of more than \<open>0xFFFFFFF0\<close> bytes wraps to 0 in \<open>align16\<close>: while any block is free,
  \<open>kmalloc\<close> answers it with a non-NULL pointer to a block of at most 27 bytes.
\<close>

theorem kmalloc_huge_wraps:
  assumes "heap_rep s bs" "0xFFFFFFF0 < n" "(j, True) \<in> set bs"
  shows "\<exists>p k s' bs'. kmalloc n s = Some (p, s') \<and> p \<noteq> 0 \<and> heap_rep s' bs' \<and>
    (p, k) \<in> heap_live bs' \<and> k < 28"
proof -
  have "n \<noteq> 0" and al: "unat (align16 n) = 0"
    using assms(2) by (auto simp: align16_wrap)
  have "first_fit 0 KERNEL_HEAP_START bs \<noteq> None"
    using assms(3) by (auto simp: first_fit_None)
  then obtain q bs' where some: "first_fit (unat (align16 n)) KERNEL_HEAP_START bs = Some (q, bs')"
    unfolding al by auto
  obtain out m' where *: "kmalloc n s = Some (of_nat q, heap_after s out m')" "heap_rep (heap_after s out m') bs'"
    using kmalloc_some [OF assms(1) \<open>n \<noteq> 0\<close> some] by blast
  obtain k where k: "k < unat (align16 n) + 28"
    "set (payloads KERNEL_HEAP_START bs') = insert (q, k) (set (payloads KERNEL_HEAP_START bs))"
    using first_fit_payloads [OF some] by metis
  have "(of_nat q, k) \<in> heap_live bs'"
    using k(2) by (simp add: heap_live_insert)
  with * k(1) heap_live_area(1) [OF *(2)] al show ?thesis
    by fastforce
qed

lemma kmalloc_huge_wraps_witness:
  "\<exists>s p k s' bs'. init_heap reset_heap = Some s \<and> kmalloc 0xFFFFFFF8 s = Some (p, s') \<and> p \<noteq> 0 \<and>
    heap_rep s' bs' \<and> (p, k) \<in> heap_live bs' \<and> k < 28"
  by (rule reset_heap_rep, frule kmalloc_huge_wraps [of _ _ "0xFFFFFFF8" "KERNEL_HEAP_SIZE - 12"])
    (simp, simp, blast)

end
