(* ===== verification/System_Props.thy ===== *)
theory System_Props
  imports Kernel Boot_Props Heap_Props
begin

text \<open>
  The running system: what every interrupt leaves unchanged, whatever is typed, and that the
  system goes on. The rules \<open>ens\<close> step through an operation that may not return and say what holds
  if it does.
\<close>

section \<open>What operations leave unchanged\<close>

named_theorems frm \<open>what an operation leaves settled\<close>

text \<open>\<open>settled s0 s\<close>: only memory, console and the shell's directory differ.\<close>

definition settled :: "'a shell_scheme \<Rightarrow> 'a shell_scheme \<Rightarrow> bool" where
  "settled s0 s \<longleftrightarrow> s\<lparr>mem := mem s0, con := con s0, current_dir := current_dir s0\<rparr> = s0"

lemma settled_refl [simp, frm]: "settled s s"
  by (simp add: settled_def)

lemma settled_upd [frm]:
  "settled s0 s \<Longrightarrow> settled s0 (s\<lparr>mem := m\<rparr>)" "settled s0 s \<Longrightarrow> settled s0 (s\<lparr>con := c\<rparr>)"
  "settled s0 s \<Longrightarrow> settled s0 (s\<lparr>current_dir := d\<rparr>)"
  by (simp_all add: settled_def)

lemma settled_printf [frm]:
  "printf f args s = Some s' \<Longrightarrow> settled s0 s \<Longrightarrow> settled s0 s'"
  by (auto simp: printf_def intro: settled_upd)

lemma settled_kmalloc [frm]:
  "kmalloc n s = Some (p, s') \<Longrightarrow> settled s0 s \<Longrightarrow> settled s0 s'"
  by (auto simp: kmalloc_def Let_def bind_eq_Some_conv split: if_splits intro: frm)

lemma settled_create_node [frm]:
  assumes "fs_create_node name ty s = Some (p, s')" "settled s0 s"
  shows "settled s0 s'"
proof -
  obtain node s1 where k: "kmalloc NODE_SIZE s = Some (node, s1)"
    using assms(1) by (auto simp: fs_create_node_def bind_eq_Some_conv)
  let ?s2 = "s1\<lparr>mem := init_node node name ty (mem s1)\<rparr>"
  have s1: "settled s0 s1" and s2: "settled s0 ?s2"
    using k assms(2) by (auto intro: frm)
  show ?thesis
  proof (cases "node = 0 \<or> ty = FS_FILE")
    case True
    then show ?thesis
      using assms(1) s1 s2 by (auto simp: fs_create_node_def k Let_def split: if_splits)
  next
    case False
    then have ty: "ty = FS_DIRECTORY" by (cases ty) simp_all
    with False assms(1) obtain kids s3 where k': "kmalloc (4 * MAX_CHILDREN) ?s2 = Some (kids, s3)"
      by (auto simp: fs_create_node_def k Let_def bind_eq_Some_conv)
    have "settled s0 s3"
      using settled_kmalloc [OF k' s2] .
    then show ?thesis
      using False ty assms(1) k' by (auto simp: fs_create_node_def k Let_def intro: frm split: if_splits)
  qed
qed

lemma settled_add_child [frm]:
  "fs_add_child par child s = Some s' \<Longrightarrow> settled s0 s \<Longrightarrow> settled s0 s'"
  by (auto simp: fs_add_child_def split: if_splits intro: frm)

lemma settled_enter_dir [frm]: "settled s0 s \<Longrightarrow> settled s0 (enter_dir s)"
  by (simp add: enter_dir_def settled_upd)

lemma settled_ls_loop [frm]:
  "ls_loop is s = Some s' \<Longrightarrow> settled s0 s \<Longrightarrow> settled s0 s'"
  by (induction "is" s rule: ls_loop.induct) (auto simp: bind_eq_Some_conv Let_def split: if_splits intro: frm)

lemma settled_help_loop [frm]:
  "help_loop cs s = Some s' \<Longrightarrow> settled s0 s \<Longrightarrow> settled s0 s'"
  by (induction cs s rule: help_loop.induct) (auto simp: bind_eq_Some_conv split: if_splits intro: frm)

lemma settled_touch:
  assumes "cmd_touch args s = Some s'" "settled s0 s"
  shows "settled s0 s'"
proof -
  let ?s = "enter_dir s"
  have s: "settled s0 ?s"
    using assms(2) by (rule settled_enter_dir)
  obtain e where e: "no_args args ?s = Some e"
    using assms(1) by (auto simp: cmd_touch_def Let_def bind_eq_Some_conv)
  show ?thesis
  proof (cases e)
    case True
    then show ?thesis using assms(1) s by (auto simp: cmd_touch_def e intro: frm)
  next
    case False
    then obtain node s1 where c: "fs_create_node args FS_FILE ?s = Some (node, s1)"
      using assms(1) by (auto simp: cmd_touch_def e Let_def bind_eq_Some_conv)
    have s1: "settled s0 s1"
      using settled_create_node [OF c s] .
    show ?thesis
    proof (cases "node = 0")
      case True
      then show ?thesis using False assms(1) s1 by (simp add: cmd_touch_def e c)
    next
      case nz: False
      let ?s1 = "s1\<lparr>mem := store32 (mem s1) (size_at node) 256\<rparr>"
      obtain data s2 where k: "kmalloc (load32 (mem ?s1) (size_at node)) ?s1 = Some (data, s2)"
        and rest: "(let s = s2\<lparr>mem := store32 (mem s2) (data_at node) data\<rparr>;
           s = s\<lparr>mem := memset (mem s) (load32 (mem s) (data_at node)) 0 (load32 (mem s) (size_at node))\<rparr> in do {
             s \<leftarrow> fs_add_child (current_dir s) node s;
             printf ''File '%s' created.\<newline>'' [args] s }) = Some s'"
        using False nz assms(1) by (auto simp: cmd_touch_def e c Let_def bind_eq_Some_conv)
      have "settled s0 s2"
        using settled_kmalloc [OF k settled_upd(1) [OF s1]] .
      with rest show ?thesis
        unfolding Let_def bind_eq_Some_conv by (blast intro: frm)
    qed
  qed
qed

lemma settled_mkdir:
  assumes "cmd_mkdir args s = Some s'" "settled s0 s"
  shows "settled s0 s'"
proof -
  let ?s = "enter_dir s"
  have s: "settled s0 ?s"
    using assms(2) by (rule settled_enter_dir)
  obtain e where e: "no_args args ?s = Some e"
    using assms(1) by (auto simp: cmd_mkdir_def Let_def bind_eq_Some_conv)
  show ?thesis
  proof (cases e)
    case True
    then show ?thesis using assms(1) s by (auto simp: cmd_mkdir_def e intro: frm)
  next
    case False
    then obtain node s1 where c: "fs_create_node args FS_DIRECTORY ?s = Some (node, s1)"
      using assms(1) by (auto simp: cmd_mkdir_def e Let_def bind_eq_Some_conv)
    have "settled s0 s1"
      using settled_create_node [OF c s] .
    then show ?thesis
      using False assms(1) by (auto simp: cmd_mkdir_def e c bind_eq_Some_conv intro: frm split: if_splits)
  qed
qed

lemma settled_command [frm]:
  assumes "run_command c args s = Some s'" "settled s0 s"
  shows "settled s0 s'"
proof (cases c)
  case Cmd_help
  then show ?thesis using assms
    by (auto simp: cmd_help_def bind_eq_Some_conv intro: frm)
next
  case Cmd_ls
  then show ?thesis using assms
    by (auto simp: cmd_ls_def Let_def bind_eq_Some_conv elim!: settled_printf settled_ls_loop intro: frm)
next
  case Cmd_cd
  then show ?thesis using assms
    by (auto simp: cmd_cd_def Let_def bind_eq_Some_conv split: if_splits intro: frm)
next
  case Cmd_cat
  then show ?thesis using assms
    by (auto simp: cmd_cat_def Let_def bind_eq_Some_conv split: if_splits intro: frm)
next
  case Cmd_touch
  then show ?thesis using assms
    by (auto intro: settled_touch)
next
  case Cmd_mkdir
  then show ?thesis using assms
    by (auto intro: settled_mkdir)
next
  case Cmd_rm
  then show ?thesis using assms
    by (auto simp: cmd_rm_def Let_def bind_eq_Some_conv split: if_splits intro: frm)
next
  case Cmd_rmdir
  then show ?thesis using assms
    by (auto simp: cmd_rmdir_def Let_def bind_eq_Some_conv split: if_splits intro: frm)
next
  case Cmd_uptime
  then show ?thesis using assms
    by (auto simp: cmd_uptime_def intro: frm)
qed

section \<open>Interrupts\<close>

text \<open>What interrupts change, besides memory and the console; the shell's index stays in its buffer.\<close>

definition evolves :: "'a shell_scheme \<Rightarrow> 'a shell_scheme \<Rightarrow> bool" where
  "evolves s0 s \<longleftrightarrow> unat (shell_index s) < SHELL_BUFFER_SIZE \<and>
     s\<lparr>mem := mem s0, con := con s0, timer_ticks := timer_ticks s0, shift_pressed := shift_pressed s0,
       caps_lock_active := caps_lock_active s0, shell_index := shell_index s0,
       current_dir := current_dir s0, strtok_last := strtok_last s0\<rparr> = s0"

lemma evolves_refl: "unat (shell_index s) < SHELL_BUFFER_SIZE \<Longrightarrow> evolves s s"
  by (simp add: evolves_def)

lemma evolves_upd [frm]:
  assumes "evolves s0 s"
  shows "evolves s0 (s\<lparr>mem := m\<rparr>)" "evolves s0 (s\<lparr>con := c\<rparr>)" "evolves s0 (s\<lparr>timer_ticks := t\<rparr>)"
    "evolves s0 (s\<lparr>shift_pressed := sh\<rparr>)" "evolves s0 (s\<lparr>caps_lock_active := ca\<rparr>)"
    "unat i < SHELL_BUFFER_SIZE \<Longrightarrow> evolves s0 (s\<lparr>shell_index := i\<rparr>)"
    "evolves s0 (s\<lparr>current_dir := d\<rparr>)" "evolves s0 (s\<lparr>strtok_last := l\<rparr>)"
  using assms by (simp_all add: evolves_def)

lemma settled_evolves:
  assumes "settled s s'" "evolves s0 s"
  shows "evolves s0 s'"
proof -
  have s: "s'\<lparr>mem := mem s, con := con s, current_dir := current_dir s\<rparr> = s"
    using assms(1) by (simp add: settled_def)
  have "evolves s0 (s'\<lparr>mem := mem s, con := con s, current_dir := current_dir s\<rparr>)"
    unfolding s by (rule assms(2))
  then show ?thesis
    by (simp add: evolves_def)
qed

lemma evolves_printf [frm]: "printf f args s = Some s' \<Longrightarrow> evolves s0 s \<Longrightarrow> evolves s0 s'"
  by (rule settled_evolves [OF settled_printf [OF _ settled_refl]])

lemma evolves_command [frm]: "run_command c args s = Some s' \<Longrightarrow> evolves s0 s \<Longrightarrow> evolves s0 s'"
  by (rule settled_evolves [OF settled_command [OF _ settled_refl]])

text \<open>The index below its bound, whatever it was.\<close>

lemma evolves_index: "evolves s0 s \<Longrightarrow> unat (shell_index s) < SHELL_BUFFER_SIZE"
  by (auto simp: evolves_def)

lemma fret_Inr [simp]: "fret r = Some (Inr s) \<longleftrightarrow> r = Some s"
  by (auto simp: fret_def)

lemma fbind_Inr: "fbind r k = Some (Inr s') \<longleftrightarrow> (\<exists>s. r = Some (Inr s) \<and> k s = Some (Inr s'))"
  by (auto simp: fbind_def split: option.splits sum.splits)

lemma evolves_dispatch [frm]:
  "dispatch cs cmd args s = Some (Inr s') \<Longrightarrow> evolves s0 s \<Longrightarrow> evolves s0 s'"
  by (induction cs cmd args s rule: dispatch.induct)
    (auto simp: bind_eq_Some_conv split: if_splits option.splits intro: frm)

lemma evolves_process [frm]:
  "shell_process_command cmd s = Some (Inr s') \<Longrightarrow> evolves s0 s \<Longrightarrow> evolves s0 s'"
  by (auto simp: shell_process_command_def bind_eq_Some_conv Let_def elim!: evolves_dispatch intro: frm)

lemma evolves_erase [frm]:
  assumes "erase_key s = Some s'" "evolves s0 s"
  shows "evolves s0 s'"
proof (cases "0 < shell_index s")
  case True
  then have "unat (shell_index s - 1) < SHELL_BUFFER_SIZE"
    using evolves_index [OF assms(2)] by (simp add: unat_sub_u32 u32_less_iff Suc_le_eq)
  with True assms show ?thesis
    by (auto simp: erase_key_def intro: frm)
qed (use assms in \<open>simp add: erase_key_def\<close>)

lemma evolves_key [frm]:
  assumes "shell_handle_key ke s = Some (Inr s')" "evolves s0 s"
  shows "evolves s0 s'"
proof -
  have "unat (shell_index s + 1) < SHELL_BUFFER_SIZE" if "shell_index s < SHELL_BUFFER_SIZE - 1"
    using that by (simp add: u32_less_iff unat_add_one)
  then show ?thesis
    using assms by (auto simp: shell_handle_key_def fbind_Inr Let_def split: if_splits
        elim!: evolves_printf evolves_process intro: frm)
qed

lemma evolves_read_keyboard [frm]: "evolves s0 s \<Longrightarrow> evolves s0 (snd (read_keyboard s))"
  by (auto simp: read_keyboard_def Let_def port_in_def inb_def intro: frm)

lemma evolves_port_out [frm]: "evolves s0 s \<Longrightarrow> evolves s0 (port_out p v s)"
  by (auto simp: port_out_def intro: frm)

lemma evolves_call [frm]:
  assumes "call_isr h regs s = Some (Inr s')" "evolves s0 s"
  shows "evolves s0 s'"
proof (cases h)
  case Page_fault_handler
  then show ?thesis
    using assms(1) by (auto simp: page_fault_handler_def fbind_Inr)
next
  case Timer_handler
  then show ?thesis
    using assms by (auto simp: timer_handler_def intro: frm)
next
  case Keyboard_callback
  then have "shell_handle_key (fst (read_keyboard s)) (snd (read_keyboard s)) = Some (Inr s')"
    using assms(1) by (simp add: keyboard_callback_def case_prod_beta)
  then show ?thesis
    by (rule evolves_key) (rule evolves_read_keyboard [OF assms(2)])
qed

lemma evolves_irq:
  assumes "irq_handler call_isr regs s = Some (Inr s')" "evolves s0 s"
  shows "evolves s0 s'"
proof -
  have "evolves s0 (if 40 \<le> int_no regs then port_out 0xA0 0x20 s else s)" (is "evolves s0 ?s1")
    using assms(2) by (simp add: evolves_port_out)
  then have "evolves s0 (if 32 \<le> int_no regs then port_out 0x20 0x20 ?s1 else ?s1)"
    by (auto intro: evolves_port_out)
  then show ?thesis
    using assms(1) by (auto simp: irq_handler_def call_handler_def Let_def split: if_splits option.splits intro: evolves_call)
qed

lemma reachable_evolves:
  assumes "reachable s0 s" "unat (shell_index s0) < SHELL_BUFFER_SIZE"
  shows "evolves s0 s"
  using assms by induction (auto elim!: kernel_stepE intro: evolves_refl evolves_irq)

lemma evolves_fixed:
  assumes "evolves s0 s"
  shows "interrupts_on s = interrupts_on s0" "interrupt_handlers s = interrupt_handlers s0"
    "sym s = sym s0" "lit s = lit s0"
    "free_list s = free_list s0" "root s = root s0" "fd_table s = fd_table s0" "input_enabled s = input_enabled s0"
proof -
  have e: "s\<lparr>mem := mem s0, con := con s0, timer_ticks := timer_ticks s0, shift_pressed := shift_pressed s0,
      caps_lock_active := caps_lock_active s0, shell_index := shell_index s0,
      current_dir := current_dir s0, strtok_last := strtok_last s0\<rparr> = s0"
    using assms by (simp add: evolves_def)
  show "interrupts_on s = interrupts_on s0" using arg_cong [OF e, of interrupts_on] by simp
  show "interrupt_handlers s = interrupt_handlers s0" using arg_cong [OF e, of interrupt_handlers] by simp
  show "sym s = sym s0" using arg_cong [OF e, of sym] by simp
  show "lit s = lit s0" using arg_cong [OF e, of lit] by simp
  show "free_list s = free_list s0" using arg_cong [OF e, of free_list] by simp
  show "root s = root s0" using arg_cong [OF e, of root] by simp
  show "fd_table s = fd_table s0" using arg_cong [OF e, of fd_table] by simp
  show "input_enabled s = input_enabled s0" using arg_cong [OF e, of input_enabled] by simp
qed

section \<open>Properties\<close>

text \<open>A machine, for the witnesses: blank memory and idle devices, the timer's handler installed.\<close>

definition reset_shell :: shell where
  "reset_shell = \<lparr>con = \<lparr>io_dev = \<lambda>_ _. 0, io_devw = \<lambda>_ _. 0, io_log = [], trow = 0, tcol = 0,
     tcolor = 7, tbuf = \<lambda>_. 0\<rparr>, mem = \<lambda>_. 0, sym = \<lambda>_. 0, lit = \<lambda>_. 0,
     gdt = [], gdt_desc = \<lparr>gdt_limit = 0, gdt_base = 0\<rparr>, gdtr = \<lparr>gdt_limit = 0, gdt_base = 0\<rparr>,
     data_selector = 0, code_selector = 0, idt = [], idt_desc = \<lparr>idt_limit = 0, idt_base = 0\<rparr>,
     idtr = \<lparr>idt_limit = 0, idt_base = 0\<rparr>,
     interrupt_handlers = [32 \<mapsto> Timer_handler, 33 \<mapsto> Keyboard_callback], timer_ticks = 0,
     cr0 = 0, cr2 = 0, cr3 = 0, interrupts_on = True, free_list = 0, root = 0, fd_table = [],
     shift_pressed = False, caps_lock_active = False, shell_index = 0, current_dir = 0,
     input_enabled = True, strtok_last = 0\<rparr>"

text \<open>
  C32: however many interrupts the running system has taken, and whatever was typed, the shell's
  index is inside its line buffer, and only memory, console, clock, keyboard modifiers and the
  shell's own variables have changed: the descriptor tables, the handlers, the paging registers,
  the heap's and the file system's roots and the descriptor table are those of the boot.
\<close>

theorem running_system_invariant:
  assumes "reachable s0 s" "unat (shell_index s0) < 256"
  shows "unat (shell_index s) < 256 \<and>
    s\<lparr>mem := mem s0, con := con s0, timer_ticks := timer_ticks s0, shift_pressed := shift_pressed s0,
      caps_lock_active := caps_lock_active s0, shell_index := shell_index s0,
      current_dir := current_dir s0, strtok_last := strtok_last s0\<rparr> = s0"
  using reachable_evolves [OF assms] by (simp add: evolves_def)

text \<open>
  C33: the timer interrupt is always served: in every reachable state of a system that was started
  with interrupts on and the timer's handler installed, an IRQ 0 is a step of the system, and it
  advances the clock by one tick and leaves memory as it is.
\<close>

theorem timer_tick_served:
  assumes "reachable s0 s" "unat (shell_index s0) < 256" "interrupts_on s0"
    "interrupt_handlers s0 32 = Some Timer_handler" "int_no regs = 32"
  shows "\<exists>s'. irq_handler call_isr regs s = Some (Inr s') \<and> kernel_step s s' \<and>
    get_ticks s' = get_ticks s + 1 \<and> mem s' = mem s \<and> reachable s0 s'"
proof -
  have ev: "evolves s0 s"
    using assms(1,2) by (rule reachable_evolves)
  let ?s1 = "port_out 0x20 0x20 s"
  let ?s' = "?s1\<lparr>timer_ticks := timer_ticks ?s1 + 1\<rparr>"
  have irq: "irq_handler call_isr regs s = Some (Inr ?s')"
    using evolves_fixed(2) [OF ev] assms(4,5)
    by (simp add: irq_handler_def call_handler_def timer_handler_def Let_def)
  then have step: "kernel_step s ?s'"
    using evolves_fixed(1) [OF ev] assms(3,5) by (intro kernel_step.irq) simp_all
  moreover have "reachable s0 ?s'"
    using assms(1) step by (rule reachable.step)
  ultimately show ?thesis
    using irq by (intro exI [of _ ?s']) (simp add: get_ticks_def port_out_def)
qed

lemma timer_tick_served_witness:
  "\<exists>s'. irq_handler call_isr (demo_registers\<lparr>int_no := 32\<rparr>) reset_shell = Some (Inr s') \<and> get_ticks s' = 1"
  using timer_tick_served [OF reachable.start, of reset_shell "demo_registers\<lparr>int_no := 32\<rparr>"]
  by (auto simp: reset_shell_def get_ticks_def)

lemma running_system_invariant_witness:
  "\<exists>s. reachable reset_shell s \<and> timer_ticks s = 1 \<and> unat (shell_index s) < 256 \<and> fd_table s = []"
proof -
  let ?regs = "demo_registers\<lparr>int_no := 32\<rparr>"
  let ?s = "port_out 0x20 0x20 reset_shell"
  let ?s' = "?s\<lparr>timer_ticks := timer_ticks ?s + 1\<rparr>"
  have "irq_handler call_isr ?regs reset_shell = Some (Inr ?s')"
    by (simp add: irq_handler_def call_handler_def timer_handler_def reset_shell_def Let_def)
  then have "kernel_step reset_shell ?s'"
    by (intro kernel_step.irq [where regs = ?regs]) (simp_all add: reset_shell_def)
  then have r: "reachable reset_shell ?s'"
    by (rule reachable.step [OF reachable.start])
  with running_system_invariant [OF r] show ?thesis
    by (intro exI [of _ ?s']) (auto simp: reset_shell_def port_out_def)
qed

end
