(* ===== verification/CString_Props.thy ===== *)
theory CString_Props
  imports CString
begin

text \<open>
  The properties of the string library: what \<open>memmove\<close>, \<open>strcmp\<close>, \<open>strncpy\<close> and \<open>strtok\<close> do to
  memory, for strings anywhere in it.
\<close>

section \<open>One call of strtok\<close>

text \<open>
  The reference: skip delimiters, take bytes that are not delimiters, and drop the delimiter that
  ends the token.
\<close>

definition next_token :: "u8 set \<Rightarrow> u8 list \<Rightarrow> (u8 list \<times> u8 list) option" where
  "next_token D bs = (let ws = dropWhile (\<lambda>b. b \<in> D) bs in
     if ws = [] then None
     else Some (takeWhile (\<lambda>b. b \<notin> D) ws, tl (dropWhile (\<lambda>b. b \<notin> D) ws)))"

lemma drop_takeWhile: "drop (length (takeWhile P xs)) xs = dropWhile P xs"
  by (simp add: dropWhile_eq_drop)

lemma cstring_takeWhile:
  assumes "cstring m p ws" "fits p (Suc (length ws))" "n = length tok" "tok = take n ws"
  shows "cstring (m(p + of_nat n := 0)) p tok"
  unfolding cstring_iff
proof (intro conjI allI impI)
  have n: "n \<le> length ws" using assms(3,4) by (metis length_take min.cobounded1)
  show "(m(p + of_nat n := 0)) (p + of_nat i) = tok ! i" if i: "i < length tok" for i
  proof -
    have "p + of_nat i \<noteq> p + of_nat n"
      using i n assms(2,3) by (simp only: u32_eq_iff fits_def) (simp add: unat_add_of_nat)
    moreover have "m (p + of_nat i) = ws ! i"
      using assms(1,3) i n by (simp add: cstring_iff)
    moreover have "tok ! i = ws ! i"
      using assms(3,4) i by (metis nth_take)
    ultimately show ?thesis by simp
  qed
  show "(m(p + of_nat n := 0)) (p + of_nat (length tok)) = 0"
    using assms(3) by simp
  show "0 \<notin> set tok"
    using cstring_nonzero [OF assms(1)] assms(4) by (metis in_set_takeD)
qed

lemma strtok_step:
  assumes delim: "cstring m delim ds" "fits delim (Suc (length ds))" "delim \<noteq> 0"
    and p: "p = (if str \<noteq> 0 then str else lst)" "p \<noteq> 0"
    and bs: "cstring m p bs" "fits p (Suc (length bs))"
  shows "case next_token (set ds) bs of
      None \<Rightarrow> strtok m lst str delim = Some (0, m, p + of_nat (length bs))
    | Some (tok, rest) \<Rightarrow> \<exists>start m' lst'. strtok m lst str delim = Some (start, m', lst') \<and>
        in_region start p (Suc (length bs)) \<and> in_region lst' p (Suc (length bs)) \<and>
        cstring m' start tok \<and> cstring m' lst' rest \<and>
        unat start + length tok + (if rest = [] then 0 else 1) \<le> unat lst' \<and>
        unat lst' + length rest \<le> unat p + length bs \<and>
        (\<forall>a. \<not> in_region a p (Suc (length bs)) \<longrightarrow> m' a = m a)"
proof -
  define skip where "skip = length (takeWhile (\<lambda>b. b \<in> set ds) bs)"
  define ws where "ws = dropWhile (\<lambda>b. b \<in> set ds) bs"
  define n where "n = length (takeWhile (\<lambda>b. b \<notin> set ds) ws)"
  define start where "start = p + of_nat skip"
  have ws_eq: "ws = drop skip bs"
    by (simp add: skip_def ws_def drop_takeWhile)
  have skip_le: "skip \<le> length bs"
    unfolding skip_def by (rule length_takeWhile_le)
  then have len: "length bs = skip + length ws"
    by (simp add: ws_eq)
  have n_le: "n \<le> length ws" unfolding n_def by (rule length_takeWhile_le)
  have u_start: "unat start = unat p + skip"
    unfolding start_def by (rule unat_add_of_nat) (use bs(2) len in \<open>simp add: fits_def\<close>)
  have cs: "cstring m start ws"
    unfolding start_def ws_eq by (rule cstring_drop [OF bs(1) skip_le])
  have fit: "fits start (Suc (length ws))"
    using bs(2) len by (simp add: fits_def u_start)
  have u_end: "unat (start + of_nat n) = unat start + n"
    by (rule unat_add_of_nat) (use fit n_le in \<open>simp add: fits_def\<close>)
  have skip: "strtok_skip m delim p = Some start"
    using strtok_skip_cstring [OF delim bs(1)] by (simp add: start_def skip_def)
  have scan: "strtok_scan m delim start = Some (start + of_nat n)"
    using strtok_scan_cstring [OF delim cs] by (simp add: n_def)
  have "(if str \<noteq> 0 then str else lst) = p" "\<not> (str = 0 \<and> lst = 0)"
    using p by (auto split: if_splits)
  then have tok: "strtok m lst str delim = (if m start = 0 then Some (0, m, start)
      else if m (start + of_nat n) \<noteq> 0 then Some (start, m(start + of_nat n := 0), start + of_nat n + 1)
      else Some (start, m, start + of_nat n))"
    by (auto simp: strtok_def skip scan Let_def simp del: fun_upd_apply)
  have zero: "m start = 0 \<longleftrightarrow> ws = []" "m (start + of_nat n) = 0 \<longleftrightarrow> n = length ws"
    using cstring_end [OF cs, of 0] cstring_end [OF cs n_le] by auto
  have take: "takeWhile (\<lambda>b. b \<notin> set ds) ws = take n ws"
    unfolding n_def by (rule takeWhile_eq_take)
  show ?thesis
  proof (cases "ws = []")
    case True
    then show ?thesis
      using tok zero(1) len by (simp add: next_token_def ws_def [symmetric] start_def)
  next
    case False
    have "dropWhile (\<lambda>b. b \<notin> set ds) ws = drop n ws"
      by (simp only: n_def drop_takeWhile)
    then have nt: "next_token (set ds) bs = Some (take n ws, drop (Suc n) ws)"
      using False by (simp add: next_token_def ws_def [symmetric] take drop_Suc tl_drop)
    show ?thesis
    proof (cases "n = length ws")
      case True
      then have "strtok m lst str delim = Some (start, m, start + of_nat n)"
        using tok zero False by simp
      moreover have "cstring m (start + of_nat n) []"
        using zero(2) True by simp
      ultimately show ?thesis
        unfolding nt using True cs u_start u_end len by (simp add: in_region_def)
    next
      case less: False
      let ?m = "m(start + of_nat n := 0)"
      have lt: "n < length ws" using less n_le by simp
      have step: "strtok m lst str delim = Some (start, ?m, start + of_nat n + 1)"
        using tok zero False less by simp
      have u_last: "unat (start + of_nat n + 1) = unat start + n + 1"
        using fit lt by (subst unat_add_one) (simp_all add: u_end fits_def)
      have "cstring m (start + of_nat n + 1) (drop (Suc n) ws)"
        using cstring_drop [OF cs, of "Suc n"] lt by (simp add: ac_simps)
      moreover have "fits (start + of_nat n + 1) (Suc (length (drop (Suc n) ws)))"
        using fit lt unfolding fits_def u_last by simp
      moreover have "\<not> in_region (start + of_nat n) (start + of_nat n + 1) (Suc (length (drop (Suc n) ws)))"
        unfolding in_region_def u_last u_end by simp
      ultimately have "cstring ?m (start + of_nat n + 1) (drop (Suc n) ws)"
        by (rule cstring_upd)
      moreover have "cstring ?m start (take n ws)"
        using cstring_takeWhile [OF cs fit _ refl] lt by simp
      moreover have "?m a = m a" if "\<not> in_region a p (Suc (length bs))" for a
        using that u_end u_start len lt by (auto simp: in_region_def)
      ultimately show ?thesis
        unfolding nt using step u_start u_last len lt
        by (auto simp: in_region_def simp del: fun_upd_apply)
    qed
  qed
qed

section \<open>Properties\<close>

text \<open>
  C25: \<open>memmove\<close> copies the source as it was before the call, whichever way the two regions
  overlap, and writes nothing outside the target.
\<close>

theorem memmove_correct:
  assumes "fits dst (unat n)" "fits src (unat n)"
  shows "bytes_at (memmove m dst src n) dst (unat n) = bytes_at m src (unat n) \<and>
    (\<forall>a. \<not> in_region a dst (unat n) \<longrightarrow> memmove m dst src n a = m a)"
  using assms by (auto simp: bytes_at_def memmove_apply in_region_offset)

lemma memmove_correct_witness:
  "bytes_at (memmove (\<lambda>a. ucast a) 101 100 8) 101 8 = [100, 101, 102, 103, 104, 105, 106, 107]"
proof -
  have "bytes_at (\<lambda>a. ucast a) 100 8 = [100, 101, 102, 103, 104, 105, 106, 107]"
    by (simp add: bytes_at_def upt_rec)
  then show ?thesis
    using memmove_correct [of 101 8 100 "\<lambda>a. ucast a"] by (simp add: fits_def)
qed

text \<open>
  \<open>strcmp\<close> returns on any two NUL-terminated strings; its sign is their lexicographic order by
  unsigned bytes, and it is 0 exactly for equal strings. \<open>strncmp\<close> is the same on prefixes.
\<close>

theorem strcmp_orders:
  assumes "cstring m p as" "cstring m q bs"
  shows "\<exists>r. strcmp m p q = Some r \<and> (r = 0 \<longleftrightarrow> as = bs) \<and> (r < 0 \<longleftrightarrow> ord_class.lexordp as bs) \<and>
    strncmp m p q n = str_diff (take (unat n) as) (take (unat n) bs)"
  using strcmp_cstring [OF assms] str_diff_0 str_diff_lexord cstring_nonzero [OF assms(1)]
    cstring_nonzero [OF assms(2)] strncmp_cstring [OF assms] by (simp add: strncmp_def)

lemma strcmp_orders_witness:
  "\<exists>r. strcmp ((\<lambda>_. 0)(1 := 108, 2 := 115, 11 := 108)) 1 11 = Some r \<and> r \<noteq> 0 \<and> \<not> r < 0"
  using strcmp_orders [of "(\<lambda>_. 0)(1 := 108, 2 := 115, 11 := 108)" 1 "[108, 115]" 11 "[108]"]
  by auto

text \<open>
  \<open>strncpy\<close> fills exactly \<open>n\<close> bytes of the target, with the string and then NULs; so a string
  of \<open>n\<close> bytes or more is cut, and no terminator is written.
\<close>

theorem strncpy_fills:
  assumes "cstring m src bs" "fits src (Suc (length bs))" "fits dest (unat n)"
    "apart dest (unat n) src (Suc (length bs))"
  shows "bytes_at (strncpy m dest src n) dest (unat n) =
      take (unat n) bs @ replicate (unat n - length bs) 0 \<and>
    (\<forall>a. \<not> in_region a dest (unat n) \<longrightarrow> strncpy m dest src n a = m a)"
proof (intro conjI nth_equalityI allI impI)
  fix i
  assume "i < length (bytes_at (strncpy m dest src n) dest (unat n))"
  then have i: "i < unat n" by simp
  then have u: "unat (dest + of_nat i) = unat dest + i"
    using assms(3) by (simp add: fits_def unat_add_of_nat)
  then have "strncpy m dest src n (dest + of_nat i) =
      (if i < length bs then m (src + of_nat i) else 0)"
    using i by (subst strncpy_cstring [OF assms]) (simp add: in_region_def)
  then show "bytes_at (strncpy m dest src n) dest (unat n) ! i =
      (take (unat n) bs @ replicate (unat n - length bs) 0) ! i"
    using i assms(1) by (simp add: cstring_iff nth_append)
next
  fix a
  assume "\<not> in_region a dest (unat n)"
  then show "strncpy m dest src n a = m a"
    by (subst strncpy_cstring [OF assms]) (auto simp: in_region_def)
qed simp

lemma strncpy_fills_witness:
  "bytes_at (strncpy ((\<lambda>_. 7)(1 := 108, 2 := 115, 3 := 0)) 100 1 4) 100 4 = [108, 115, 0, 0]"
proof -
  have "replicate 2 (0 :: u8) = [0, 0]"
    by (simp add: numeral_2_eq_2)
  then show ?thesis
    using strncpy_fills [of "(\<lambda>_. 7)(1 := 108, 2 := 115, 3 := 0)" 1 "[108, 115]" 100 4]
    by (simp add: fits_def apart_def)
qed

text \<open>
  C24: one call of \<open>strtok\<close>, on a new string or continuing with NULL, returns the next maximal run
  of bytes that are not delimiters, as a string of its own, and remembers the rest; it returns NULL
  when only delimiters are left, and writes only inside the string.
\<close>

theorem strtok_next_token:
  assumes "cstring m delim ds" "fits delim (Suc (length ds))" "delim \<noteq> 0"
    "p = (if str \<noteq> 0 then str else lst)" "p \<noteq> 0"
    "cstring m p bs" "fits p (Suc (length bs))"
  shows "case next_token (set ds) bs of
      None \<Rightarrow> strtok m lst str delim = Some (0, m, p + of_nat (length bs))
    | Some (tok, rest) \<Rightarrow> \<exists>start m' lst'. strtok m lst str delim = Some (start, m', lst') \<and>
        in_region start p (Suc (length bs)) \<and> in_region lst' p (Suc (length bs)) \<and>
        cstring m' start tok \<and> cstring m' lst' rest \<and>
        (\<forall>a. \<not> in_region a p (Suc (length bs)) \<longrightarrow> m' a = m a)"
  using strtok_step [OF assms] by (cases "next_token (set ds) bs") (force split: prod.splits)+

lemma strtok_next_token_witness:
  "\<exists>start m' lst'. strtok ((\<lambda>_. 0)(1 := 32, 100 := 32, 101 := 97, 102 := 32, 103 := 98)) 0 100 1 =
      Some (start, m', lst') \<and> cstring m' start [97] \<and> cstring m' lst' [98]"
  using strtok_next_token [of "(\<lambda>_. 0)(1 := 32, 100 := 32, 101 := 97, 102 := 32, 103 := 98)" 1 "[32]"
      100 100 0 "[32, 97, 32, 98]"]
  by (auto simp: fits_def next_token_def)

end
