(* ===== verification/Shell_Props.thy ===== *)
theory Shell_Props
  imports System_Props CString_Props
begin

text \<open>
  The shell: its line editor refines editing a list of bytes, and a completed line is dispatched on
  its first word. The last section states what the comparison of scan codes with character codes
  does to three keys.
\<close>

section \<open>The line editor\<close>

text \<open>A key as the editor takes it, its effect on the line, and its echo.\<close>

datatype edit_key = Key_char u8 | Key_erase | Key_enter | Key_ignored

definition key_of :: "keyboard_event \<Rightarrow> 'a keyboard_scheme \<Rightarrow> edit_key" where
  "key_of ke s =
     (if scancode ke \<in> {8, 127} then Key_erase
      else if scancode ke \<in> {10, 13} \<or> enter ke then Key_enter
      else if backspace ke then Key_erase
      else if kb_to_ascii ke s = 0 then Key_ignored else Key_char (kb_to_ascii ke s))"

fun edit :: "edit_key \<Rightarrow> u8 list \<Rightarrow> u8 list" where
  "edit (Key_char c) l = (if length l < 255 then l @ [c] else l)"
| "edit Key_erase l = butlast l"
| "edit Key_enter l = []"
| "edit Key_ignored l = l"

fun echo :: "edit_key \<Rightarrow> u8 list \<Rightarrow> u8 list" where
  "echo (Key_char c) l = (if length l < 255 then [c] else [])"
| "echo Key_erase l = (if l = [] then [] else [8, 32, 8])"
| "echo Key_enter l = [10]"
| "echo Key_ignored l = []"

text \<open>\<open>line_rep s l\<close>: the line typed so far is \<open>l\<close>.\<close>

definition line_rep :: "'a shell_scheme \<Rightarrow> u8 list \<Rightarrow> bool" where
  "line_rep s l \<longleftrightarrow> unat (shell_index s) = length l \<and> length l < SHELL_BUFFER_SIZE \<and>
     fits (shell_buffer s) SHELL_BUFFER_SIZE \<and> bytes_at (mem s) (shell_buffer s) (length l) = l \<and> 0 \<notin> set l"

lemma shell_buffer_upd [simp]:
  "shell_buffer (s\<lparr>mem := m\<rparr>) = shell_buffer s" "shell_buffer (s\<lparr>con := c\<rparr>) = shell_buffer s"
  by (simp_all add: shell_buffer_def)

lemma shell_buffer_index [simp]: "shell_buffer (s\<lparr>shell_index := i\<rparr>) = shell_buffer s"
  by (simp add: shell_buffer_def)

lemma printf_char: "printf ''%c'' [char_int c] s = Some (s\<lparr>con := term_write [c] (con s)\<rparr>)"
proof -
  have "ucast (char_int c) = c"
    unfolding char_int_def by (rule bit_word_eqI) (auto simp: bit_simps)
  then show ?thesis
    by (simp add: printf_def vprintf_steps term_write_def)
qed

lemma bytes_at_snoc: "bytes_at m p (Suc n) = bytes_at m p n @ [m (p + of_nat n)]"
  by (simp add: bytes_at_def)

lemma edit_char:
  assumes "line_rep s l" "length l < 255" "c \<noteq> 0"
  defines "s' \<equiv> s\<lparr>mem := (mem s)(shell_buffer s + shell_index s := c), shell_index := shell_index s + 1\<rparr>"
  shows "line_rep s' (l @ [c])" "\<not> in_region a (shell_buffer s) SHELL_BUFFER_SIZE \<Longrightarrow> mem s' a = mem s a"
proof -
  have i: "shell_index s = of_nat (length l)"
    using assms(1) by (simp add: u32_eq_iff unat_of_nat_u32 line_rep_def)
  have fit: "fits (shell_buffer s) 256"
    using assms(1) by (simp add: line_rep_def)
  have reg: "in_region (shell_buffer s + shell_index s) (shell_buffer s) 256"
    unfolding i using assms(2) by (intro in_region_offset [OF fit]) simp
  then show "\<not> in_region a (shell_buffer s) SHELL_BUFFER_SIZE \<Longrightarrow> mem s' a = mem s a"
    by (auto simp: s'_def)
  have "unat (shell_buffer s + of_nat (length l)) = unat (shell_buffer s) + length l"
    using fit assms(2) by (intro unat_add_of_nat) (simp add: fits_def)
  then have "agree_on (mem s) (mem s') (shell_buffer s) (length l)"
    by (simp add: s'_def i) (rule agree_on_upd, simp add: in_region_def)
  moreover have "fits (shell_buffer s) (length l)"
    using fit assms(2) by (simp add: fits_def)
  ultimately have "bytes_at (mem s') (shell_buffer s) (length l) = l"
    using assms(1) by (simp add: agree_on_bytes_at line_rep_def)
  moreover have "unat (shell_index s + 1) = Suc (length l)"
    unfolding i using assms(2) by (simp add: unat_add_one unat_of_nat_u32)
  ultimately show "line_rep s' (l @ [c])"
    using assms(1-3) fit by (simp add: line_rep_def bytes_at_snoc) (simp add: s'_def i)
qed

lemma edit_erase:
  assumes "line_rep s l"
  shows "\<exists>s'. erase_key s = Some s' \<and> line_rep s' (butlast l) \<and> mem s' = mem s \<and>
    con s' = term_write (echo Key_erase l) (con s) \<and>
    s'\<lparr>mem := mem s, con := con s, shell_index := shell_index s\<rparr> = s"
proof (cases l rule: rev_cases)
  case Nil
  then have "shell_index s = 0"
    using assms by (simp add: line_rep_def)
  with Nil assms show ?thesis
    by (simp add: erase_key_def term_write_def)
next
  case (snoc k c)
  let ?s = "s\<lparr>shell_index := shell_index s - 1\<rparr>"
  have n: "unat (shell_index s) = Suc (length k)"
    using assms snoc by (simp add: line_rep_def)
  then have pos: "0 < shell_index s"
    by (simp add: u32_less_iff)
  have p: "printf [CHR 0x08, CHR '' '', CHR 0x08] [] ?s =
      Some (?s\<lparr>con := term_write [8, 32, 8] (con ?s)\<rparr>)"
    by (subst printf_plain) simp_all
  have "unat (shell_index s - 1) = length k"
    using n by (simp add: unat_sub_u32)
  moreover have "bytes_at (mem s) (shell_buffer s) (length k) = k"
    using assms snoc by (simp add: line_rep_def bytes_at_snoc)
  ultimately show ?thesis
    using pos p assms snoc by (simp add: erase_key_def line_rep_def)
qed

lemma edit_key:
  assumes "line_rep s l" "input_enabled s" "key_of ke s \<noteq> Key_enter"
  shows "\<exists>s'. shell_handle_key ke s = Some (Inr s') \<and> line_rep s' (edit (key_of ke s) l) \<and>
    con s' = term_write (echo (key_of ke s) l) (con s) \<and>
    (\<forall>a. \<not> in_region a (shell_buffer s) SHELL_BUFFER_SIZE \<longrightarrow> mem s' a = mem s a) \<and>
    s'\<lparr>mem := mem s, con := con s, shell_index := shell_index s\<rparr> = s"
proof (cases "key_of ke s")
  case (Key_char c)
  then have c: "c = kb_to_ascii ke s" "c \<noteq> 0"
    and codes: "scancode ke \<notin> {8, 127}" "scancode ke \<notin> {10, 13}" "\<not> enter ke" "\<not> backspace ke"
    by (auto simp: key_of_def split: if_splits)
  have room: "shell_index s < 255 \<longleftrightarrow> length l < 255"
    using assms(1) by (simp add: u32_less_iff line_rep_def)
  show ?thesis
  proof (cases "length l < 255")
    case True
    let ?s = "s\<lparr>mem := (mem s)(shell_buffer s + shell_index s := c), shell_index := shell_index s + 1\<rparr>"
    have "shell_handle_key ke s = Some (Inr (?s\<lparr>con := term_write [c] (con ?s)\<rparr>))"
      using assms(2) codes c room True
      by (simp add: shell_handle_key_def printf_char Let_def del: fun_upd_apply)
    moreover have "line_rep (?s\<lparr>con := term_write [c] (con ?s)\<rparr>) (l @ [c])"
      using edit_char(1) [OF assms(1) True c(2)] by (simp add: line_rep_def)
    moreover note edit_char(2) [OF assms(1) True c(2)]
    ultimately show ?thesis
      using Key_char True by (intro exI [of _ "?s\<lparr>con := term_write [c] (con ?s)\<rparr>"]) simp
  next
    case False
    then have "shell_handle_key ke s = Some (Inr s)"
      using assms(2) codes c room by (simp add: shell_handle_key_def Let_def)
    then show ?thesis
      using Key_char False assms(1) by (simp add: term_write_def)
  qed
next
  case Key_erase
  then have "shell_handle_key ke s = fret (erase_key s)"
    using assms(2) by (auto simp: shell_handle_key_def key_of_def split: if_splits)
  with Key_erase edit_erase [OF assms(1)] show ?thesis
    by auto
next
  case Key_ignored
  then have "shell_handle_key ke s = Some (Inr s)"
    using assms(2) by (auto simp: shell_handle_key_def key_of_def Let_def split: if_splits)
  then show ?thesis
    using Key_ignored assms(1) by (simp add: term_write_def)
qed (use assms(3) in simp)

text \<open>A sequence of keys.\<close>

fun type_keys :: "keyboard_event list \<Rightarrow> 'a shell_scheme \<Rightarrow> (fault + 'a shell_scheme) option" where
  "type_keys [] s = Some (Inr s)"
| "type_keys (ke # kes) s = fbind (shell_handle_key ke s) (type_keys kes)"

lemma same_but_line:
  assumes "s'\<lparr>mem := mem s, con := con s, shell_index := shell_index s\<rparr> = s"
  shows "input_enabled s' = input_enabled s" "key_of ke s' = key_of ke s" "shell_buffer s' = shell_buffer s"
    "sym s' = sym s" "lit s' = lit s"
proof -
  show "input_enabled s' = input_enabled s" using arg_cong [OF assms, of input_enabled] by simp
  have "caps_lock_active s' = caps_lock_active s" using arg_cong [OF assms, of caps_lock_active] by simp
  then show "key_of ke s' = key_of ke s" by (simp add: key_of_def kb_to_ascii_def)
  show "sym s' = sym s" using arg_cong [OF assms, of sym] by simp
  then show "shell_buffer s' = shell_buffer s" by (simp add: shell_buffer_def)
  show "lit s' = lit s" using arg_cong [OF assms, of lit] by simp
qed

lemma same_but_line_trans:
  assumes "s'\<lparr>mem := mem s, con := con s, shell_index := shell_index s\<rparr> = s"
    and "s''\<lparr>mem := mem s', con := con s', shell_index := shell_index s'\<rparr> = s'"
  shows "s''\<lparr>mem := mem s, con := con s, shell_index := shell_index s\<rparr> = s"
proof -
  have "(s''\<lparr>mem := mem s', con := con s', shell_index := shell_index s'\<rparr>)
      \<lparr>mem := mem s, con := con s, shell_index := shell_index s\<rparr> = s"
    unfolding assms(2) by (rule assms(1))
  then show ?thesis by simp
qed

lemma edit_keys:
  assumes "line_rep s l" "input_enabled s" "\<forall>ke \<in> set kes. key_of ke s \<noteq> Key_enter"
  shows "\<exists>s'. type_keys kes s = Some (Inr s') \<and> line_rep s' (fold edit (map (\<lambda>ke. key_of ke s) kes) l) \<and>
    (\<forall>a. \<not> in_region a (shell_buffer s) SHELL_BUFFER_SIZE \<longrightarrow> mem s' a = mem s a) \<and>
    s'\<lparr>mem := mem s, con := con s, shell_index := shell_index s\<rparr> = s"
  using assms
proof (induction kes arbitrary: s l)
  case Nil
  then show ?case by simp
next
  case (Cons ke kes)
  obtain s1 where s1: "shell_handle_key ke s = Some (Inr s1)" "line_rep s1 (edit (key_of ke s) l)"
    "\<forall>a. \<not> in_region a (shell_buffer s) SHELL_BUFFER_SIZE \<longrightarrow> mem s1 a = mem s a"
    "s1\<lparr>mem := mem s, con := con s, shell_index := shell_index s\<rparr> = s"
    using edit_key [OF Cons.prems(1,2), of ke] Cons.prems(3) by auto
  note same = same_but_line [OF s1(4)]
  obtain s2 where s2: "type_keys kes s1 = Some (Inr s2)"
    "line_rep s2 (fold edit (map (\<lambda>ke. key_of ke s1) kes) (edit (key_of ke s) l))"
    "\<forall>a. \<not> in_region a (shell_buffer s1) SHELL_BUFFER_SIZE \<longrightarrow> mem s2 a = mem s1 a"
    "s2\<lparr>mem := mem s1, con := con s1, shell_index := shell_index s1\<rparr> = s1"
    using Cons.IH [OF s1(2)] Cons.prems(2,3) by (auto simp: same)
  then show ?case
    using s1 same_but_line_trans [OF s1(4) s2(4)] by (auto simp: same)
qed

lemma enter_key:
  assumes "line_rep s l" "input_enabled s" "key_of ke s = Key_enter"
  shows "\<exists>s1. shell_handle_key ke s = fbind (shell_process_command (shell_buffer s) s1)
      (\<lambda>s. fret (printf ''nutshell> '' [] (s\<lparr>shell_index := 0\<rparr>))) \<and>
    cstring (mem s1) (shell_buffer s) l \<and>
    (\<forall>a. \<not> in_region a (shell_buffer s) SHELL_BUFFER_SIZE \<longrightarrow> mem s1 a = mem s a) \<and>
    s1\<lparr>mem := mem s, con := con s\<rparr> = s \<and> con s1 = term_write [10] (con s)"
proof -
  let ?s = "s\<lparr>mem := (mem s)(shell_buffer s + shell_index s := 0)\<rparr>"
  let ?s1 = "?s\<lparr>con := term_write [10] (con ?s)\<rparr>"
  have p: "printf ''\<newline>'' [] ?s = Some ?s1"
    by (subst printf_plain) simp_all
  have i: "shell_index s = of_nat (length l)"
    using assms(1) by (simp add: u32_eq_iff unat_of_nat_u32 line_rep_def)
  have l: "length l < 256" "fits (shell_buffer s) 256" "bytes_at (mem s) (shell_buffer s) (length l) = l" "0 \<notin> set l"
    using assms(1) by (simp_all add: line_rep_def)
  have reg: "in_region (shell_buffer s + of_nat (length l)) (shell_buffer s) 256"
    by (rule in_region_offset [OF l(2,1)])
  have byte: "mem s (shell_buffer s + of_nat k) = l ! k" if "k < length l" for k
    using that l(3) by (metis nth_bytes_at)
  have "shell_buffer s + of_nat k \<noteq> shell_buffer s + of_nat (length l)" if "k < length l" for k
    using that l(1,2) by (simp only: u32_eq_iff fits_def) (simp add: unat_add_of_nat)
  then have "cstring (mem ?s1) (shell_buffer s) l"
    using l(4) byte by (auto simp: cstring_iff i)
  moreover have "shell_handle_key ke s = fbind (shell_process_command (shell_buffer s) ?s1)
      (\<lambda>s. fret (printf ''nutshell> '' [] (s\<lparr>shell_index := 0\<rparr>)))"
    using assms(2,3) p by (auto simp: shell_handle_key_def key_of_def shell_buffer_def Let_def split: if_splits)
  ultimately show ?thesis
    using reg by (intro exI [of _ ?s1]) (auto simp: i)
qed

section \<open>Dispatch\<close>

text \<open>What the linker promises of the command names and of the delimiter \<open>" "\<close>: outside the buffer.\<close>

definition literal_at :: "'a machine_scheme \<Rightarrow> string \<Rightarrow> bool" where
  "literal_at s str \<longleftrightarrow> lit s str \<noteq> 0 \<and> cstring (mem s) (lit s str) (bytes_of str) \<and>
     fits (lit s str) (Suc (length str)) \<and>
     apart (lit s str) (Suc (length str)) (shell_buffer s) SHELL_BUFFER_SIZE"

definition shell_image :: "'a machine_scheme \<Rightarrow> bool" where
  "shell_image s \<longleftrightarrow> shell_buffer s \<noteq> 0 \<and> fits (shell_buffer s) SHELL_BUFFER_SIZE \<and>
     literal_at s '' '' \<and> list_all (\<lambda>(name, f, d). literal_at s name) filled_commands"

definition known :: "(string \<times> command \<times> string) list \<Rightarrow> u8 list \<Rightarrow> command option" where
  "known fs w = map_of (map (\<lambda>(name, f, d). (bytes_of name, f)) fs) w"

lemma cstring_apart:
  assumes "cstring m p bs" "fits p (Suc (length bs))" "apart p (Suc (length bs)) q n"
    "\<And>a. \<not> in_region a q n \<Longrightarrow> m' a = m a"
  shows "cstring m' p bs"
  using assms by (intro cstring_agree [of m p bs m' "Suc (length bs)"])
    (auto simp: agree_on_def dest: apart_in_region)

lemma strcmp_decides:
  assumes "cstring m p as" "cstring m q bs"
  obtains r where "strcmp m p q = Some r" "r = 0 \<longleftrightarrow> as = bs"
  using strcmp_cstring [OF assms] str_diff_0 [of as bs] cstring_nonzero [OF assms(1)] cstring_nonzero [OF assms(2)]
  by blast

lemma dispatch_filled:
  assumes "cstring (mem s) cmd w" "list_all (\<lambda>(name, f, d). cstring (mem s) (lit s name) (bytes_of name)) fs"
  shows "dispatch (map (\<lambda>(name, f, d). \<lparr>command_name = lit s name, command_func = Some f,
       command_description = lit s d\<rparr>) fs @ cs) cmd args s =
    (case known fs w of Some f \<Rightarrow> fret (run_command f args s) | None \<Rightarrow> dispatch cs cmd args s)"
  using assms(2)
proof (induction fs)
  case Nil
  then show ?case by (simp add: known_def)
next
  case (Cons c fs)
  obtain name f d where c: "c = (name, f, d)" by (cases c)
  obtain r where "strcmp (mem s) cmd (lit s name) = Some r" "r = 0 \<longleftrightarrow> w = bytes_of name"
    using Cons.prems by (auto simp: c intro: strcmp_decides [OF assms(1)])
  with Cons show ?case
    by (auto simp: c known_def)
qed

lemma dispatch_null:
  assumes "cstring (mem s) cmd w" "cstring (mem s) 0 z"
  shows "dispatch (replicate n \<lparr>command_name = 0, command_func = None, command_description = 0\<rparr>) cmd args s =
    (if w = z \<and> 0 < n then Some (Inl NullCall) else fret (printf ''Command not found: %s\<newline>'' [cmd] s))"
proof (induction n)
  case 0
  then show ?case by simp
next
  case (Suc n)
  obtain r where "strcmp (mem s) cmd 0 = Some r" "r = 0 \<longleftrightarrow> w = z"
    by (rule strcmp_decides [OF assms])
  with Suc show ?case by auto
qed

lemma dispatch_commands:
  assumes "cstring (mem s) cmd w" "cstring (mem s) 0 z"
    "list_all (\<lambda>(name, f, d). cstring (mem s) (lit s name) (bytes_of name)) filled_commands"
  shows "dispatch (commands s) cmd args s =
    (case known filled_commands w of
       Some f \<Rightarrow> fret (run_command f args s)
     | None \<Rightarrow> if w = z then Some (Inl NullCall) else fret (printf ''Command not found: %s\<newline>'' [cmd] s))"
  unfolding commands_def dispatch_filled [OF assms(1,3)] dispatch_null [OF assms(1,2)]
  by (simp add: filled_commands_def)

lemma shell_image_names:
  assumes "shell_image s" "\<And>a. \<not> in_region a (shell_buffer s) SHELL_BUFFER_SIZE \<Longrightarrow> m a = mem s a"
  shows "list_all (\<lambda>(name, f, d). cstring m (lit s name) (bytes_of name)) filled_commands"
    "cstring m (lit s '' '') [32]"
proof -
  have *: "cstring m (lit s str) (bytes_of str)" if "literal_at s str" for str
    using that by (intro cstring_apart [of "mem s" "lit s str" "bytes_of str" "shell_buffer s" 256 m])
      (simp_all add: literal_at_def assms(2))
  then show "list_all (\<lambda>(name, f, d). cstring m (lit s name) (bytes_of name)) filled_commands"
    using assms(1) by (auto simp: shell_image_def list_all_iff)
  show "cstring m (lit s '' '') [32]"
    using * [of "'' ''"] assms(1) by (simp add: shell_image_def)
qed

text \<open>
  The two calls of \<open>strtok\<close> on a completed line. The second token is a string inside the buffer.
\<close>

definition token_at :: "'a machine_scheme \<Rightarrow> ram \<Rightarrow> u32 \<Rightarrow> u8 list \<Rightarrow> bool" where
  "token_at s m p w \<longleftrightarrow> cstring m p w \<and> p \<noteq> 0 \<and>
     (\<forall>j \<le> length w. in_region (p + of_nat j) (shell_buffer s) SHELL_BUFFER_SIZE)"

lemma token_atI:
  assumes "cstring m p w" "unat b \<le> unat p" "unat p + length w < unat b + 256" "fits b 256" "b \<noteq> 0" "b = shell_buffer s"
  shows "token_at s m p w"
proof -
  have "in_region (p + of_nat j) b 256" if "j \<le> length w" for j
  proof -
    have "unat (p + of_nat j) = unat p + j"
      using assms(3,4) that by (intro unat_add_of_nat) (simp add: fits_def)
    then show ?thesis using that assms(2,3) by (simp add: in_region_def)
  qed
  moreover have "p \<noteq> 0" using assms(2,5) by (auto simp: unat_gt_0)
  ultimately show ?thesis using assms(1,6) by (simp add: token_at_def)
qed

lemma split_line:
  assumes im: "shell_image s" and l: "cstring (mem s) (shell_buffer s) l" "length l < SHELL_BUFFER_SIZE"
  shows "\<exists>cmd m last args m' last'. strtok (mem s) (strtok_last s) (shell_buffer s) (lit s '' '') = Some (cmd, m, last) \<and>
    strtok m last 0 (lit s '' '') = Some (args, m', last') \<and>
    (\<forall>a. \<not> in_region a (shell_buffer s) SHELL_BUFFER_SIZE \<longrightarrow> m' a = mem s a) \<and>
    (case next_token {32} l of None \<Rightarrow> cmd = 0
     | Some (w, rest) \<Rightarrow> cstring m' cmd w \<and> (case next_token {32} rest of
         None \<Rightarrow> args = 0 | Some (w', _) \<Rightarrow> token_at s m' args w'))"
proof -
  let ?b = "shell_buffer s" and ?d = "lit s '' ''"
  have b: "?b \<noteq> 0" "fits ?b 256" and d: "?d \<noteq> 0" "fits ?d 2"
    using im by (simp_all add: shell_image_def literal_at_def numeral_2_eq_2)
  have sub: "in_region a ?b (Suc (length l)) \<Longrightarrow> in_region a ?b 256" for a
    using l(2) by (simp add: in_region_def)
  have fl: "fits ?b (Suc (length l))"
    using b(2) l(2) by (simp add: fits_def)
  have ds: "cstring (mem s) ?d [32]"
    by (rule shell_image_names(2) [OF im refl])
  have step1: "case next_token {32} l of
      None \<Rightarrow> strtok (mem s) (strtok_last s) ?b ?d = Some (0, mem s, ?b + of_nat (length l))
    | Some (tok, rest) \<Rightarrow> \<exists>start m' lst'. strtok (mem s) (strtok_last s) ?b ?d = Some (start, m', lst') \<and>
        in_region start ?b (Suc (length l)) \<and> in_region lst' ?b (Suc (length l)) \<and>
        cstring m' start tok \<and> cstring m' lst' rest \<and>
        unat start + length tok + (if rest = [] then 0 else 1) \<le> unat lst' \<and>
        unat lst' + length rest \<le> unat ?b + length l \<and>
        (\<forall>a. \<not> in_region a ?b (Suc (length l)) \<longrightarrow> m' a = mem s a)"
    using strtok_step [of "mem s" ?d "[32]" ?b ?b "strtok_last s" l] ds d b l(1) fl by (simp add: numeral_2_eq_2)
  show ?thesis
  proof (cases "next_token {32} l")
    case None
    let ?lst = "?b + of_nat (length l)"
    have "mem s ?lst = 0"
      using l(1) by (simp add: cstring_iff)
    then have "strtok (mem s) ?lst 0 ?d = Some (0, mem s, ?lst)"
      by (simp add: strtok_def strtok_skip.simps [of "mem s" ?d ?lst])
    with step1 None show ?thesis by fastforce
  next
    case (Some r)
    obtain w rest where r: "r = (w, rest)" by (cases r)
    obtain start m' lst' where st: "strtok (mem s) (strtok_last s) ?b ?d = Some (start, m', lst')"
      "in_region start ?b (Suc (length l))" "in_region lst' ?b (Suc (length l))"
      "cstring m' start w" "cstring m' lst' rest"
      "unat start + length w + (if rest = [] then 0 else 1) \<le> unat lst'"
      "unat lst' + length rest \<le> unat ?b + length l"
      "\<forall>a. \<not> in_region a ?b (Suc (length l)) \<longrightarrow> m' a = mem s a"
      using step1 Some r by auto
    have out: "m' a = mem s a" if "\<not> in_region a ?b 256" for a
      using st(8) sub that by blast
    have lst: "lst' \<noteq> 0" "fits lst' (Suc (length rest))"
      using st(3,7) b fl by (auto simp: in_region_def fits_def unat_gt_0)
    have ds': "cstring m' ?d [32]"
      by (rule shell_image_names(2) [OF im out])
    note step2 = strtok_step [of m' ?d "[32]" lst' 0 lst' rest]
    show ?thesis
    proof (cases "next_token {32} rest")
      case None
      then have "strtok m' lst' 0 ?d = Some (0, m', lst' + of_nat (length rest))"
        using step2 ds' d lst st(5) by (simp add: numeral_2_eq_2)
      with st(1,4) out Some r None show ?thesis by fastforce
    next
      case inner: (Some r')
      obtain w' rest' where r': "r' = (w', rest')" by (cases r')
      obtain start' m'' lst'' where st': "strtok m' lst' 0 ?d = Some (start', m'', lst'')"
        "cstring m'' start' w'" "\<forall>a. \<not> in_region a lst' (Suc (length rest)) \<longrightarrow> m'' a = m' a"
        "in_region start' lst' (Suc (length rest))" "unat start' + length w' \<le> unat lst''"
        "unat lst'' + length rest' \<le> unat lst' + length rest"
        using step2 ds' d lst st(5) inner r' by (auto simp: numeral_2_eq_2)
      have "rest \<noteq> []"
        using inner by (auto simp: next_token_def)
      then have "apart start (Suc (length w)) lst' (Suc (length rest))"
        using st(6) by (simp add: apart_def)
      moreover have "fits start (Suc (length w))"
        using st(6,7) \<open>rest \<noteq> []\<close> fl by (simp add: fits_def)
      ultimately have "cstring m'' start w"
        using cstring_apart [OF st(4), of lst' "Suc (length rest)" m''] st'(3) by blast
      moreover have "m'' a = mem s a" if "\<not> in_region a ?b 256" for a
      proof -
        have "\<not> in_region a lst' (Suc (length rest))"
          using that st(3,7) l(2) by (auto simp: in_region_def)
        then show ?thesis using st'(3) out [OF that] by simp
      qed
      moreover have "token_at s m'' start' w'"
        using st' st(3,7) l(2) b by (intro token_atI) (auto simp: in_region_def)
      ultimately show ?thesis
        using st(1) st'(1) Some r inner r' by fastforce
    qed
  qed
qed

lemma dispatch_line:
  assumes im: "shell_image s" and l: "cstring (mem s) (shell_buffer s) l" "length l < SHELL_BUFFER_SIZE"
    and z: "cstring (mem s) 0 z" "apart 0 (Suc (length z)) (shell_buffer s) SHELL_BUFFER_SIZE" "length z < 0x1000"
  shows "\<exists>s' cmd args. (\<forall>a. \<not> in_region a (shell_buffer s) SHELL_BUFFER_SIZE \<longrightarrow> mem s' a = mem s a) \<and>
    s'\<lparr>mem := mem s, strtok_last := strtok_last s\<rparr> = s \<and>
    (case next_token {32} l of
       None \<Rightarrow> known filled_commands z = None \<longrightarrow>
         shell_process_command (shell_buffer s) s = Some (Inl NullCall)
     | Some (w, rest) \<Rightarrow> cstring (mem s') cmd w \<and>
         (case next_token {32} rest of None \<Rightarrow> args = 0 | Some (w', _) \<Rightarrow> token_at s (mem s') args w') \<and>
         shell_process_command (shell_buffer s) s =
           (case known filled_commands w of
              Some f \<Rightarrow> fret (run_command f args s')
            | None \<Rightarrow> if w = z then Some (Inl NullCall)
                      else fret (printf ''Command not found: %s\<newline>'' [cmd] s')))"
proof -
  obtain cmd m lst args m' lst' where st: "strtok (mem s) (strtok_last s) (shell_buffer s) (lit s '' '') = Some (cmd, m, lst)"
    "strtok m lst 0 (lit s '' '') = Some (args, m', lst')"
    "\<forall>a. \<not> in_region a (shell_buffer s) SHELL_BUFFER_SIZE \<longrightarrow> m' a = mem s a"
    "case next_token {32} l of None \<Rightarrow> cmd = 0
     | Some (w, rest) \<Rightarrow> cstring m' cmd w \<and> (case next_token {32} rest of
         None \<Rightarrow> args = 0 | Some (w', _) \<Rightarrow> token_at s m' args w')"
    using split_line [OF im l] by blast
  let ?s = "s\<lparr>mem := m', strtok_last := lst'\<rparr>"
  have run: "shell_process_command (shell_buffer s) s = dispatch (commands ?s) cmd args ?s"
    by (simp add: shell_process_command_def st(1,2) Let_def)
  have names: "list_all (\<lambda>(name, f, d). cstring (mem ?s) (lit ?s name) (bytes_of name)) filled_commands"
    using shell_image_names(1) [OF im, of m'] st(3) by simp
  have "fits 0 (Suc (length z))"
    using z(3) by (simp add: fits_def)
  then have z': "cstring (mem ?s) 0 z"
    using cstring_apart [OF z(1) _ z(2), of m'] st(3) by simp
  note d = dispatch_commands [OF _ z' names]
  show ?thesis
  proof (cases "next_token {32} l")
    case None
    then have "cmd = 0" using st(4) by simp
    then have "known filled_commands z = None \<longrightarrow>
        shell_process_command (shell_buffer s) s = Some (Inl NullCall)"
      using d [OF z'] by (simp add: run)
    then show ?thesis
      using None st(3) by (intro exI [of _ ?s]) simp
  next
    case (Some r)
    obtain w rest where r: "r = (w, rest)" by (cases r)
    then have w: "cstring (mem ?s) cmd w"
      using st(4) Some by simp
    show ?thesis
      using st(3,4) Some r d [OF w]
      by - (rule exI [of _ ?s], rule exI [of _ cmd], rule exI [of _ args], simp add: run cong: option.case_cong)
  qed
qed

text \<open>The three characters whose scan codes are control characters of ASCII.\<close>

lemma scancode_table:
  "list_all (\<lambda>(i, c). (c = 55 \<longrightarrow> i = 8) \<and> (c = 57 \<longrightarrow> i = 10) \<and> (c = 61 \<longrightarrow> i = 13))
    (enumerate 0 scancode_to_ascii)" "length scancode_to_ascii = 128"
  by code_simp+

lemma scancode_at:
  assumes "i < 128"
  shows "(scancode_to_ascii ! i = 55 \<longrightarrow> i = 8) \<and> (scancode_to_ascii ! i = 57 \<longrightarrow> i = 10) \<and>
    (scancode_to_ascii ! i = 61 \<longrightarrow> i = 13)"
proof -
  have "(i, scancode_to_ascii ! i) \<in> set (enumerate 0 scancode_to_ascii)"
    using assms scancode_table(2) by (simp add: in_set_enumerate_eq)
  then show ?thesis
    using scancode_table(1) by (auto simp: list_all_iff)
qed

lemma three_codes:
  assumes "kb_to_ascii ke s = c" "c = 55 \<or> c = 57 \<or> c = 61"
  shows "(c = 55 \<longrightarrow> scancode ke = 8) \<and> (c = 57 \<longrightarrow> scancode ke = 10) \<and> (c = 61 \<longrightarrow> scancode ke = 13)"
proof -
  let ?i = "unat (scancode ke)"
  have lt: "scancode ke < 128"
    using assms by (auto simp: kb_to_ascii_def split: if_splits)
  then have n: "?i < 128"
    by (simp add: word_less_nat_alt)
  have lower: "a - 32 \<noteq> c" if "97 \<le> sint a" for a :: u8
  proof
    assume "a - 32 = c"
    then have "a = c + 32" by (simp add: algebra_simps)
    with assms(2) that show False by auto
  qed
  have "scancode_to_ascii ! ?i = c"
    using assms(1) lt lower by (auto simp: kb_to_ascii_def to_upper_def Let_def split: if_splits)
  then have i: "c = 55 \<longrightarrow> ?i = 8" "c = 57 \<longrightarrow> ?i = 10" "c = 61 \<longrightarrow> ?i = 13"
    using scancode_at [OF n] by simp_all
  have sc: "scancode ke = of_nat ?i"
    by simp
  show ?thesis
    by (intro conjI impI; subst sc) (simp_all only: i of_nat_numeral)
qed

section \<open>Properties\<close>

text \<open>
  A machine whose literals stand at addresses of their own, with the line buffer at \<open>0x5000\<close> and the
  string \<open>"ls"\<close> nowhere but in its literal, for the witnesses.
\<close>

definition demo_lit :: "string \<Rightarrow> u32" where
  "demo_lit = (\<lambda>_. 0x100)('' '' := 0x200, ''help'' := 0x300, ''ls'' := 0x400, ''cd'' := 0x500, ''cat'' := 0x600,
     ''touch'' := 0x700, ''mkdir'' := 0x800, ''rm'' := 0x900, ''rmdir'' := 0xA00, ''uptime'' := 0xB00)"

fun poke :: "u32 \<Rightarrow> u8 list \<Rightarrow> ram \<Rightarrow> ram" where
  "poke p [] m = m(p := 0)"
| "poke p (b # bs) m = poke (p + 1) bs (m(p := b))"

definition demo_ram :: ram where
  "demo_ram = fold (\<lambda>str. poke (demo_lit str) (bytes_of str))
     ['' '', ''help'', ''ls'', ''cd'', ''cat'', ''touch'', ''mkdir'', ''rm'', ''rmdir'', ''uptime''] (\<lambda>_. 0)"

definition demo_shell :: shell where
  "demo_shell = reset_shell\<lparr>mem := demo_ram, lit := demo_lit, sym := \<lambda>_. 0x5000\<rparr>"

lemma demo_shell_sel [simp]:
  "mem demo_shell = demo_ram" "lit demo_shell = demo_lit" "shell_buffer demo_shell = 0x5000"
  "shell_index demo_shell = 0" "input_enabled demo_shell" "caps_lock_active demo_shell = False"
  by (simp_all add: demo_shell_def reset_shell_def shell_buffer_def)

lemma demo_image: "shell_image demo_shell"
  by (simp add: shell_image_def literal_at_def filled_commands_def demo_lit_def fits_def apart_def)
    (simp add: demo_ram_def demo_lit_def)

lemma demo_line: "line_rep demo_shell []"
  by (simp add: line_rep_def fits_def bytes_at_def)

text \<open>
  C34: the line editor. Any keys but Enter edit the line as the list operations \<open>edit\<close> say (characters
  at the end while there is room for a terminator, erasing from the end), and store only inside the
  256 bytes of the buffer; Enter then runs \<open>shell_process_command\<close> on exactly that line, and prints
  the prompt with the line emptied.
\<close>

theorem line_editor_refines:
  assumes "line_rep s []" "input_enabled s" "\<forall>k \<in> set keys. key_of k s \<noteq> Key_enter" "key_of ke s = Key_enter"
  shows "\<exists>s1 s2. type_keys keys s = Some (Inr s1) \<and>
    line_rep s1 (fold edit (map (\<lambda>k. key_of k s) keys) []) \<and>
    shell_handle_key ke s1 = fbind (shell_process_command (shell_buffer s) s2)
      (\<lambda>s. fret (printf ''nutshell> '' [] (s\<lparr>shell_index := 0\<rparr>))) \<and>
    cstring (mem s2) (shell_buffer s) (fold edit (map (\<lambda>k. key_of k s) keys) []) \<and>
    (\<forall>a. \<not> in_region a (shell_buffer s) 256 \<longrightarrow> mem s2 a = mem s a)"
proof -
  obtain s1 where s1: "type_keys keys s = Some (Inr s1)"
    "line_rep s1 (fold edit (map (\<lambda>k. key_of k s) keys) [])"
    "\<forall>a. \<not> in_region a (shell_buffer s) 256 \<longrightarrow> mem s1 a = mem s a"
    "s1\<lparr>mem := mem s, con := con s, shell_index := shell_index s\<rparr> = s"
    using edit_keys [OF assms(1-3)] by auto
  note same = same_but_line [OF s1(4)]
  show ?thesis
    using s1 enter_key [OF s1(2)] assms(2,4) by (fastforce simp: same)
qed

lemma line_editor_refines_witness:
  "\<exists>s1. type_keys [\<lparr>scancode = 0x26, shift = False, caps_lock = False, released = False, enter = False,
        backspace = False\<rparr>] demo_shell = Some (Inr s1) \<and> line_rep s1 [108]"
  using line_editor_refines [OF demo_line, of "[\<lparr>scancode = 0x26, shift = False, caps_lock = False,
      released = False, enter = False, backspace = False\<rparr>]" "\<lparr>scancode = 0x1C, shift = False,
      caps_lock = False, released = False, enter = True, backspace = False\<rparr>"]
  by (auto simp: key_of_def kb_to_ascii_def scancode_to_ascii_def)

text \<open>
  C35: a completed line is split at spaces, and its first word is looked up among the nine commands
  and called with the second word, or with NULL when there is none. A word that is no command is
  reported, unless it equals the string at address 0, which the null entries of the table match:
  that is a call through a null pointer. So is a line without any word.
\<close>

theorem command_dispatch:
  assumes "shell_image s" "cstring (mem s) (shell_buffer s) line" "length line < 256"
    and "cstring (mem s) 0 z" "apart 0 (Suc (length z)) (shell_buffer s) 256" "length z < 0x1000"
  shows "\<exists>s' cmd args. (\<forall>a. \<not> in_region a (shell_buffer s) 256 \<longrightarrow> mem s' a = mem s a) \<and>
    s'\<lparr>mem := mem s, strtok_last := strtok_last s\<rparr> = s \<and>
    (case next_token {32} line of
       None \<Rightarrow> known filled_commands z = None \<longrightarrow>
         shell_process_command (shell_buffer s) s = Some (Inl NullCall)
     | Some (w, rest) \<Rightarrow> cstring (mem s') cmd w \<and>
         (case next_token {32} rest of None \<Rightarrow> args = 0 | Some (w', _) \<Rightarrow> token_at s (mem s') args w') \<and>
         shell_process_command (shell_buffer s) s =
           (case known filled_commands w of
              Some f \<Rightarrow> fret (run_command f args s')
            | None \<Rightarrow> if w = z then Some (Inl NullCall)
                      else fret (printf ''Command not found: %s\<newline>'' [cmd] s')))"
  using dispatch_line [OF assms] .

lemma command_dispatch_witness:
  "shell_process_command 0x5000 demo_shell = Some (Inl NullCall)"
proof -
  have "cstring (mem demo_shell) (shell_buffer demo_shell) []" "cstring (mem demo_shell) 0 []"
    by (simp_all add: demo_ram_def demo_lit_def)
  moreover have "known filled_commands [] = None"
    by (simp add: known_def filled_commands_def)
  ultimately show ?thesis
    using command_dispatch [OF demo_image, of "[]" "[]"] by (auto simp: next_token_def apart_def)
qed

text \<open>
  C36: the characters 7, 9 and = cannot be typed. The event's scan code is compared with the ASCII
  codes of backspace, newline and carriage return, which are the scan codes of exactly these keys:
  7 erases the last character, 9 and = submit the line.
\<close>

theorem keys_7_9_equals_lost:
  assumes "kb_to_ascii ke s \<in> {55, 57, 61}" "line_rep s l" "input_enabled s"
  shows "if kb_to_ascii ke s = 55
    then \<exists>s'. shell_handle_key ke s = Some (Inr s') \<and> line_rep s' (butlast l)
    else \<exists>s1. shell_handle_key ke s = fbind (shell_process_command (shell_buffer s) s1)
        (\<lambda>s. fret (printf ''nutshell> '' [] (s\<lparr>shell_index := 0\<rparr>))) \<and> cstring (mem s1) (shell_buffer s) l"
proof -
  have codes: "kb_to_ascii ke s = 55 \<longrightarrow> scancode ke = 8"
    "kb_to_ascii ke s \<noteq> 55 \<longrightarrow> scancode ke = 10 \<or> scancode ke = 13"
    using three_codes [OF refl, of ke s] assms(1) by auto
  show ?thesis
  proof (cases "kb_to_ascii ke s = 55")
    case True
    then have "key_of ke s = Key_erase"
      using codes by (simp add: key_of_def)
    then show ?thesis
      using True edit_key [OF assms(2,3), of ke] by auto
  next
    case False
    then have "key_of ke s = Key_enter"
      using codes by (auto simp: key_of_def)
    then show ?thesis
      using False enter_key [OF assms(2,3)] by auto
  qed
qed

lemma keys_7_9_equals_lost_witness:
  "\<exists>s'. shell_handle_key \<lparr>scancode = 8, shift = False, caps_lock = False, released = False, enter = False,
     backspace = False\<rparr> demo_shell = Some (Inr s') \<and> line_rep s' []"
  using keys_7_9_equals_lost [OF _ demo_line, of "\<lparr>scancode = 8, shift = False, caps_lock = False,
      released = False, enter = False, backspace = False\<rparr>"]
  by (auto simp: kb_to_ascii_def scancode_to_ascii_def)

end
