(* ===== verification/Shell_Session.thy ===== *)
theory Shell_Session
  imports Shell_Files Shell_Props
begin

text \<open>
  A session at the keyboard: lines typed key by key into the shell of \<open>src/kernel/shell.cpp\<close>, each
  ended with Enter, with the file commands working on a represented file system. The contract of
  such a shell is a locale over the entries of the working directory; its instance composes the line
  editor, \<open>strtok\<close>, the command table, the file system and the heap.
\<close>

section \<open>The contract\<close>

text \<open>The commands as operations on the list of entries; without a name they print their usage.\<close>

fun dir_spec :: "command \<Rightarrow> u8 list \<Rightarrow> entry list \<Rightarrow> entry list" where
  "dir_spec c [] es = es"
| "dir_spec Cmd_touch nm es = (if length es < MAX_CHILDREN then es @ [(take 63 nm, FS_FILE)] else es)"
| "dir_spec Cmd_mkdir nm es = (if length es < MAX_CHILDREN then es @ [(take 63 nm, FS_DIRECTORY)] else es)"
| "dir_spec Cmd_rm nm es = remove_entry FS_FILE nm es"
| "dir_spec Cmd_rmdir nm es = remove_entry FS_DIRECTORY nm es"
| "dir_spec _ nm es = es"

definition edits :: "command \<Rightarrow> bool" where
  "edits c \<longleftrightarrow> c \<in> {Cmd_touch, Cmd_mkdir, Cmd_rm, Cmd_rmdir, Cmd_ls}"

fun run_all :: "('k \<Rightarrow> 's \<Rightarrow> (fault + 's) option) \<Rightarrow> 'k list \<Rightarrow> 's \<Rightarrow> (fault + 's) option" where
  "run_all ex [] s = Some (Inr s)"
| "run_all ex (k # ks) s = fbind (ex k s) (run_all ex ks)"

text \<open>
  \<open>holds s n es\<close>: \<open>s\<close> waits for a command, the entries are \<open>es\<close>, and \<open>n\<close> bytes of one piece are free.
  \<open>meant s k\<close> is the command that the input \<open>k\<close> stands for.
\<close>

locale directory_shell =
  fixes holds :: "'s \<Rightarrow> nat \<Rightarrow> entry list \<Rightarrow> bool"
    and meant :: "'s \<Rightarrow> 'k \<Rightarrow> (command \<times> u8 list) option"
    and exec :: "'k \<Rightarrow> 's \<Rightarrow> (fault + 's) option"
    and cost :: nat
  assumes exec_ok: "meant s k = Some (c, nm) \<Longrightarrow> edits c \<Longrightarrow> holds s (cost + n) es \<Longrightarrow> 16 \<le> n \<Longrightarrow>
    \<exists>s'. exec k s = Some (Inr s') \<and> holds s' n (dir_spec c nm es) \<and> meant s' = meant s"
begin

lemma run_ok:
  "map (meant s) ks = map Some xs \<Longrightarrow> (\<And>x. x \<in> set xs \<Longrightarrow> edits (fst x)) \<Longrightarrow>
    holds s (cost * length ks + n) es \<Longrightarrow> 16 \<le> n \<Longrightarrow>
    \<exists>s'. run_all exec ks s = Some (Inr s') \<and> holds s' n (fold (\<lambda>(c, nm). dir_spec c nm) xs es) \<and> meant s' = meant s"
proof (induction ks arbitrary: s es xs)
  case Nil
  then show ?case by simp
next
  case (Cons k ks)
  obtain c nm ys where y: "xs = (c, nm) # ys" "meant s k = Some (c, nm)" "map (meant s) ks = map Some ys"
    using Cons.prems(1) by (cases xs) auto
  have "edits c" using Cons.prems(2) [of "(c, nm)"] y by simp
  moreover have "holds s (cost + (cost * length ks + n)) es" using Cons.prems(3) by (simp add: ac_simps)
  ultimately obtain s1 where s1: "exec k s = Some (Inr s1)" "holds s1 (cost * length ks + n) (dir_spec c nm es)"
    "meant s1 = meant s"
    using exec_ok [OF y(2)] Cons.prems(4) by (metis trans_le_add2)
  have "\<exists>s'. run_all exec ks s1 = Some (Inr s') \<and>
      holds s' n (fold (\<lambda>(c, nm). dir_spec c nm) ys (dir_spec c nm es)) \<and> meant s' = meant s1"
    using Cons.IH [of s1 ys] y(1,3) s1(2,3) Cons.prems(2,4) by simp
  then show ?case using s1(1,3) y(1) by simp
qed

end

section \<open>What a command leaves alone\<close>

lemma heap_rep_outside:
  assumes "heap_rep s bs" "free_list s' = free_list s" "\<And>x. x \<in> heap_area \<Longrightarrow> mem s' x = mem s x"
  shows "heap_rep s' bs"
proof -
  have e: "extent bs = 0x800000" using assms(1) by (simp add: heap_rep_def)
  have c: "chain (mem s) 0x800000 bs 0" using assms(1) by (simp add: heap_rep_def)
  have "mem s' x = mem s x" if "0x800000 \<le> unat x" "unat x < 0x800000 + extent bs" for x
    by (rule assms(3)) (use that e in \<open>simp add: heap_area_def\<close>)
  then have "chain (mem s') 0x800000 bs 0"
    using e by (intro chain_agree [OF c]) simp_all
  then show ?thesis using assms(1,2) by (simp add: heap_rep_def)
qed

lemma fs_state_outside:
  assumes S: "fs_state bs fs d s" and same: "free_list s' = free_list s" "root s' = root s" "current_dir s' = current_dir s"
    and m: "\<And>x. x \<in> heap_area \<Longrightarrow> mem s' x = mem s x"
  shows "fs_state bs fs d s'"
proof -
  have rep: "heap_rep s bs" and st: "store_rep (heap_live bs) (mem s) fs" using S by (simp_all add: fs_state_def)
  have "store_rep (heap_live bs) (mem s') fs"
  proof (rule store_rep_agree [OF blocks_heap [OF rep] st])
    show "agree_on (mem s) (mem s') p k" if "(p, k) \<in> heap_live bs" for p k
      unfolding agree_on_def using m kheap.live_area [OF rep that] by blast
  qed simp
  moreover have "heap_rep s' bs" by (rule heap_rep_outside [OF rep same(1) m])
  moreover have "work_dir s' = d" using S same unfolding fs_state_def work_dir_def by presburger
  ultimately show ?thesis using S by (simp add: fs_state_def)
qed

text \<open>The line buffer and the literals that the dispatcher reads lie outside the heap.\<close>

definition image_apart :: "'a machine_scheme \<Rightarrow> bool" where
  "image_apart s \<longleftrightarrow> (\<forall>x. in_region x (shell_buffer s) SHELL_BUFFER_SIZE \<longrightarrow> x \<notin> heap_area) \<and>
     list_all (\<lambda>str. \<forall>j \<le> length str. lit s str + of_nat j \<notin> heap_area) ('' '' # map fst filled_commands)"

lemma image_same:
  assumes im: "shell_image s" "image_apart s" and same: "sym s' = sym s" "lit s' = lit s"
    and m: "\<And>str j. str \<in> set ('' '' # map fst filled_commands) \<Longrightarrow> j \<le> length str \<Longrightarrow>
      mem s' (lit s str + of_nat j) = mem s (lit s str + of_nat j)"
  shows "shell_image s'" "image_apart s'"
proof -
  have b: "shell_buffer s' = shell_buffer s" by (simp add: shell_buffer_def same)
  have lit: "literal_at s' str" if l: "literal_at s str" and str: "str \<in> set ('' '' # map fst filled_commands)" for str
  proof -
    have "cstring (mem s) (lit s str) (bytes_of str)" using l by (simp add: literal_at_def)
    then have "cstring (mem s') (lit s str) (bytes_of str)" using m [OF str] by (auto simp: cstring_iff)
    then show ?thesis using l by (simp add: literal_at_def b same)
  qed
  show "shell_image s'"
    unfolding shell_image_def b
  proof (intro conjI)
    show "list_all (\<lambda>(name, f, d). literal_at s' name) filled_commands"
      using im(1) lit by (force simp: shell_image_def list_all_iff)
  qed (use im(1) lit in \<open>simp_all add: shell_image_def\<close>)
  show "image_apart s'" using im(2) by (simp add: image_apart_def b same)
qed

lemma image_keep:
  assumes im: "shell_image s" "image_apart s" and same: "sym s' = sym s" "lit s' = lit s"
    and m: "\<And>x. x \<notin> heap_area \<Longrightarrow> \<not> in_region x (shell_buffer s) SHELL_BUFFER_SIZE \<Longrightarrow> mem s' x = mem s x"
  shows "shell_image s'" "image_apart s'"
proof -
  have "mem s' (lit s str + of_nat j) = mem s (lit s str + of_nat j)"
    if str: "str \<in> set ('' '' # map fst filled_commands)" and j: "j \<le> length str" for str j
  proof (rule m)
    have "literal_at s str" using im(1) str by (auto simp: shell_image_def list_all_iff)
    then have a: "fits (lit s str) (Suc (length str))" "apart (lit s str) (Suc (length str)) (shell_buffer s) 256"
      by (simp_all add: literal_at_def)
    show "\<not> in_region (lit s str + of_nat j) (shell_buffer s) 256"
      by (rule apart_in_region [OF a(2)]) (rule in_region_offset [OF a(1)], use j in simp)
    show "lit s str + of_nat j \<notin> heap_area"
      using im(2) str j by (auto simp: image_apart_def list_all_iff)
  qed
  from image_same [OF im same this] show "shell_image s'" "image_apart s'" by blast+
qed

section \<open>One command\<close>

lemma command_effect:
  assumes S: "fs_state bs fs d s" and c: "edits c" and arg: "args = 0 \<and> nm = [] \<or> arg_at (mem s) args nm"
    and sp: "space (376 + n) bs" "16 \<le> n"
  obtains e out m bs' fs' where "run_command c args s = Some (heap_after e out m)" "e = s \<or> e = enter_dir s"
    "fs_state bs' fs' d (heap_after e out m)" "space n bs'" "entries fs' d = dir_spec c nm (entries fs d)"
    "\<And>x. x \<notin> heap_area \<Longrightarrow> m x = mem s x"
proof -
  have sp': "space (248 + n) bs" "space n bs" using sp(1) by (auto elim: space_mono)
  have ls: "dir_spec Cmd_ls nm (entries fs d) = entries fs d" by (cases nm) simp_all
  note result = that
  have usage: thesis if u: "nm = []" "run_command c args s = printf f [] (enter_dir s)" "CHR ''%'' \<notin> set f" for f
  proof (rule result [of "enter_dir s" "bytes_of f" "mem s" bs fs])
    show "run_command c args s = Some (heap_after (enter_dir s) (bytes_of f) (mem s))"
      using u(3) by (simp add: u(2) printf_plain heap_after_def)
  qed (use fs_state_enter [OF S] u(1) sp'(2) in simp_all)
  have effect: thesis
    if e: "run_command c args s = Some (heap_after (enter_dir s) out m)"
      "\<And>out. fs_state bs' fs' d (heap_after (enter_dir s) out m)" "space n bs'"
      "entries fs' d = dir_spec c nm (entries fs d)" "\<And>x. x \<notin> heap_area \<Longrightarrow> m x = mem s x" for out m bs' fs'
    by (rule result [OF e(1) disjI2 [OF refl] e(2,3,4,5)])
  show thesis
  proof (cases "c = Cmd_ls")
    case True
    show thesis
      by (rule result [of "enter_dir s" _ "mem s" bs fs])
        (use cmd_ls_rep [OF S] fs_state_enter [OF S] sp'(2) in \<open>simp_all add: True ls\<close>)
  next
    case ls: False
    show thesis
    proof (cases "args = 0 \<and> nm = []")
      case True
      have na: "no_args args (enter_dir s) = Some True" using True by (simp add: no_args_def)
      consider "c = Cmd_touch" | "c = Cmd_mkdir" | "c = Cmd_rm" | "c = Cmd_rmdir"
        using c ls by (auto simp: edits_def)
      then show thesis
      proof cases
        case 1
        then show thesis using True na
          by (intro usage [of "''Usage: touch <filename>\<newline>''"]) (simp_all add: cmd_touch_def)
      next
        case 2
        then show thesis using True na
          by (intro usage [of "''Usage: mkdir <dirname>\<newline>''"]) (simp_all add: cmd_mkdir_def)
      next
        case 3
        then show thesis using True na
          by (intro usage [of "''Usage: rm <filename>\<newline>''"]) (simp_all add: cmd_rm_def)
      next
        case 4
        then show thesis using True na
          by (intro usage [of "''Usage: rmdir <dirname>\<newline>''"]) (simp_all add: cmd_rmdir_def)
      qed
    next
      case False
      then have a: "arg_at (mem s) args nm" using arg by blast
      obtain b ys where nm: "nm = b # ys" using a by (cases nm) (simp_all add: arg_at_def)
      consider "c = Cmd_touch" | "c = Cmd_mkdir" | "c = Cmd_rm" | "c = Cmd_rmdir"
        using c ls by (auto simp: edits_def)
      then show thesis
      proof cases
        case 1
        show thesis
          by (rule cmd_touch_rep [OF S a sp], rule effect, unfold 1 run_command.simps, assumption, assumption)
            (use sp'(2) in \<open>simp_all add: 1 nm\<close>)
      next
        case 2
        show thesis
          by (rule cmd_mkdir_rep [OF S a sp'(1) sp(2)], rule effect, unfold 2 run_command.simps, assumption, assumption)
            (use sp'(2) in \<open>simp_all add: 2 nm\<close>)
      next
        case 3
        show thesis
          by (rule cmd_rm_rep [OF S a], rule effect, unfold 3 run_command.simps, assumption, assumption)
            (use sp'(2) in \<open>simp_all add: 3 nm\<close>)
      next
        case 4
        show thesis
          by (rule cmd_rmdir_rep [OF S a], rule effect, unfold 4 run_command.simps, assumption, assumption)
            (use sp'(2) in \<open>simp_all add: 4 nm\<close>)
      qed
    qed
  qed
qed

section \<open>One line\<close>

definition parse_line :: "u8 list \<Rightarrow> (command \<times> u8 list) option" where
  "parse_line l = (case next_token {32} l of
      None \<Rightarrow> None
    | Some (w, rest) \<Rightarrow> map_option (\<lambda>c. (c, case next_token {32} rest of None \<Rightarrow> [] | Some (nm, _) \<Rightarrow> nm))
        (known filled_commands w))"

lemma next_token_token:
  assumes "next_token D l = Some (w, rest)"
  shows "w \<noteq> []" "length w + length rest \<le> length l"
proof -
  let ?ws = "dropWhile (\<lambda>b. b \<in> D) l"
  have t: "w = takeWhile (\<lambda>b. b \<notin> D) ?ws" "rest = tl (dropWhile (\<lambda>b. b \<notin> D) ?ws)" "?ws \<noteq> []"
    using assms by (auto simp: next_token_def Let_def split: if_splits)
  show "w \<noteq> []"
    using t(1,3) hd_dropWhile [OF t(3)] by (cases ?ws) simp_all
  have "length w + length (dropWhile (\<lambda>b. b \<notin> D) ?ws) = length ?ws"
    unfolding t(1) length_append [symmetric] takeWhile_dropWhile_id ..
  moreover have "length ?ws \<le> length l" by (rule length_dropWhile_le)
  ultimately show "length w + length rest \<le> length l" by (simp add: t(2))
qed

text \<open>\<open>shell_process_command\<close> on a line that names a command.\<close>

lemma process_line:
  assumes im: "shell_image s" "image_apart s" and l: "cstring (mem s) (shell_buffer s) l" "length l < SHELL_BUFFER_SIZE"
    and c: "parse_line l = Some (c, nm)"
  obtains m last args where
    "shell_process_command (shell_buffer s) s = fret (run_command c args (s\<lparr>mem := m, strtok_last := last\<rparr>))"
    "\<And>x. \<not> in_region x (shell_buffer s) SHELL_BUFFER_SIZE \<Longrightarrow> m x = mem s x"
    "args = 0 \<and> nm = [] \<or> arg_at m args nm"
proof -
  obtain w rest where w: "next_token {32} l = Some (w, rest)" "known filled_commands w = Some c"
    "nm = (case next_token {32} rest of None \<Rightarrow> [] | Some (nm, _) \<Rightarrow> nm)"
    using c by (auto simp: parse_line_def split: option.splits)
  obtain cmd m lst args m' lst' where st: "strtok (mem s) (strtok_last s) (shell_buffer s) (lit s '' '') = Some (cmd, m, lst)"
    "strtok m lst 0 (lit s '' '') = Some (args, m', lst')"
    "\<forall>a. \<not> in_region a (shell_buffer s) 256 \<longrightarrow> m' a = mem s a" "cstring m' cmd w"
    "case next_token {32} rest of None \<Rightarrow> args = 0 | Some (w', _) \<Rightarrow> token_at s m' args w'"
    using split_line [OF im(1) l] unfolding w(1) option.case prod.case by blast
  let ?s = "s\<lparr>mem := m', strtok_last := lst'\<rparr>"
  have names: "list_all (\<lambda>(name, f, d). cstring (mem ?s) (lit ?s name) (bytes_of name)) filled_commands"
    using shell_image_names(1) [OF im(1), of m'] st(3) by simp
  have run: "shell_process_command (shell_buffer s) s = fret (run_command c args ?s)"
    using dispatch_filled [OF _ names, of cmd w] st(4) w(2)
    by (simp add: shell_process_command_def st(1,2) commands_def Let_def)
  have arg: "args = 0 \<and> nm = [] \<or> arg_at m' args nm"
  proof (cases "next_token {32} rest")
    case None
    then show ?thesis using st(5) w(3) by simp
  next
    case (Some r)
    then obtain rest' where r: "next_token {32} rest = Some (nm, rest')" using w(3) by (cases r) simp
    then have "token_at s m' args nm" using st(5) by simp
    moreover have "length nm < 256"
      using next_token_token(2) [OF r] next_token_token(2) [OF w(1)] l(2) by simp
    ultimately show ?thesis
      using next_token_token(1) [OF r] im(2) by (auto simp: arg_at_def token_at_def image_apart_def)
  qed
  show thesis by (rule that [OF run _ arg]) (use st(3) in simp)
qed

section \<open>The session\<close>

text \<open>The shell waits for a command; the input is a sequence of keys, the last one Enter.\<close>

definition at_prompt :: "'a shell_scheme \<Rightarrow> nat \<Rightarrow> entry list \<Rightarrow> bool" where
  "at_prompt s n es \<longleftrightarrow> (\<exists>bs fs d. fs_state bs fs d s \<and> space n bs \<and> entries fs d = es) \<and>
     line_rep s [] \<and> input_enabled s \<and> shell_image s \<and> image_apart s"

definition line_of :: "'a shell_scheme \<Rightarrow> keyboard_event list \<Rightarrow> u8 list" where
  "line_of s keys = fold edit (map (\<lambda>k. key_of k s) keys) []"

definition meant :: "'a shell_scheme \<Rightarrow> keyboard_event list \<Rightarrow> (command \<times> u8 list) option" where
  "meant s keys =
     (if keys \<noteq> [] \<and> key_of (last keys) s = Key_enter \<and> (\<forall>k \<in> set (butlast keys). key_of k s \<noteq> Key_enter)
      then parse_line (line_of s (butlast keys)) else None)"

lemma meant_cong:
  assumes "caps_lock_active s' = caps_lock_active s"
  shows "meant s' = meant s"
proof -
  have "key_of k s' = key_of k s" for k using assms by (simp add: key_of_def kb_to_ascii_def)
  then show ?thesis by (intro ext) (simp add: meant_def line_of_def)
qed

lemma option_sum_cases [case_names None Inl Inr]:
  "(x = None \<Longrightarrow> P) \<Longrightarrow> (\<And>e. x = Some (Inl e) \<Longrightarrow> P) \<Longrightarrow> (\<And>a. x = Some (Inr a) \<Longrightarrow> P) \<Longrightarrow> P"
  by (metis option.exhaust sum.exhaust)

lemma type_keys_append: "type_keys (xs @ ys) s = fbind (type_keys xs s) (type_keys ys)"
proof (induction xs arbitrary: s)
  case (Cons k xs)
  show ?case by (cases "shell_handle_key k s" rule: option_sum_cases) (simp_all add: Cons.IH)
qed simp

lemma run_all_type_keys: "run_all type_keys ks s = type_keys (concat ks) s"
proof (induction ks arbitrary: s)
  case (Cons k ks)
  show ?case by (cases "type_keys k s" rule: option_sum_cases) (simp_all add: type_keys_append Cons.IH)
qed simp

text \<open>\<open>session s n l es\<close>: as \<open>at_prompt\<close>, with the line \<open>l\<close> typed so far.\<close>

definition session :: "'a shell_scheme \<Rightarrow> nat \<Rightarrow> u8 list \<Rightarrow> entry list \<Rightarrow> bool" where
  "session s n l es \<longleftrightarrow> (\<exists>bs fs d. fs_state bs fs d s \<and> space n bs \<and> entries fs d = es) \<and>
     line_rep s l \<and> input_enabled s \<and> shell_image s \<and> image_apart s"

lemma at_prompt_session: "at_prompt s n es \<longleftrightarrow> session s n [] es"
  by (simp add: at_prompt_def session_def)

text \<open>
  \<open>echoes s s'\<close>: output to the terminal, and memory outside the heap and the line buffer, the
  modifiers and the handlers as they were.
\<close>

definition echoes :: "'a shell_scheme \<Rightarrow> 'a shell_scheme \<Rightarrow> bool" where
  "echoes s s' \<longleftrightarrow> (\<exists>out. con s' = term_write out (con s)) \<and> sym s' = sym s \<and>
     (\<forall>x. x \<notin> heap_area \<longrightarrow> \<not> in_region x (shell_buffer s) SHELL_BUFFER_SIZE \<longrightarrow> mem s' x = mem s x) \<and>
     shift_pressed s' = shift_pressed s \<and>
     caps_lock_active s' = caps_lock_active s \<and> interrupt_handlers s' = interrupt_handlers s \<and>
     interrupts_on s' = interrupts_on s"

lemma echoes_trans:
  assumes "echoes s s'" "echoes s' s''"
  shows "echoes s s''"
proof -
  obtain a b where "con s' = term_write a (con s)" "con s'' = term_write b (con s')"
    using assms by (auto simp: echoes_def)
  then have "\<exists>out. con s'' = term_write out (con s)" by (metis term_write_append)
  moreover have "shell_buffer s' = shell_buffer s" using assms(1) by (simp add: echoes_def shell_buffer_def)
  ultimately show ?thesis using assms by (simp add: echoes_def)
qed

text \<open>Only the line has changed.\<close>

lemma session_line:
  assumes S: "session s n l es" and ln: "line_rep s1 l'" "s1\<lparr>mem := mem s, con := con s, shell_index := shell_index s\<rparr> = s"
    and m: "\<And>x. \<not> in_region x (shell_buffer s) SHELL_BUFFER_SIZE \<Longrightarrow> mem s1 x = mem s x"
  shows "session s1 n l' es"
proof -
  obtain bs fs d where F: "fs_state bs fs d s" "space n bs" "entries fs d = es" using S by (auto simp: session_def)
  have im: "shell_image s" "image_apart s" "input_enabled s" using S by (simp_all add: session_def)
  have ap: "\<not> in_region x (shell_buffer s) 256" if "x \<in> heap_area" for x
    using im(2) that by (auto simp: image_apart_def)
  note same = same_but_line [OF ln(2)]
  have fields: "free_list s1 = free_list s" "root s1 = root s" "current_dir s1 = current_dir s"
    using arg_cong [OF ln(2), of free_list] arg_cong [OF ln(2), of root] arg_cong [OF ln(2), of current_dir] by simp_all
  have "fs_state bs fs d s1" by (rule fs_state_outside [OF F(1) fields]) (use m ap in simp)
  moreover have "shell_image s1" "image_apart s1" using image_keep [OF im(1,2) same(4,5)] m by simp_all
  ultimately show ?thesis using F(2,3) ln(1) im(3) same(1) by (auto simp: session_def)
qed

lemma echoes_line:
  assumes "s1\<lparr>mem := mem s, con := con s, shell_index := shell_index s\<rparr> = s" "con s1 = term_write out (con s)"
    and "\<And>x. \<not> in_region x (shell_buffer s) SHELL_BUFFER_SIZE \<Longrightarrow> mem s1 x = mem s x"
  shows "echoes s s1"
  using assms(2,3) same_but_line(4) [OF assms(1)] arg_cong [OF assms(1), of shift_pressed] arg_cong [OF assms(1), of caps_lock_active]
    arg_cong [OF assms(1), of interrupt_handlers] arg_cong [OF assms(1), of interrupts_on]
  by (auto simp: echoes_def)

text \<open>A key that is not Enter edits the line.\<close>

lemma session_key:
  assumes S: "session s n l es" and k: "key_of ke s \<noteq> Key_enter"
  obtains s1 where "shell_handle_key ke s = Some (Inr s1)" "session s1 n (edit (key_of ke s) l) es" "echoes s s1"
proof -
  have "line_rep s l" "input_enabled s" using S by (simp_all add: session_def)
  from edit_key [OF this k] obtain s1 where s1: "shell_handle_key ke s = Some (Inr s1)"
    "line_rep s1 (edit (key_of ke s) l)" "con s1 = term_write (echo (key_of ke s) l) (con s)"
    "\<forall>a. \<not> in_region a (shell_buffer s) SHELL_BUFFER_SIZE \<longrightarrow> mem s1 a = mem s a"
    "s1\<lparr>mem := mem s, con := con s, shell_index := shell_index s\<rparr> = s" by blast
  show thesis
    by (rule that [OF s1(1)]) (rule session_line [OF S s1(2,5)], use s1(4) in blast, rule echoes_line [OF s1(5,3)],
      use s1(4) in blast)
qed

text \<open>Enter hands the line, terminated, to \<open>shell_process_command\<close>.\<close>

lemma session_submit:
  assumes S: "session s n l es" and k: "key_of ke s = Key_enter"
  obtains s2 where "shell_handle_key ke s = fbind (shell_process_command (shell_buffer s2) s2)
      (\<lambda>s. fret (printf ''nutshell> '' [] (s\<lparr>shell_index := 0\<rparr>)))"
    "cstring (mem s2) (shell_buffer s2) l" "length l < SHELL_BUFFER_SIZE" "session s2 n l es" "echoes s s2"
proof -
  have ln: "line_rep s l" "input_enabled s" using S by (simp_all add: session_def)
  obtain s2 where s2: "shell_handle_key ke s = fbind (shell_process_command (shell_buffer s) s2)
      (\<lambda>s. fret (printf ''nutshell> '' [] (s\<lparr>shell_index := 0\<rparr>)))" "cstring (mem s2) (shell_buffer s) l"
    "\<And>x. \<not> in_region x (shell_buffer s) 256 \<Longrightarrow> mem s2 x = mem s x" "s2\<lparr>mem := mem s, con := con s\<rparr> = s"
    "con s2 = term_write [10] (con s)"
    using enter_key [OF ln k] by auto
  have eq2: "s2\<lparr>mem := mem s, con := con s, shell_index := shell_index s\<rparr> = s"
    using arg_cong [OF s2(4), of "\<lambda>z. z\<lparr>shell_index := shell_index s\<rparr>"] by simp
  note buf = same_but_line(3) [OF eq2]
  have index: "shell_index s2 = shell_index s" using arg_cong [OF s2(4), of shell_index] by simp
  have "line_rep s2 l"
    using ln(1) s2(2) unfolding line_rep_def index buf
    by (auto simp: cstring_iff intro!: nth_equalityI)
  then have S2: "session s2 n l es" by (rule session_line [OF S _ eq2 s2(3)])
  have l: "length l < 256" using ln(1) by (simp add: line_rep_def)
  show thesis by (rule that [OF s2(1,2) [folded buf] l S2 echoes_line [OF eq2 s2(5,3)]])
qed

text \<open>A command that only prints: the prompt returns to the same directory.\<close>

lemma session_strtok: "session (s\<lparr>strtok_last := p\<rparr>) n l es = session s n l es"
  by (simp add: session_def fs_state_def heap_rep_def work_dir_def line_rep_def shell_image_def
      literal_at_def image_apart_def shell_buffer_def)

lemma session_reply:
  assumes S: "session s n l es" and s': "s'\<lparr>mem := mem s, strtok_last := strtok_last s\<rparr> = s"
    "\<And>x. \<not> in_region x (shell_buffer s) SHELL_BUFFER_SIZE \<Longrightarrow> mem s' x = mem s x"
  obtains s1 where "printf ''nutshell> '' [] (s'\<lparr>con := term_write out (con s'), shell_index := 0\<rparr>) = Some s1"
    "session s1 n [] es" "echoes s s1"
proof -
  let ?s1 = "s'\<lparr>con := term_write (out @ bytes_of ''nutshell> '') (con s'), shell_index := 0\<rparr>"
  let ?s2 = "?s1\<lparr>strtok_last := strtok_last s\<rparr>"
  have c: "con s' = con s" "shell_index s' = shell_index s"
    using arg_cong [OF s'(1), of con] arg_cong [OF s'(1), of shell_index] by simp_all
  have "s'\<lparr>strtok_last := strtok_last s, mem := mem s\<rparr> = s" using s'(1) by (cases s') simp
  then have eq: "?s2\<lparr>mem := mem s, con := con s, shell_index := shell_index s\<rparr> = s"
    using arg_cong [of _ s "\<lambda>z. z\<lparr>con := con s, shell_index := shell_index s\<rparr>"] by fastforce
  have "line_rep s l" using S by (simp add: session_def)
  then have "line_rep ?s2 []"
    using same_but_line(3) [OF eq] by (simp add: line_rep_def bytes_at_def)
  then have "session ?s2 n [] es" by (rule session_line [OF S _ eq]) (use s'(2) in simp)
  then have "session ?s1 n [] es" unfolding session_strtok .
  moreover have "echoes s ?s2"
    by (rule echoes_line [OF eq, of "out @ bytes_of ''nutshell> ''"]) (use s'(2) in \<open>simp_all add: c\<close>)
  then have "echoes s ?s1" by (simp add: echoes_def)
  moreover have "printf ''nutshell> '' [] (s'\<lparr>con := term_write out (con s'), shell_index := 0\<rparr>) = Some ?s1"
    by (simp add: printf_plain term_write_append)
  ultimately show thesis using that by blast
qed

text \<open>Enter runs the command on the line, and the prompt returns.\<close>

lemma session_enter:
  assumes S: "session s (376 + n) l es" and k: "key_of ke s = Key_enter"
    and c: "parse_line l = Some (c, nm)" "edits c" and n: "16 \<le> n"
  obtains s1 where "shell_handle_key ke s = Some (Inr s1)" "session s1 n [] (dir_spec c nm es)" "echoes s s1"
proof -
  obtain s2 where s2: "shell_handle_key ke s = fbind (shell_process_command (shell_buffer s2) s2)
      (\<lambda>s. fret (printf ''nutshell> '' [] (s\<lparr>shell_index := 0\<rparr>)))"
    "cstring (mem s2) (shell_buffer s2) l" "length l < 256" "session s2 (376 + n) l es" "echoes s s2"
    by (rule session_submit [OF S k])
  let ?b = "shell_buffer s2"
  obtain bs fs d where F: "fs_state bs fs d s2" "space (376 + n) bs" "entries fs d = es"
    using s2(4) by (auto simp: session_def)
  have im2: "shell_image s2" "image_apart s2" "input_enabled s2" using s2(4) by (simp_all add: session_def)
  have ap: "\<not> in_region x ?b 256" if "x \<in> heap_area" for x
    using im2(2) that by (auto simp: image_apart_def)
  obtain m lst args where run: "shell_process_command ?b s2 =
      fret (run_command c args (s2\<lparr>mem := m, strtok_last := lst\<rparr>))"
    "\<And>x. \<not> in_region x ?b 256 \<Longrightarrow> m x = mem s2 x" "args = 0 \<and> nm = [] \<or> arg_at m args nm"
    by (rule process_line [OF im2(1,2) s2(2,3) c(1)]) (rule that)
  let ?s3 = "s2\<lparr>mem := m, strtok_last := lst\<rparr>"
  have S3: "fs_state bs fs d ?s3"
    by (rule fs_state_outside [OF F(1)]) (use run(2) ap in simp_all)
  show thesis
  proof (rule command_effect [OF S3 c(2) _ F(2) n])
    show "args = 0 \<and> nm = [] \<or> arg_at (mem ?s3) args nm" using run(3) by simp
    fix e out m' bs' fs'
    assume r: "run_command c args ?s3 = Some (heap_after e out m')" "e = ?s3 \<or> e = enter_dir ?s3"
      "fs_state bs' fs' d (heap_after e out m')" "space n bs'" "entries fs' d = dir_spec c nm (entries fs d)"
      "\<And>x. x \<notin> heap_area \<Longrightarrow> m' x = mem ?s3 x"
    let ?x = "heap_after e out m'\<lparr>shell_index := 0\<rparr>"
    let ?s4 = "?x\<lparr>con := term_write (bytes_of ''nutshell> '') (con ?x)\<rparr>"
    have e: "sym e = sym s2" "lit e = lit s2" "input_enabled e = input_enabled s2" "con e = con s2"
      "shift_pressed e = shift_pressed s2" "caps_lock_active e = caps_lock_active s2"
      "interrupt_handlers e = interrupt_handlers s2" "interrupts_on e = interrupts_on s2"
      using r(2) by (auto simp: enter_dir_def split: if_splits)
    then have s4: "sym ?s4 = sym s2" "lit ?s4 = lit s2" "input_enabled ?s4 = input_enabled s2" "mem ?s4 = m'"
      by (simp_all add: heap_after_def)
    have typed: "shell_handle_key ke s = Some (Inr ?s4)"
      by (simp add: s2(1) run(1) r(1) printf_plain)
    have "fs_state bs' fs' d ?s4" by (rule fs_state_outside [OF r(3)]) (simp_all add: heap_after_def)
    moreover have m4: "mem ?s4 x = mem s2 x" if "x \<notin> heap_area" "\<not> in_region x ?b 256" for x
      using r(6) [OF that(1)] run(2) that(2) by (simp add: s4)
    then have "shell_image ?s4" "image_apart ?s4" using image_keep [OF im2(1,2) s4(1,2)] by blast+
    moreover have "line_rep ?s4 []"
      using s4(1) im2(1) by (simp add: line_rep_def shell_image_def shell_buffer_def bytes_at_def)
    moreover have "input_enabled ?s4" using s4(3) im2(3) by simp
    ultimately have "session ?s4 n [] (dir_spec c nm es)" using r(4,5) F(3) by (auto simp: session_def)
    moreover have "con ?s4 = term_write (out @ bytes_of ''nutshell> '') (con s2)"
      by (simp add: heap_after_def term_write_append e(4))
    then have "\<exists>x. con ?s4 = term_write x (con s2)" by (rule exI)
    then have "echoes s2 ?s4"
      unfolding echoes_def using m4 e(5-8) s4(1) by (intro conjI) (simp_all add: heap_after_def)
    ultimately show thesis using typed that echoes_trans [OF s2(5)] by blast
  qed
qed

text \<open>Keys that spell a command with Enter: the command runs and the prompt returns.\<close>

lemma type_line:
  assumes P: "at_prompt s (376 + n) es" and k: "meant s keys = Some (c, nm)" and c: "edits c" and n: "16 \<le> n"
  shows "\<exists>s'. type_keys keys s = Some (Inr s') \<and> at_prompt s' n (dir_spec c nm es) \<and> meant s' = meant s"
proof -
  let ?l = "line_of s (butlast keys)"
  have S: "session s (376 + n) [] es" "line_rep s []" "input_enabled s"
    using P by (simp_all add: at_prompt_session session_def)
  have keys: "keys \<noteq> []" "key_of (last keys) s = Key_enter" "\<forall>k \<in> set (butlast keys). key_of k s \<noteq> Key_enter"
    "parse_line ?l = Some (c, nm)"
    using k by (auto simp: meant_def split: if_splits)
  obtain s1 where s1: "type_keys (butlast keys) s = Some (Inr s1)" "line_rep s1 ?l"
    "\<And>x. \<not> in_region x (shell_buffer s) 256 \<Longrightarrow> mem s1 x = mem s x"
    "s1\<lparr>mem := mem s, con := con s, shell_index := shell_index s\<rparr> = s"
    using edit_keys [OF S(2,3) keys(3)] by (auto simp: line_of_def)
  have S1: "session s1 (376 + n) ?l es" by (rule session_line [OF S(1) s1(2,4,3)])
  have "key_of (last keys) s1 = Key_enter" using keys(2) same_but_line(2) [OF s1(4)] by simp
  from session_enter [OF S1 this keys(4) c n] obtain s2 where
    s2: "shell_handle_key (last keys) s1 = Some (Inr s2)" "session s2 n [] (dir_spec c nm es)" "echoes s1 s2" .
  have "type_keys keys s = type_keys (butlast keys @ [last keys]) s" using keys(1) by simp
  also have "\<dots> = Some (Inr s2)" unfolding type_keys_append by (simp add: s1(1) s2(1))
  finally have typed: "type_keys keys s = Some (Inr s2)" .
  have "caps_lock_active s2 = caps_lock_active s"
    using s2(3) arg_cong [OF s1(4), of caps_lock_active] by (simp add: echoes_def)
  then show ?thesis using typed s2(2) meant_cong by (auto simp: at_prompt_session)
qed

interpretation shell: directory_shell at_prompt meant type_keys 376
  by unfold_locales (rule type_line)

end
