(* ===== verification/Keyboard_Props.thy ===== *)
theory Keyboard_Props
  imports Keyboard
begin

text \<open>
  The dialogue with the keyboard controller (\<open>src/kernel/keyboard.cpp\<close>): when the waiting loops
  return, and that \<open>keyboard_install\<close> returns on every controller that does not stay busy for ever.
  What a controller answers depends on all accesses before; the loops are described on the log.
\<close>

section \<open>Polling loops\<close>

definition status_read :: "(io_event list \<Rightarrow> u16 \<Rightarrow> u8) \<Rightarrow> io_event list \<Rightarrow> io_event list" where
  "status_read dev log = In 0x64 (dev log 0x64) # log"

definition drain :: "(io_event list \<Rightarrow> u16 \<Rightarrow> u8) \<Rightarrow> io_event list \<Rightarrow> io_event list" where
  "drain dev log = In 0x60 (dev (status_read dev log) 0x60) # status_read dev log"

definition set_log :: "io_event list \<Rightarrow> 'a machine_scheme \<Rightarrow> 'a machine_scheme" where
  "set_log log s = s\<lparr>con := (con s)\<lparr>io_log := log\<rparr>\<rparr>"

lemma set_log_sel [simp]:
  "io_log (con (set_log log s)) = log" "io_dev (con (set_log log s)) = io_dev (con s)"
  "mem (set_log log s) = mem s" "set_log log' (set_log log s) = set_log log' s"
  by (simp_all add: set_log_def)

lemma port_in_status: "port_in 0x64 s = (io_dev (con s) (io_log (con s)) 0x64, set_log (status_read (io_dev (con s)) (io_log (con s))) s)"
  by (simp add: port_in_def inb_def Let_def set_log_def status_read_def)

lemma port_in_data: "port_in 0x60 s = (io_dev (con s) (io_log (con s)) 0x60,
    set_log (In 0x60 (io_dev (con s) (io_log (con s)) 0x60) # io_log (con s)) s)"
  by (simp add: port_in_def inb_def Let_def set_log_def)

text \<open>A loop that repeats a step while a test holds, on the log.\<close>

lemma least_first: "(\<exists>n. \<not> b n) \<Longrightarrow> (\<forall>k < (LEAST n. \<not> b n). b k) \<and> \<not> b (LEAST n. \<not> b (n :: nat))"
  using LeastI_ex not_less_Least by fast

lemma loop_returns:
  assumes unfold: "\<And>log. W (set_log log s) = (if b log then W (set_log (f log) s) else Some (set_log (g log) s))"
  shows "(\<forall>k < n. b ((f ^^ k) log)) \<Longrightarrow> \<not> b ((f ^^ n) log) \<Longrightarrow> W (set_log log s) = Some (set_log (g ((f ^^ n) log)) s)"
proof (induction n arbitrary: log)
  case 0
  then show ?case by (simp add: unfold)
next
  case (Suc n)
  have "b log" using Suc.prems(1) by auto
  moreover have "\<forall>k < n. b ((f ^^ k) (f log))" using Suc.prems(1) by (auto simp: funpow_swap1)
  ultimately show ?case
    using Suc.IH [of "f log"] Suc.prems(2) by (simp add: unfold funpow_swap1)
qed

lemma loop_decided:
  assumes unfold: "\<And>log. W (set_log log s) = (if b log then W (set_log (f log) s) else Some (set_log (g log) s))"
    and conv: "\<And>log y. W (set_log log s) = Some y \<Longrightarrow> \<exists>n. \<not> b ((f ^^ n) log)"
  shows "W (set_log log s) = (if \<exists>n. \<not> b ((f ^^ n) log)
    then Some (set_log (g ((f ^^ (LEAST n. \<not> b ((f ^^ n) log))) log)) s) else None)"
proof (cases "\<exists>n. \<not> b ((f ^^ n) log)")
  case True
  note first = least_first [OF True]
  show ?thesis
    using loop_returns [OF unfold conjunct1 [OF first] conjunct2 [OF first]] True by simp
next
  case False
  then show ?thesis using conv by (cases "W (set_log log s)") auto
qed

abbreviation (input) input_full :: "(io_event list \<Rightarrow> u16 \<Rightarrow> u8) \<Rightarrow> io_event list \<Rightarrow> bool" where
  "input_full dev log \<equiv> dev log 0x64 AND 2 \<noteq> 0"

abbreviation (input) output_full :: "(io_event list \<Rightarrow> u16 \<Rightarrow> u8) \<Rightarrow> io_event list \<Rightarrow> bool" where
  "output_full dev log \<equiv> dev log 0x64 AND 1 \<noteq> 0"

lemma wait_unfold:
  "wait_for_input_clear (set_log log s) = (if input_full (io_dev (con s)) log
     then wait_for_input_clear (set_log (status_read (io_dev (con s)) log) s)
     else Some (set_log (status_read (io_dev (con s)) log) s))"
  by (subst wait_for_input_clear.simps) (simp add: port_in_status)

lemma flush_unfold:
  "keyboard_flush (set_log log s) = (if output_full (io_dev (con s)) log
     then keyboard_flush (set_log (drain (io_dev (con s)) log) s)
     else Some (set_log (status_read (io_dev (con s)) log) s))"
  by (subst keyboard_flush.simps) (simp add: port_in_status port_in_data drain_def)

lemma wait_back:
  "wait_for_input_clear s = Some y \<Longrightarrow> \<exists>n. \<not> input_full (io_dev (con s)) ((status_read (io_dev (con s)) ^^ n) (io_log (con s)))"
proof (erule wait_for_input_clear.raw_induct [rotated])
  fix W and s y :: "'a machine_scheme"
  assume 1: "\<And>s y. W s = Some y \<Longrightarrow> \<exists>n. \<not> input_full (io_dev (con s)) ((status_read (io_dev (con s)) ^^ n) (io_log (con s)))"
    "(let (status, s) = port_in 0x64 s in if status AND 2 \<noteq> 0 then W s else Some s) = Some y"
  let ?dev = "io_dev (con s)" and ?log = "io_log (con s)"
  show "\<exists>n. \<not> input_full ?dev ((status_read ?dev ^^ n) ?log)"
  proof (cases "input_full ?dev ?log")
    case True
    then have "W (set_log (status_read ?dev ?log) s) = Some y" using 1(2) by (simp add: port_in_status)
    from 1(1) [OF this] obtain n where "\<not> input_full ?dev ((status_read ?dev ^^ n) (status_read ?dev ?log))" by auto
    then show ?thesis by (intro exI [of _ "Suc n"]) (simp add: funpow_swap1)
  next
    case False
    then show ?thesis by (intro exI [of _ 0]) simp
  qed
qed

lemma flush_back:
  "keyboard_flush s = Some y \<Longrightarrow> \<exists>n. \<not> output_full (io_dev (con s)) ((drain (io_dev (con s)) ^^ n) (io_log (con s)))"
proof (erule keyboard_flush.raw_induct [rotated])
  fix W and s y :: "'a machine_scheme"
  assume 1: "\<And>s y. W s = Some y \<Longrightarrow> \<exists>n. \<not> output_full (io_dev (con s)) ((drain (io_dev (con s)) ^^ n) (io_log (con s)))"
    "(let (status, s) = port_in 0x64 s in if status AND 1 \<noteq> 0 then W (snd (port_in 0x60 s)) else Some s) = Some y"
  let ?dev = "io_dev (con s)" and ?log = "io_log (con s)"
  show "\<exists>n. \<not> output_full ?dev ((drain ?dev ^^ n) ?log)"
  proof (cases "output_full ?dev ?log")
    case True
    then have "W (set_log (drain ?dev ?log) s) = Some y" using 1(2) by (simp add: port_in_status port_in_data drain_def)
    from 1(1) [OF this] obtain n where "\<not> output_full ?dev ((drain ?dev ^^ n) (drain ?dev ?log))" by auto
    then show ?thesis by (intro exI [of _ "Suc n"]) (simp add: funpow_swap1)
  next
    case False
    then show ?thesis by (intro exI [of _ 0]) simp
  qed
qed

lemma set_log_self [simp]: "set_log (io_log (con s)) s = s"
  by (simp add: set_log_def)

lemma wait_decided:
  "wait_for_input_clear s = (let dev = io_dev (con s); reads = \<lambda>n. (status_read dev ^^ n) (io_log (con s)) in
     if \<exists>n. \<not> input_full dev (reads n)
     then Some (set_log (reads (Suc (LEAST n. \<not> input_full dev (reads n)))) s) else None)"
proof -
  let ?dev = "io_dev (con s)" and ?log = "io_log (con s)"
  have conv: "\<exists>n. \<not> input_full ?dev ((status_read ?dev ^^ n) log)" if "wait_for_input_clear (set_log log s) = Some y" for log y
    using wait_back [OF that] by simp
  show ?thesis
    using loop_decided [where W = wait_for_input_clear and s = s and b = "input_full ?dev" and f = "status_read ?dev" and g = "status_read ?dev"
        and log = ?log, OF wait_unfold conv]
    unfolding set_log_self Let_def funpow.simps comp_apply .
qed

lemma flush_decided:
  "keyboard_flush s = (let dev = io_dev (con s); reads = \<lambda>n. (drain dev ^^ n) (io_log (con s)) in
     if \<exists>n. \<not> output_full dev (reads n)
     then Some (set_log (status_read dev (reads (LEAST n. \<not> output_full dev (reads n)))) s) else None)"
proof -
  let ?dev = "io_dev (con s)" and ?log = "io_log (con s)"
  have conv: "\<exists>n. \<not> output_full ?dev ((drain ?dev ^^ n) log)" if "keyboard_flush (set_log log s) = Some y" for log y
    using flush_back [OF that] by simp
  show ?thesis
    using loop_decided [where W = keyboard_flush and s = s and b = "output_full ?dev" and f = "drain ?dev" and g = "status_read ?dev"
        and log = ?log, OF flush_unfold conv]
    unfolding set_log_self Let_def  .
qed

section \<open>Installation\<close>

text \<open>A controller that gets ready again, whatever was done before.\<close>

definition keyboard_live :: "(io_event list \<Rightarrow> u16 \<Rightarrow> u8) \<Rightarrow> bool" where
  "keyboard_live dev \<longleftrightarrow> (\<forall>log. (\<exists>n. \<not> input_full dev ((status_read dev ^^ n) log)) \<and>
     (\<exists>n. \<not> output_full dev ((drain dev ^^ n) log)))"

text \<open>\<open>talks s s'\<close>: nothing but the console and the ports has changed.\<close>

definition talks :: "'a machine_scheme \<Rightarrow> 'a machine_scheme \<Rightarrow> bool" where
  "talks s s' \<longleftrightarrow> s\<lparr>con := con s'\<rparr> = s' \<and> io_dev (con s') = io_dev (con s)"

lemma talks_refl [simp]: "talks s s" by (simp add: talks_def)

lemma talks_trans:
  assumes "talks s s'" "talks s' s''"
  shows "talks s s''"
proof -
  have "s\<lparr>con := con s''\<rparr> = s\<lparr>con := con s'\<rparr>\<lparr>con := con s''\<rparr>" by simp
  also have "\<dots> = s''" using assms by (simp add: talks_def)
  finally show ?thesis using assms by (simp add: talks_def)
qed

lemma talks_port [simp]:
  "talks s (set_log log s)" "talks s (port_out p v s)" "talks s (snd (port_in p s))"
  by (simp_all add: talks_def set_log_def port_out_def port_in_def Let_def split_beta)

lemma dev_putchar [simp]: "io_dev (term_putchar c t) = io_dev t"
  by (auto simp: term_putchar_def new_line_def update_cursor_def term_scroll_def putentry_at_def Let_def)

lemma dev_write [simp]: "io_dev (term_write out t) = io_dev t"
  by (induction out arbitrary: t) (simp_all add: term_write_def)

lemma talks_prints: "prints s s' \<Longrightarrow> talks s s'"
  by (auto simp: prints_def talks_def)

lemma returns_wait: "keyboard_live (io_dev (con s)) \<Longrightarrow> returns (wait_for_input_clear s) (talks s)"
  by (subst wait_decided) (auto simp: keyboard_live_def Let_def)

lemma returns_flush: "keyboard_live (io_dev (con s)) \<Longrightarrow> returns (keyboard_flush s) (talks s)"
  by (subst flush_decided) (auto simp: keyboard_live_def Let_def)

lemma returns_ack: "returns (ack_loop n s) (\<lambda>(acked, s'). talks s s')"
proof (induction n arbitrary: s)
  case 0
  then show ?case by simp
next
  case (Suc n)
  let ?s1 = "snd (port_in 0x64 s)" and ?s2 = "snd (port_in 0x60 (snd (port_in 0x64 s)))"
  obtain s3 where p: "printf ''Keyboard response: 0x%x\<newline>'' [ucast (fst (port_in 0x60 ?s1))] ?s2 = Some s3" "prints ?s2 s3"
    using printf_last [OF _ prints_refl, of "''Keyboard response: 0x%x\<newline>''" "[ucast (fst (port_in 0x60 ?s1))]" ?s2 "prints ?s2"]
    by (auto elim: returnsE)
  have "talks s ?s1" "talks ?s1 ?s2" by simp_all
  then have t: "talks s ?s1" "talks s s3"
    using talks_trans talks_prints [OF p(2)] by blast+
  show ?case
    using Suc.IH [of ?s1] Suc.IH [of s3] talks_trans [OF t(1)] talks_trans [OF t(2)] p(1) t(2)
    by (auto simp: Let_def split_beta elim!: returns_mono)
qed

lemma returns_talks:
  assumes "returns r (talks s)" "\<And>s'. talks s s' \<Longrightarrow> returns (k s') P"
  shows "returns (r \<bind> k) P"
  using assms by (auto simp: returns_def)

lemma talks_live: "talks s s' \<Longrightarrow> keyboard_live (io_dev (con s)) \<Longrightarrow> keyboard_live (io_dev (con s'))"
  by (simp add: talks_def)

lemma returns_later: "returns r (talks s') \<Longrightarrow> talks s s' \<Longrightarrow> returns r (talks s)"
  by (auto elim!: returns_mono intro: talks_trans)

lemma returns_reset: "keyboard_live (io_dev (con s)) \<Longrightarrow> returns (keyboard_reset s) (talks s)"
  unfolding keyboard_reset_def Let_def
  by (rule returns_talks [OF returns_wait], assumption) (auto intro: talks_trans [OF talks_trans] talks_port)

lemma returns_enable:
  assumes live: "keyboard_live (io_dev (con s))"
  shows "returns (keyboard_enable s) (talks s)"
  unfolding keyboard_enable_def Let_def
proof (rule returns_talks [OF returns_reset [OF live]])
  fix s1
  assume s1: "talks s s1"
  show "returns (keyboard_flush s1 \<bind> (\<lambda>s. wait_for_input_clear s \<bind> (\<lambda>s.
      wait_for_input_clear (port_out 0x64 0xAE s) \<bind> (\<lambda>s.
      ack_loop 1000 (port_out 0x60 0xF4 s) \<bind> (\<lambda>(acked, s). if acked then Some s
        else printf ''Warning: No ACK received from keyboard\<newline>'' [] s))))) (talks s)"
  proof (rule returns_talks [OF returns_later [OF returns_flush s1]])
    show "keyboard_live (io_dev (con s1))" by (rule talks_live [OF s1 live])
    fix s2
    assume s2: "talks s s2"
    show "returns (wait_for_input_clear s2 \<bind> (\<lambda>s.
      wait_for_input_clear (port_out 0x64 0xAE s) \<bind> (\<lambda>s.
      ack_loop 1000 (port_out 0x60 0xF4 s) \<bind> (\<lambda>(acked, s). if acked then Some s
        else printf ''Warning: No ACK received from keyboard\<newline>'' [] s)))) (talks s)"
    proof (rule returns_talks [OF returns_later [OF returns_wait s2]])
      show "keyboard_live (io_dev (con s2))" by (rule talks_live [OF s2 live])
      fix s3
      assume "talks s s3"
      then have s3: "talks s (port_out 0x64 0xAE s3)" by (rule talks_trans) simp
      show "returns (wait_for_input_clear (port_out 0x64 0xAE s3) \<bind> (\<lambda>s.
        ack_loop 1000 (port_out 0x60 0xF4 s) \<bind> (\<lambda>(acked, s). if acked then Some s
          else printf ''Warning: No ACK received from keyboard\<newline>'' [] s))) (talks s)"
      proof (rule returns_talks [OF returns_later [OF returns_wait s3]])
        show "keyboard_live (io_dev (con (port_out 0x64 0xAE s3)))" by (rule talks_live [OF s3 live])
        fix s4
        assume "talks s s4"
        then have s4: "talks s (port_out 0x60 0xF4 s4)" by (rule talks_trans) simp
        obtain acked s5 where a: "ack_loop 1000 (port_out 0x60 0xF4 s4) = Some (acked, s5)"
          "talks (port_out 0x60 0xF4 s4) s5"
          using returns_ack [of 1000 "port_out 0x60 0xF4 s4"] by (auto elim: returnsE)
        have s5: "talks s s5" by (rule talks_trans [OF s4 a(2)])
        have "returns (printf ''Warning: No ACK received from keyboard\<newline>'' [] s5) (talks s)"
          by (rule printf_last [OF _ prints_refl]) (use talks_trans [OF s5] talks_prints in auto)
        then show "returns (ack_loop 1000 (port_out 0x60 0xF4 s4) \<bind> (\<lambda>(acked, s). if acked then Some s
            else printf ''Warning: No ACK received from keyboard\<newline>'' [] s)) (talks s)"
          using s5 by (simp add: a(1))
      qed
    qed
  qed
qed

lemma returns_unmask: "returns (pic_unmask_irq irq s) (talks s)"
proof -
  have two: "talks s (snd (port_in p (port_out p v (snd (port_in p s)))))" for p v
    using talks_trans [OF talks_trans] talks_port by blast
  have "returns (printf ''[ERROR] IRQ%d is STILL masked!\<newline>'' args s') (talks s)" if "talks s s'" "args \<noteq> []" for args s'
    by (rule printf_last [OF _ prints_refl]) (use that talks_trans [OF that(1)] talks_prints in \<open>auto simp: Suc_le_eq\<close>)
  then show ?thesis
    using two by (auto simp: pic_unmask_irq_def Let_def split_beta)
qed

lemma keyboard_install_returns:
  assumes live: "keyboard_live (io_dev (con s))"
  shows "returns (keyboard_install s) (\<lambda>s'.
    s' = s\<lparr>interrupt_handlers := (interrupt_handlers s)(33 \<mapsto> Keyboard_callback), con := con s'\<rparr> \<and>
    io_dev (con s') = io_dev (con s))"
proof -
  obtain s1 where s1: "printf ''[KB] Enabling keyboard...'' [] s = Some s1" "prints s s1"
    using printf_last [OF _ prints_refl, of "''[KB] Enabling keyboard...''" "[]" s "prints s"] by (auto elim: returnsE)
  have t1: "talks s s1" by (rule talks_prints [OF s1(2)])
  obtain s2 where s2: "keyboard_enable s1 = Some s2" "talks s1 s2"
    using returns_enable [OF talks_live [OF t1 live]] by (auto elim: returnsE)
  let ?s2 = "register_interrupt_handler 33 Keyboard_callback s2"
  obtain s3 where s3: "pic_unmask_irq 1 ?s2 = Some s3" "talks ?s2 s3"
    using returns_unmask [of 1 ?s2] by (auto elim: returnsE)
  have t2: "talks s s2" by (rule talks_trans [OF t1 s2(2)])
  then have "s\<lparr>con := con s2\<rparr> = s2" by (simp add: talks_def)
  from arg_cong [OF this, of interrupt_handlers] have h: "interrupt_handlers s2 = interrupt_handlers s" by simp
  have "keyboard_install s = Some s3" by (simp add: keyboard_install_def s1(1) s2(1) s3(1))
  moreover have "s3 = s\<lparr>interrupt_handlers := (interrupt_handlers s)(33 \<mapsto> Keyboard_callback), con := con s3\<rparr>"
  proof -
    have "s3 = s2\<lparr>interrupt_handlers := (interrupt_handlers s2)(33 \<mapsto> Keyboard_callback), con := con s3\<rparr>"
      using s3(2) by (simp add: talks_def register_interrupt_handler_def)
    also have "\<dots> = s\<lparr>con := con s2\<rparr>\<lparr>interrupt_handlers := (interrupt_handlers s)(33 \<mapsto> Keyboard_callback), con := con s3\<rparr>"
      using t2 h by (simp add: talks_def)
    finally show ?thesis by simp
  qed
  moreover have "io_dev (con s3) = io_dev (con s)"
    using t2 s3(2) by (simp add: talks_def register_interrupt_handler_def)
  ultimately show ?thesis by (simp add: returns_def)
qed

section \<open>The waits\<close>

text \<open>
  C19: the waits on the keyboard controller end exactly when the controller lets them.
  \<open>wait_for_input_clear\<close> returns if and only if some finite number of status reads makes the controller
  clear its input-full bit, and \<open>keyboard_flush\<close> if and only if the output-full bit clears after
  finitely many reads of the data port; a controller that keeps the bit set hangs the kernel, as
  there is no time limit. A wait that returns has changed nothing but the log of port accesses.
\<close>

theorem keyboard_waits_end:
  "((\<exists>s'. wait_for_input_clear s = Some s') \<longleftrightarrow>
      (\<exists>n. \<not> input_full (io_dev (con s)) ((status_read (io_dev (con s)) ^^ n) (io_log (con s))))) \<and>
   ((\<exists>s'. keyboard_flush s = Some s') \<longleftrightarrow>
      (\<exists>n. \<not> output_full (io_dev (con s)) ((drain (io_dev (con s)) ^^ n) (io_log (con s))))) \<and>
   (wait_for_input_clear s = None \<or> (\<exists>log. wait_for_input_clear s = Some (set_log log s))) \<and>
   (keyboard_flush s = None \<or> (\<exists>log. keyboard_flush s = Some (set_log log s)))"
  unfolding wait_decided flush_decided Let_def by auto

end
