(* ===== verification/Boot_Files.thy ===== *)
theory Boot_Files
  imports Shell_Session Keyboard_Props System_Props
begin

text \<open>
  The boot of the kernel (\<open>kernel_main\<close> of \<open>src/kernel/kernel.cpp\<close>) up to the first prompt:
  \<open>fs_init\<close> and the README in a represented file system, and the whole sequence composed, from the
  state the loader leaves to a shell that waits for a command.
\<close>

section \<open>The first directory\<close>

lemma root_after: "heap_after s out m\<lparr>root := r\<rparr> = heap_after (s\<lparr>root := r\<rparr>) out m"
  by (rule ramfs.equality) (simp_all add: heap_after_def)

lemma store_ok_empty [simp]: "store_ok Map.empty" and arrays_ok_empty [simp]: "arrays_ok Map.empty"
  by (simp_all add: store_ok_def kids_ok_def ranked_def arrays_ok_def)

lemma store_rep_empty [simp]: "store_rep L m Map.empty"
  by (simp add: store_rep_def owned_def)

lemma fs_init_rep:
  assumes rep: "heap_rep s bs" and name: "cstring (mem s) (lit s ''/'') (bytes_of ''/'')"
    and out: "\<And>j. j \<le> 1 \<Longrightarrow> lit s ''/'' + of_nat j \<notin> heap_area" and sp: "space (248 + x) bs" "16 \<le> x"
    and dir: "current_dir s = 0"
  obtains o1 m bs' p arr where "fs_init s = Some (heap_after (s\<lparr>root := p\<rparr>) o1 m)"
    "fs_state bs' [p \<mapsto> Dir (bytes_of ''/'') 0 arr []] p (heap_after (s\<lparr>root := p\<rparr>) o1 m)" "space x bs'"
    "\<And>x. x \<notin> heap_area \<Longrightarrow> m x = mem s x"
proof (rule fs_create_node_rep [OF rep store_rep_empty name, of FS_DIRECTORY])
  show "j \<le> length (bytes_of ''/'') \<Longrightarrow> lit s ''/'' + of_nat j \<notin> heap_area" for j using out by simp
  fix p o1 m bs' arr
  assume cr: "fs_create_node (lit s ''/'') FS_DIRECTORY s = Some (p, heap_after s o1 m)"
    and h: "heap_rep (heap_after s o1 m) bs'" "keeps heap_area (heap_live bs) (mem s) m"
    and p0: "p = 0 \<Longrightarrow> store_rep (heap_live bs') m Map.empty \<and> \<not> space 96 bs"
    and p1: "p \<noteq> 0 \<Longrightarrow> p \<notin> dom Map.empty \<and>
      store_rep (heap_live bs') m [p \<mapsto> fresh_node FS_DIRECTORY (take 63 (bytes_of ''/'')) arr] \<and>
      (FS_DIRECTORY = FS_DIRECTORY \<and> arr = 0 \<longrightarrow> \<not> space 236 bs)"
    and sp': "\<And>x. 16 \<le> x \<Longrightarrow> space (248 + x) bs \<Longrightarrow> space x bs'"
  have p: "p \<noteq> 0" using p0 space_less [OF sp(1), of 96] by auto
  have arr: "arr \<noteq> 0" using p1 [OF p] space_less [OF sp(1), of 236] by auto
  let ?fs = "[p \<mapsto> Dir (bytes_of ''/'') 0 arr []]" and ?t = "heap_after (s\<lparr>root := p\<rparr>)"
  let ?o = "o1 @ bytes_of ''[RAMFS] Filesystem initialized.\<newline>''"
  have ok: "store_ok ?fs" by (rule store_ok_new) simp_all
  have ar: "arrays_ok ?fs" by (rule arrays_ok_upd) (use arr in simp_all)
  show thesis
  proof (rule that [of p ?o m bs' arr])
    have "printf ''[RAMFS] Filesystem initialized.\<newline>'' [] (?t o1 m) = Some (?t ?o m)"
      by (simp add: printf_plain heap_after_def term_write_append)
    then show "fs_init s = Some (?t ?o m)"
      using p by (simp add: fs_init_def cr root_after)
    show "fs_state bs' ?fs p (?t ?o m)"
    proof (rule fs_stateI [where nd = "Dir (bytes_of ''/'') 0 arr []"])
      show "heap_rep (?t ?o m) bs'" using h(1) by (simp add: heap_rep_def heap_after_def)
      show "store_rep (heap_live bs') m ?fs" using p1 [OF p] by simp
      show "work_dir (s\<lparr>root := p\<rparr>) = p" by (simp add: work_dir_def dir)
    qed (use ok ar in simp_all)
    show "space x bs'" by (rule sp' [OF sp(2,1)])
  qed (use h(2) in \<open>simp add: keeps_def\<close>)
qed

section \<open>The README\<close>

text \<open>Linking a file into a directory leaves the data of the file alone.\<close>

lemma link_child_data:
  assumes L: "blocks L" and st: "store_rep L m fs" and d: "fs d = Some (Dir dn par arr kids)"
    and c: "fs c = Some (File nm p sz dat)" and room: "arr \<noteq> 0" "length kids < MAX_CHILDREN"
    and x: "dat \<noteq> 0" "in_region x dat (unat sz)" "unat sz \<noteq> 88"
  shows "link_child d c m x = m x"
proof -
  have own: "owned L fs" using st by (simp add: store_rep_def)
  have dr: "node_rep m d (Dir dn par arr kids)" by (rule store_repD [OF st d])
  have ap: "(arr, 128) \<in> parts d (Dir dn par arr kids)" and dp: "(dat, unat sz) \<in> parts c (File nm p sz dat)"
    using room(1) x(1) by simp_all
  have fit: "fits d 88" "fits c 88" "fits arr 128"
    using node_fits [OF L own d] node_fits [OF L own c] part_fits [OF L own d ap] by simp_all
  have cd: "c \<noteq> d" using c d by auto
  have "dat \<noteq> c" using own c x(1,3) by (auto simp: owned_def dest!: spec [of _ c])
  then have apart: "apart dat (unat sz) d 88" "apart dat (unat sz) arr 128" "apart dat (unat sz) c 88"
    using parts_apart [OF L own c dp d head_part] parts_apart [OF L own c dp d ap]
      parts_apart [OF L own c dp c head_part] cd by auto
  then have no: "\<not> in_region x d 88" "\<not> in_region x arr 128" "\<not> in_region x c 88"
    using apart_in_region x(2) by blast+
  let ?m1 = "store32 m (child_count_at d) (child_count m d + 1)"
  have "load32 ?m1 (children_at d) = arr"
    using dr field_read [OF fit(1) node_unat(6) [OF fit(1)] node_unat(5) [OF fit(1)]] by simp
  moreover have "child_count m d = of_nat (length kids)" using dr by simp
  ultimately have "link_child d c m x = ?m1 x"
    using no store32_outside [OF fit(3) unat_slot [OF fit(3) room(2)]] room(2)
      store32_outside [OF fit(2) node_unat(4) [OF fit(2)]]
    by (simp add: link_child_def Let_def slot_def)
  also have "\<dots> = m x" using no(1) by (rule store32_outside [OF fit(1) node_unat(6) [OF fit(1)], rotated]) simp
  finally show ?thesis .
qed

lemma readme_text:
  assumes src: "cstring m src bs" "fits src (Suc (length bs))" and q: "fits q (unat n)" "length bs < unat n"
    and ap: "apart q (unat n) src (Suc (length bs))"
    and m': "\<And>x. in_region x q (unat n) \<Longrightarrow> m' x = strncpy m q src n x"
  shows "cstring m' q bs"
proof -
  have copy: "m' (q + of_nat i) = (if i < length bs then m (src + of_nat i) else 0)" if "i \<le> length bs" for i
  proof -
    have r: "in_region (q + of_nat i) q (unat n)" using that q by (intro in_region_offset) simp_all
    have u: "unat (q + of_nat i) = unat q + i" using that q by (intro unat_add_of_nat) (simp add: fits_def)
    have "in_region (q + of_nat i) q (min (unat n) (length bs)) \<longleftrightarrow> i < length bs"
      using q(2) by (auto simp: in_region_def u)
    then show ?thesis using r unfolding m' [OF r] strncpy_cstring [OF src q(1) ap] by simp
  qed
  then show ?thesis using src(1) by (auto simp: cstring_iff)
qed

lemma area_apart:
  assumes "\<And>x. in_region x q n \<Longrightarrow> x \<in> A" "\<And>j. j \<le> k \<Longrightarrow> p + of_nat j \<notin> A" "fits p (Suc k)" "0 < n"
  shows "apart q n p (Suc k)"
proof (rule ccontr)
  assume "\<not> apart q n p (Suc k)"
  then have lt: "unat q < unat p + Suc k" "unat p < unat q + n" by (simp_all add: apart_def)
  show False
  proof (cases "unat q \<le> unat p")
    case True
    then have "in_region p q n" using lt by (simp add: in_region_def)
    then show False using assms(1) assms(2) [of 0] by simp
  next
    case False
    let ?j = "unat q - unat p"
    have "unat (p + of_nat ?j) = unat q"
      using False lt assms(3) by (subst unat_add_of_nat) (simp_all add: fits_def)
    then have "p + of_nat ?j = q" by (simp add: u32_eq_iff)
    moreover have "in_region q q n" using assms(4) by (simp add: in_region_def)
    moreover have "?j \<le> k" using lt(1) by simp
    ultimately show False using assms(1) assms(2) [of ?j] by simp
  qed
qed

lemma create_readme_rep:
  assumes S: "fs_state bs fs d s" and d: "d = root s" "fs d = Some (Dir dn par arr [])" and sp: "space (248 + x) bs" "16 \<le> x"
    and name: "cstring (mem s) (lit s ''README'') (bytes_of ''README'')"
      "\<And>j. j \<le> 6 \<Longrightarrow> lit s ''README'' + of_nat j \<notin> heap_area"
    and src: "cstring (mem s) src bs'" "fits src (Suc (length bs'))" "length bs' < 128"
      "\<And>j. j \<le> length bs' \<Longrightarrow> src + of_nat j \<notin> heap_area" "src = lit s ''Welcome to ContinuumOS!''"
  obtains out m bs2 fs2 p q where "create_readme s = Some (heap_after s out m)"
    "fs_state bs2 fs2 d (heap_after s out m)" "space x bs2" "entries fs2 d = [(bytes_of ''README'', FS_FILE)]"
    "fs2 p = Some (File (bytes_of ''README'') d 128 q)" "fs2 d = Some (Dir dn par arr [p])" "cstring m q bs'" "\<And>x. x \<notin> heap_area \<Longrightarrow> m x = mem s x"
proof -
  have s: "heap_rep s bs" "store_rep (heap_live bs) (mem s) fs" "store_ok fs" "arrays_ok fs" "work_dir s = d"
    using S by (simp_all add: fs_state_def)
  let ?R = "bytes_of ''README''"
  have arr: "arr \<noteq> 0" by (rule arrays_okD [OF s(4) d(2)])
  show thesis
  proof (rule new_file [OF s(1,2) name(1), of 128])
    show "j \<le> length ?R \<Longrightarrow> lit s ''README'' + of_nat j \<notin> heap_area" for j using name(2) by simp
    fix c o1 m1 q o2 m2 bs2
    let ?f = "fs(c \<mapsto> File (take 63 ?R) 0 128 q)" and ?m2 = "store32 m2 (data_at c) q"
    assume cr: "fs_create_node (lit s ''README'') FS_FILE s = Some (c, heap_after s o1 m1)" and c0: "c = 0 \<Longrightarrow> \<not> space 96 bs"
      and al: "c \<noteq> 0 \<Longrightarrow> kmalloc 128 (heap_after s o1 (store32 m1 (size_at c) 128)) = Some (q, heap_after s o2 m2) \<and>
      load32 (store32 m1 (size_at c) 128) (size_at c) = 128 \<and> c \<notin> dom fs \<and>
      (q = 0 \<longrightarrow> \<not> space (108 + unat (align16 128)) bs) \<and> load32 ?m2 (size_at c) = 128 \<and>
      (\<forall>m3. (\<forall>x. m3 x \<noteq> ?m2 x \<longrightarrow> q \<noteq> 0 \<and> in_region x q (unat (128 :: u32))) \<longrightarrow>
        heap_rep (heap_after s o2 m3) bs2 \<and> keeps heap_area (heap_live bs) (mem s) m3 \<and>
        store_rep (heap_live bs2) m3 ?f)"
      and sp2: "\<And>x. c \<noteq> 0 \<Longrightarrow> 16 \<le> x \<Longrightarrow> space (120 + unat (align16 128) + x) bs \<Longrightarrow> space x bs2"
      and fq: "q \<noteq> 0 \<Longrightarrow> fits q (unat (128 :: u32))"
    have a16: "unat (align16 128) = 128" by (simp add: unat_align16)
    have c: "c \<noteq> 0" using c0 space_less [OF sp(1), of 96] by auto
    note al = al [OF c, unfolded a16]
    have q: "q \<noteq> 0" using al space_less [OF sp(1), of 236] by auto
    let ?m3 = "strncpy ?m2 q src 128"
    have m20: "heap_rep (heap_after s o2 ?m2) bs2" "keeps heap_area (heap_live bs) (mem s) ?m2"
      "store_rep (heap_live bs2) ?m2 ?f" using al by blast+
    have fit: "fits q (unat (128 :: u32))" by (rule fq [OF q])
    have live: "\<exists>k \<ge> 128. (q, k) \<in> heap_live bs2"
    proof -
      have "owned (heap_live bs2) ?f" using m20(3) by (simp add: store_rep_def)
      then show ?thesis
      proof (rule ownedD [where a = c and q = q and n = 128])
        show "(q, 128) \<in> parts c (File (take 63 ?R) 0 128 q)" using q by simp
      qed (auto)
    qed
    then have area: "x \<in> heap_area" if "in_region x q 128" for x
      using kheap.live_area [OF m20(1)] that by (fastforce simp: in_region_def)
    have apart: "apart q 128 src (Suc (length bs'))"
      by (rule area_apart [OF area src(4) src(2)]) simp_all
    have src2: "cstring ?m2 src bs'"
      using src(1,4) m20(2) by (auto simp: cstring_iff keeps_def)
    have chg: "?m3 x = ?m2 x" if "\<not> in_region x q (unat (128 :: u32))" for x
      using that fit apart by (subst strncpy_cstring [OF src2 src(2)]) (auto simp: in_region_def)
    then have m3: "heap_rep (heap_after s o2 ?m3) bs2" "keeps heap_area (heap_live bs) (mem s) ?m3"
      "store_rep (heap_live bs2) ?m3 ?f" "c \<notin> dom fs"
      using al q by blast+
    have ar: "arrays_ok ?f" by (rule arrays_ok_upd [OF s(4)]) simp
    have L: "blocks (heap_live bs2)" by (rule blocks_heap [OF m3(1)])
    have cd: "c \<noteq> d" using m3(4) d(2) by auto
    have fd: "?f d = Some (Dir dn par arr [])" using d(2) cd by simp
    show thesis
    proof (rule add_entry [OF m3(1,3) s(3) ar m3(4) _ d(2)])
      fix o3 m4 fs2 nd2
      assume a: "fs_add_child d c (heap_after s o2 ?m3) = Some (heap_after s (o2 @ o3) m4)"
        and st: "heap_rep (heap_after s (o2 @ o3) m4) bs2" "store_rep (heap_live bs2) m4 fs2" "store_ok fs2" "arrays_ok fs2"
        and keep: "\<And>x. x \<notin> heap_area \<Longrightarrow> m4 x = ?m3 x" and nd: "fs2 d = Some nd2" "type_of nd2 = FS_DIRECTORY"
        and en: "entries fs2 d = (if length (entries fs d) < MAX_CHILDREN
          then entries fs d @ [(name_of (File (take 63 ?R) 0 128 q), type_of (File (take 63 ?R) 0 128 q))] else entries fs d)"
        and new: "length ([] :: u32 list) < MAX_CHILDREN \<Longrightarrow>
          m4 = link_child d c ?m3 \<and> fs2 c = Some (set_parent d (File (take 63 ?R) 0 128 q)) \<and>
          fs2 d = Some (Dir dn par arr ([] @ [c]))"
      have m4: "m4 x = ?m3 x" if "in_region x q (unat (128 :: u32))" for x
        using link_child_data [OF L m3(3) fd _ arr _ q that] new cd by simp
      show thesis
      proof (rule that [of "o2 @ o3" m4 bs2 fs2 c q])
        show "create_readme s = Some (heap_after s (o2 @ o3) m4)"
          using cr c al a q src(5) d(1) by (simp add: create_readme_def fs_get_root_def Let_def)
        show "fs_state bs2 fs2 d (heap_after s (o2 @ o3) m4)"
          by (rule fs_stateI [OF st(1-4) s(5) nd])
        show "space x bs2" using sp2 [OF c sp(2)] sp(1) by (simp add: a16)
        show "cstring m4 q bs'"
          by (rule readme_text [OF src2 src(2) fit _ _ m4]) (use src(3) apart in simp_all)
        show "m4 x = mem s x" if "x \<notin> heap_area" for x
          using keep [OF that] m3(2) that by (simp add: keeps_def)
      qed (use en new d(2) in \<open>simp_all add: entries_def\<close>)
    qed simp_all
  qed simp_all
qed

section \<open>The stages of the boot\<close>

text \<open>What the stages before the file system leave as the loader set it.\<close>

definition boots :: "'a shell_scheme \<Rightarrow> 'a shell_scheme \<Rightarrow> bool" where
  "boots s s' \<longleftrightarrow> sym s' = sym s \<and> lit s' = lit s \<and> io_dev (con s') = io_dev (con s) \<and>
     shell_index s' = shell_index s \<and> current_dir s' = current_dir s \<and> input_enabled s' = input_enabled s \<and>
     caps_lock_active s' = caps_lock_active s"

lemma boots_trans: "boots s s' \<Longrightarrow> boots s' s'' \<Longrightarrow> boots s s''"
  by (simp add: boots_def)

lemma boots_refl [simp]: "boots s s"
  by (simp add: boots_def)

lemma boots_upd [simp]:
  "boots s0 (s\<lparr>mem := m\<rparr>) = boots s0 s" "boots s0 (s\<lparr>gdt := g\<rparr>) = boots s0 s"
  "boots s0 (s\<lparr>gdt_desc := gd\<rparr>) = boots s0 s" "boots s0 (gdt_flush s) = boots s0 s" "boots s0 (init_idt s) = boots s0 s"
  "boots s0 (register_interrupt_handler n h s) = boots s0 s" "boots s0 (s\<lparr>interrupts_on := b\<rparr>) = boots s0 s"
  "boots s0 (s\<lparr>cr3 := c\<rparr>) = boots s0 s" "boots s0 (s\<lparr>cr0 := c\<rparr>) = boots s0 s" "boots s0 (s\<lparr>code_selector := cs\<rparr>) = boots s0 s"
  "boots s0 (s\<lparr>con := term_write out (con s)\<rparr>) = boots s0 s"
  by (simp_all add: boots_def gdt_flush_def init_idt_def load_idt_def register_interrupt_handler_def Let_def)

lemma boots_initialize: "boots s (s\<lparr>con := term_initialize (con s)\<rparr>)"
  by (simp add: boots_def term_initialize_def Let_def)

lemma boots_remap: "boots s (pic_remap s)" "mem (pic_remap s) = mem s" "interrupt_handlers (pic_remap s) = interrupt_handlers s"
  by (simp_all add: pic_remap_def boots_def port_in_def port_out_def port_wait_def inb_def Let_def split_beta)

lemma prints_boots:
  assumes "prints s s'" "boots s0 s"
  shows "boots s0 s'"
  using assms by (auto elim!: printsE)

lemma boot_tables:
  "returns (init_gdt s) (\<lambda>s'. boots s s' \<and> mem s' = mem s)"
  "returns (init_pic s) (\<lambda>s'. boots s s' \<and> mem s' = mem s)"
proof -
  show "returns (init_gdt s) (\<lambda>s'. boots s s' \<and> mem s' = mem s)"
    unfolding init_gdt_def Let_def
    by (rule printf_step, simp, rule prints_refl) (auto elim!: printsE simp: gdt_flush_def boots_def)
  show "returns (init_pic s) (\<lambda>s'. boots s s' \<and> mem s' = mem s)"
    unfolding init_pic_def
    by (rule printf_last, simp, rule prints_refl) (use boots_remap in \<open>auto elim!: printsE\<close>)
qed

lemma boot_paging:
  "returns (vmm_init s) (\<lambda>s'. boots s s' \<and> mem s' = build_tables (sym s) (clear_tables (sym s) (mem s)) \<and>
     cr0 s' = cr0 s \<and> interrupt_handlers s' = (interrupt_handlers s)(14 \<mapsto> Page_fault_handler))"
  "returns (vmm_enable s) (\<lambda>s'. boots s s' \<and> mem s' = mem s \<and> cr3 s' = page_dir (sym s) \<and>
     cr0 s' = cr0 s OR 0x80000001 \<and> interrupt_handlers s' = interrupt_handlers s)"
  subgoal
    unfolding vmm_init_def Let_def
    apply (rule printf_step, simp, rule prints_refl)
    apply (rule printf_step, simp, rule prints_refl)
    apply (rule printf_step, simp, rule prints_refl)
    apply (rule printf_step, simp, assumption)+
    apply (rule printf_last, simp, assumption)
    apply (auto simp: prints_def register_interrupt_handler_def boots_def)
    done
  subgoal
    unfolding vmm_enable_def Let_def
    apply (rule printf_step, simp, rule prints_refl)
    apply (rule printf_step, simp, rule prints_refl)
    apply (rule printf_step, simp, rule prints_refl)
    apply (rule printf_step, simp, assumption)
    apply (rule printf_last, simp, rule prints_refl)
    apply (auto simp: prints_def or.assoc boots_def)
    done
  done

text \<open>What the stages after the file system leave alone.\<close>

definition late :: "'a shell_scheme \<Rightarrow> 'a shell_scheme \<Rightarrow> bool" where
  "late s s' \<longleftrightarrow> boots s s' \<and> mem s' = mem s \<and> free_list s' = free_list s \<and> root s' = root s \<and>
     cr0 s' = cr0 s \<and> cr3 s' = cr3 s"

lemma late_trans: "late s s' \<Longrightarrow> late s' s'' \<Longrightarrow> late s s''"
  by (auto simp: late_def elim: boots_trans)

lemma prints_late: "prints s s' \<Longrightarrow> late s s' \<and> interrupt_handlers s' = interrupt_handlers s"
  by (auto elim!: printsE simp: late_def)

lemma boot_devices:
  "keyboard_live (io_dev (con s)) \<Longrightarrow> returns (keyboard_install s) (\<lambda>s'. late s s' \<and>
     interrupt_handlers s' = (interrupt_handlers s)(33 \<mapsto> Keyboard_callback))"
  "\<exists>s'. init_timer 1000 s = Some (Inr s') \<and> late s s' \<and>
     interrupt_handlers s' = (interrupt_handlers s)(32 \<mapsto> Timer_handler)"
  "returns (shell_init s) (\<lambda>s'. late s s' \<and> interrupt_handlers s' = interrupt_handlers s)"
proof -
  show "returns (keyboard_install s) (\<lambda>s'. late s s' \<and>
      interrupt_handlers s' = (interrupt_handlers s)(33 \<mapsto> Keyboard_callback))" if "keyboard_live (io_dev (con s))"
    using keyboard_install_returns [OF that]
  proof (rule returns_mono, elim conjE)
    fix s'
    assume "s' = s\<lparr>interrupt_handlers := (interrupt_handlers s)(33 \<mapsto> Keyboard_callback), con := con s'\<rparr>"
      "io_dev (con s') = io_dev (con s)"
    moreover have "late s (s\<lparr>interrupt_handlers := h, con := c\<rparr>) \<and> interrupt_handlers (s\<lparr>interrupt_handlers := h, con := c\<rparr>) = h"
      if "io_dev c = io_dev (con s)" for h c
      using that by (simp add: late_def boots_def)
    ultimately show "late s s' \<and> interrupt_handlers s' = (interrupt_handlers s)(33 \<mapsto> Keyboard_callback)"
      by metis
  qed
  let ?t = "register_interrupt_handler 32 Timer_handler (port_out 0x40 (ucast (drop_bit 8 (1193180 div 1000 :: u32) AND 0xFF))
    (port_out 0x40 (ucast ((1193180 div 1000 :: u32) AND 0xFF)) (port_out 0x43 0x36 s)))"
  obtain s' where s': "printf ''[TIMER] Timer initialized to %d Hz\<newline>'' [1000] ?t = Some s'" "prints ?t s'"
    using printf_last [of "''[TIMER] Timer initialized to %d Hz\<newline>''" "[1000]" ?t ?t "prints ?t"]
    by (auto elim: returnsE)
  have "late s ?t" by (simp add: late_def boots_def register_interrupt_handler_def port_out_def)
  then have "late s s'" "interrupt_handlers s' = (interrupt_handlers s)(32 \<mapsto> Timer_handler)"
    using prints_late [OF s'(2)] late_trans by (auto simp: register_interrupt_handler_def port_out_def)
  moreover have "init_timer 1000 s = Some (Inr s')" using s'(1) by (simp add: init_timer_def Let_def)
  ultimately show "\<exists>s'. init_timer 1000 s = Some (Inr s') \<and> late s s' \<and>
     interrupt_handlers s' = (interrupt_handlers s)(32 \<mapsto> Timer_handler)" by blast
  show "returns (shell_init s) (\<lambda>s'. late s s' \<and> interrupt_handlers s' = interrupt_handlers s)"
    unfolding shell_init_def
    by (rule printf_step, simp, rule prints_refl, rule printf_last, simp, assumption) (rule prints_late)
qed

section \<open>The whole boot\<close>

text \<open>
  The image as the loader leaves it: the page tables are aligned and below the heap, the strings that
  the code reads by address lie outside both, the shell's variables have their initial values, and the
  keyboard controller does not stay busy for ever.
\<close>

definition boot_strings :: "string list" where
  "boot_strings = [''/'', ''README'', ''Welcome to ContinuumOS!'']"

definition placed :: "'a machine_scheme \<Rightarrow> string \<Rightarrow> bool" where
  "placed s str \<longleftrightarrow> cstring (mem s) (lit s str) (bytes_of str) \<and> fits (lit s str) (Suc (length str)) \<and>
     (\<forall>j \<le> length str. lit s str + of_nat j \<notin> heap_area \<and> \<not> in_tables (sym s) (lit s str + of_nat j))"

definition loaded :: "'a shell_scheme \<Rightarrow> bool" where
  "loaded s \<longleftrightarrow> vmm_layout (sym s) \<and> (\<forall>x. in_tables (sym s) x \<longrightarrow> x \<notin> heap_area) \<and>
     shell_image s \<and> image_apart s \<and> list_all (placed s) (boot_strings @ '' '' # map fst filled_commands) \<and>
     shell_index s = 0 \<and> current_dir s = 0 \<and> input_enabled s \<and> keyboard_live (io_dev (con s))"

lemma placed_keep:
  assumes "placed s str" "\<And>x. x \<notin> heap_area \<Longrightarrow> \<not> in_tables (sym s) x \<Longrightarrow> m x = mem s x"
  shows "cstring m (lit s str) (bytes_of str)"
proof -
  have "m (lit s str + of_nat j) = mem s (lit s str + of_nat j)" if "j \<le> length str" for j
    using assms(1) that by (intro assms(2)) (auto simp: placed_def)
  then show ?thesis using assms(1) by (auto simp: placed_def cstring_iff)
qed

text \<open>Paging, on any memory that agrees with what \<open>vmm_init\<close> wrote on the tables.\<close>

lemma boot_translate:
  assumes lay: "vmm_layout addr" and m: "\<And>x. in_tables addr x \<Longrightarrow> m' x = build_tables addr (clear_tables addr m) x"
  shows "walk m' (page_dir addr) v = (if unat v < 0x1000000 then Some (v, True) else None)"
proof -
  let ?m = "build_tables addr (clear_tables addr m)"
  have same: "load32 m' (entry p j) = load32 ?m (entry p j)"
    if "j < 1024" "p = page_dir addr \<or> (\<exists>k < 4. p = page_table addr k)" for p j
  proof (rule load_entry_agree [OF _ that(1)])
    show "low_page p" using lay that(2) by (auto simp: vmm_layout_def)
    show "agree_on ?m m' p 4096" using that(2) m by (auto simp: agree_on_def in_tables_def)
  qed
  note build = build_tables_ok [OF lay, where m = m]
  show ?thesis
  proof (rule identity_walk [OF lay])
    show "dir_ok addr m'" using build(1) same by (auto simp: dir_ok_def)
    show "load32 m' (entry (page_table addr k) j) = pte_of (of_nat k) j" if "k < 4" "j < 1024" for k j
      using build(2) [OF that] same [OF that(2), of "page_table addr k"] that(1) by auto
  qed
qed

text \<open>The stages up to the heap.\<close>

lemma boot_early:
  assumes "loaded s"
  obtains s1 where "init_gdt (s\<lparr>con := term_initialize (con s)\<rparr>) \<bind> (\<lambda>s. init_pic s \<bind> (\<lambda>s.
      vmm_init (init_idt s) \<bind> vmm_enable)) = Some s1"
    "boots s s1" "\<And>x. \<not> in_tables (sym s) x \<Longrightarrow> mem s1 x = mem s x"
    "\<And>x. mem s1 x = build_tables (sym s) (clear_tables (sym s) (mem s)) x"
    "cr3 s1 = page_dir (sym s)" "bit (cr0 s1) 31" "interrupt_handlers s1 14 = Some Page_fault_handler"
proof -
  have lay: "vmm_layout (sym s)" using assms by (simp add: loaded_def)
  let ?s0 = "s\<lparr>con := term_initialize (con s)\<rparr>"
  obtain a where a: "init_gdt ?s0 = Some a" "boots ?s0 a" "mem a = mem ?s0" using boot_tables(1) [of ?s0] by blast
  obtain b where b: "init_pic a = Some b" "boots a b" "mem b = mem a" using boot_tables(2) [of a] by blast
  have ib: "boots b (init_idt b)" "mem (init_idt b) = mem b"
    by simp (simp add: init_idt_def load_idt_def Let_def)
  obtain c where c: "vmm_init (init_idt b) = Some c" "boots (init_idt b) c"
    "mem c = build_tables (sym (init_idt b)) (clear_tables (sym (init_idt b)) (mem (init_idt b)))"
    "interrupt_handlers c = (interrupt_handlers (init_idt b))(14 \<mapsto> Page_fault_handler)"
    using boot_paging(1) [of "init_idt b"] by blast
  obtain d where d: "vmm_enable c = Some d" "boots c d" "mem d = mem c" "cr3 d = page_dir (sym c)"
    "cr0 d = cr0 c OR 0x80000001" "interrupt_handlers d = interrupt_handlers c"
    using boot_paging(2) [of c] by blast
  note bt = boots_trans [OF boots_trans [OF boots_trans [OF boots_initialize a(2)] b(2)] boots_trans [OF ib(1) c(2)]]
  have sym: "sym b = sym s" "sym (init_idt b) = sym s" "sym c = sym s"
    using bt boots_trans [OF boots_trans [OF boots_initialize a(2)] b(2)] boots_trans [OF boots_trans [OF boots_initialize a(2)] boots_trans [OF b(2) ib(1)]] by (simp_all add: boots_def)
  have m: "mem d = build_tables (sym s) (clear_tables (sym s) (mem s))"
    using d(3) c(3) ib(2) b(3) a(3) by (simp add: sym)
  show thesis
  proof (rule that [of d])
    show "boots s d" by (rule boots_trans [OF bt d(2)])
    show "mem d x = mem s x" if "\<not> in_tables (sym s) x" for x
      unfolding m by (rule build_tables_ok(3) [OF lay that])
    show "bit (cr0 d) 31" by (simp add: d(5) bit_or_iff bit_numeral_rec)
  qed (simp_all add: a(1) b(1) c(1,4) d(1,4,6) sym m)
qed

text \<open>
  The first prompt: the state in which the idle loop starts. The heap has one free piece less than
  8 MiB, of which the root and the README took their part.
\<close>

definition first_prompt :: "'a shell_scheme \<Rightarrow> bool" where
  "first_prompt s \<longleftrightarrow> at_prompt s 8388100 [(bytes_of ''README'', FS_FILE)] \<and> work_dir s = root s \<and> interrupts_on s \<and>
     (\<forall>v. translate s v = (if unat v < 0x1000000 then Some v else None)) \<and>
     interrupt_handlers s 14 = Some Page_fault_handler \<and> interrupt_handlers s 32 = Some Timer_handler \<and>
     interrupt_handlers s 33 = Some Keyboard_callback \<and>
     (\<exists>p. fs_find_child (mem s) (root s) (lit s ''README'') = Some p \<and> p \<noteq> 0 \<and>
        cstring (mem s) (load32 (mem s) (data_at p)) (bytes_of ''Welcome to ContinuumOS!''))"

lemma boot_prompt:
  assumes ld: "loaded s"
  obtains s' where "kernel_main s = Some (Inr s')" "first_prompt s'" "boots s s'"
    "\<And>x. x \<notin> heap_area \<Longrightarrow> \<not> in_tables (sym s) x \<Longrightarrow> mem s' x = mem s x"
proof -
  have lay: "vmm_layout (sym s)" "\<And>x. in_tables (sym s) x \<Longrightarrow> x \<notin> heap_area"
    and im: "shell_image s" "image_apart s" and live: "keyboard_live (io_dev (con s))"
    and vars: "shell_index s = 0" "current_dir s = 0" "input_enabled s"
    and placed: "\<And>str. str \<in> set (boot_strings @ '' '' # map fst filled_commands) \<Longrightarrow> placed s str"
    using ld by (auto simp: loaded_def list_all_iff)
  note out = placed [unfolded placed_def, THEN conjunct2, THEN conjunct2]
  obtain s1 where s1: "init_gdt (s\<lparr>con := term_initialize (con s)\<rparr>) \<bind> (\<lambda>s. init_pic s \<bind> (\<lambda>s.
      vmm_init (init_idt s) \<bind> vmm_enable)) = Some s1"
    "boots s s1" "\<And>x. \<not> in_tables (sym s) x \<Longrightarrow> mem s1 x = mem s x"
    "\<And>x. mem s1 x = build_tables (sym s) (clear_tables (sym s) (mem s)) x"
    "cr3 s1 = page_dir (sym s)" "bit (cr0 s1) 31" "interrupt_handlers s1 14 = Some Page_fault_handler"
    by (rule boot_early [OF ld]) (rule that, assumption+)
  have sym1: "sym s1 = sym s" "lit s1 = lit s" "current_dir s1 = 0" using s1(2) vars by (simp_all add: boots_def)
  obtain o2 m2 where s2: "init_heap s1 = Some (heap_after s1 o2 m2\<lparr>free_list := KERNEL_HEAP_START\<rparr>)"
    "heap_rep (heap_after s1 o2 m2\<lparr>free_list := KERNEL_HEAP_START\<rparr>) [(KERNEL_HEAP_SIZE - 12, True)]"
    "\<And>x. x \<notin> heap_area \<Longrightarrow> m2 x = mem s1 x"
    using init_heap_rep [of s1] by blast
  let ?s2 = "heap_after s1 o2 m2\<lparr>free_list := KERNEL_HEAP_START\<rparr>"
  have sel2: "lit ?s2 = lit s" "current_dir ?s2 = 0" "mem ?s2 = m2" "sym ?s2 = sym s" "boots s ?s2"
    "cr3 ?s2 = cr3 s1" "cr0 ?s2 = cr0 s1" "interrupt_handlers ?s2 = interrupt_handlers s1"
    using sym1 s1(2) by (simp_all add: heap_after_def boots_def)
  have m2: "m2 x = mem s x" if "x \<notin> heap_area" "\<not> in_tables (sym s) x" for x
    using s2(3) s1(3) that by simp
  have str: "str \<in> set (boot_strings @ '' '' # map fst filled_commands) \<Longrightarrow> cstring m2 (lit s str) (bytes_of str)" for str
    by (rule placed_keep [OF placed m2])
  show thesis
  proof (rule fs_init_rep [OF s2(2), unfolded sel2, where x = 8388348])
    show "cstring m2 (lit s ''/'') (bytes_of ''/'')" by (rule str) (simp add: boot_strings_def)
    show "lit s ''/'' + of_nat j \<notin> heap_area" if "j \<le> 1" for j
      using out [of "''/''"] that by (simp add: boot_strings_def)
    show "space (248 + 8388348) [(0x800000 - 12, True)]" by (simp add: space_def)
    fix o3 m3 bs3 p arr
    let ?s3 = "heap_after (?s2\<lparr>root := p\<rparr>) o3 m3"
    assume s3: "fs_init ?s2 = Some ?s3" "fs_state bs3 [p \<mapsto> Dir (bytes_of ''/'') 0 arr []] p ?s3" "space 8388348 bs3"
      "\<And>x. x \<notin> heap_area \<Longrightarrow> m3 x = m2 x"
    have sel3: "lit ?s3 = lit s" "current_dir ?s3 = 0" "mem ?s3 = m3" "root ?s3 = p" "sym ?s3 = sym s" "boots s ?s3"
      "cr3 ?s3 = cr3 s1" "cr0 ?s3 = cr0 s1" "interrupt_handlers ?s3 = interrupt_handlers s1"
      using sel2 by (simp_all add: heap_after_def boots_def)
    have m3: "m3 x = mem s x" if "x \<notin> heap_area" "\<not> in_tables (sym s) x" for x
      using s3(4) m2 that by simp
    have str3: "cstring m3 (lit s str) (bytes_of str)" if "str \<in> set boot_strings" for str
      by (rule placed_keep [OF placed m3]) (use that in simp_all)
    have bs: "str \<in> set boot_strings \<Longrightarrow> j \<le> length str \<Longrightarrow> lit s str + of_nat j \<notin> heap_area" for str j
      using out [of str] by simp
    have w: "fits (lit s ''Welcome to ContinuumOS!'') (Suc (length ''Welcome to ContinuumOS!''))"
      using placed [of "''Welcome to ContinuumOS!''"] unfolding placed_def by (simp add: boot_strings_def)
    show thesis
    proof (rule create_readme_rep [OF s3(2) sel3(4) [symmetric] _ _ _ _ _ _ _ _ _ refl, unfolded sel3,
          where x = 8388100 and dn = "bytes_of ''/''" and par = 0 and arr = arr and bs' = "bytes_of ''Welcome to ContinuumOS!''"])
      show "space (248 + 8388100) bs3" using s3(3) by simp
      show "cstring m3 (lit s ''README'') (bytes_of ''README'')"
        "cstring m3 (lit s ''Welcome to ContinuumOS!'') (bytes_of ''Welcome to ContinuumOS!'')"
        by (rule str3; simp add: boot_strings_def)+
      show "lit s ''README'' + of_nat j \<notin> heap_area" if "j \<le> 6" for j
        using bs [of "''README''" j] that by (simp add: boot_strings_def)
      show "lit s ''Welcome to ContinuumOS!'' + of_nat j \<notin> heap_area" if "j \<le> length (bytes_of ''Welcome to ContinuumOS!'')" for j
        using bs [of "''Welcome to ContinuumOS!''" j] that by (simp add: boot_strings_def)
      show "fits (lit s ''Welcome to ContinuumOS!'') (Suc (length (bytes_of ''Welcome to ContinuumOS!'')))"
        using w by simp
      fix o4 m4 bs4 fs4 c q
      let ?s4 = "heap_after ?s3 o4 m4"
      assume s4: "create_readme ?s3 = Some ?s4" "fs_state bs4 fs4 p ?s4" "space 8388100 bs4"
        "entries fs4 p = [(bytes_of ''README'', FS_FILE)]" "fs4 c = Some (File (bytes_of ''README'') p 128 q)"
        "fs4 p = Some (Dir (bytes_of ''/'') 0 arr [c])" "cstring m4 q (bytes_of ''Welcome to ContinuumOS!'')"
        "\<And>x. x \<notin> heap_area \<Longrightarrow> m4 x = m3 x"
      have sel4: "lit ?s4 = lit s" "current_dir ?s4 = 0" "mem ?s4 = m4" "root ?s4 = p" "sym ?s4 = sym s" "boots s ?s4"
        "cr3 ?s4 = cr3 s1" "cr0 ?s4 = cr0 s1" "interrupt_handlers ?s4 = interrupt_handlers s1"
        using sel3 by (simp_all add: heap_after_def boots_def)
      have live4: "keyboard_live (io_dev (con ?s4))" using sel4(6) live by (simp add: boots_def)
      obtain s5 where s5: "keyboard_install ?s4 = Some s5" "late ?s4 s5"
        "interrupt_handlers s5 = (interrupt_handlers ?s4)(33 \<mapsto> Keyboard_callback)"
        using boot_devices(1) [OF live4] by blast
      obtain s6 where s6: "init_timer 1000 s5 = Some (Inr s6)" "late s5 s6"
        "interrupt_handlers s6 = (interrupt_handlers s5)(32 \<mapsto> Timer_handler)"
        using boot_devices(2) by blast
      obtain s7 where s7: "shell_init s6 = Some s7" "late s6 s7" "interrupt_handlers s7 = interrupt_handlers s6"
        using boot_devices(3) by blast
      let ?s8 = "s7\<lparr>interrupts_on := True\<rparr>"
      have late: "late ?s4 s7" using late_trans [OF late_trans [OF s5(2) s6(2)] s7(2)] .
      then have sel8: "mem ?s8 = m4" "free_list ?s8 = free_list ?s4" "root ?s8 = p" "cr3 ?s8 = page_dir (sym s)"
        "bit (cr0 ?s8) 31" "boots s ?s8"
        using s1(5,6) sel4 boots_trans [OF sel4(6)] by (simp_all add: late_def)
      have v8: "sym ?s8 = sym s" "lit ?s8 = lit s" "shell_index ?s8 = 0" "current_dir ?s8 = 0" "input_enabled ?s8"
        using sel8(6) vars by (simp_all add: boots_def)
      have m4: "m4 x = mem s x" if "x \<notin> heap_area" "\<not> in_tables (sym s) x" for x
        using s4(8) m3 that by simp
      have run: "kernel_main s = Some (Inr ?s8)"
        using s1(1) s2(1) s3(1) s4(1) s5(1) s6(1) s7(1)
        by (auto simp: kernel_main_def bind_eq_Some_conv Let_def)
      have im8: "shell_image ?s8" "image_apart ?s8"
      proof -
        have "mem ?s8 (lit s str + of_nat j) = mem s (lit s str + of_nat j)"
          if "str \<in> set ('' '' # map fst filled_commands)" "j \<le> length str" for str j
          unfolding sel8(1) by (rule m4) (use out [of str] that in auto)
        from image_same [OF im v8(1,2) this] show "shell_image ?s8" "image_apart ?s8" by blast+
      qed
      have fs8: "fs_state bs4 fs4 p ?s8"
        by (rule fs_state_outside [OF s4(2)]) (use sel8 sel4 v8 in simp_all)
      have "line_rep ?s8 []"
        using im8(1) v8(3) by (simp add: line_rep_def shell_image_def bytes_at_def)
      then have pr: "at_prompt ?s8 8388100 [(bytes_of ''README'', FS_FILE)]"
        using fs8 s4(3,4) im8 v8(5) unfolding at_prompt_def by blast
      have tr: "translate ?s8 v = (if unat v < 0x1000000 then Some v else None)" for v
      proof -
        have "mem ?s8 x = build_tables (sym s) (clear_tables (sym s) (mem s)) x" if "in_tables (sym s) x" for x
          using s4(8) s3(4) s2(3) s1(4) lay(2) [OF that] by (simp add: sel8(1))
        from boot_translate [OF lay(1) this] show ?thesis
          using sel8(5) by (simp add: translate_def sel8(4))
      qed
      have st8: "blocks (heap_live bs4)" "store_rep (heap_live bs4) m4 fs4" "kids_ok fs4"
        using fs8 blocks_heap sel8(1) by (auto simp: fs_state_def store_ok_def)
      have "cstring m4 (lit s ''README'') (bytes_of ''README'')"
        by (rule placed_keep [OF placed m4]) (simp add: boot_strings_def)
      then have "fs_find_child m4 p (lit s ''README'') = Some (lookup fs4 [c] (bytes_of ''README''))"
        by (rule fs_find_child_rep [OF st8 s4(6)])
      also have "lookup fs4 [c] (bytes_of ''README'') = c" by (simp add: lookup_def s4(5))
      finally have fc: "fs_find_child m4 p (lit s ''README'') = Some c" .
      have "c \<noteq> 0" "load32 m4 (data_at c) = q"
        using store_repD [OF st8(2) s4(5)] node_fits [where fs = fs4, OF st8(1) _ s4(5)] st8(2) by (simp_all add: store_rep_def)
      then have "\<exists>p. fs_find_child (mem ?s8) (root ?s8) (lit ?s8 ''README'') = Some p \<and> p \<noteq> 0 \<and>
          cstring (mem ?s8) (load32 (mem ?s8) (data_at p)) (bytes_of ''Welcome to ContinuumOS!'')"
        using s4(7) fc by (intro exI [of _ c]) (simp only: sel8(1,3) v8(2) simp_thms)
      moreover have "work_dir ?s8 = root ?s8" by (simp only: work_dir_def v8(4) if_True simp_thms)
      ultimately have "first_prompt ?s8"
        using pr tr s1(7) sel4(9) s5(3) s6(3) s7(3) unfolding first_prompt_def by simp
      then show thesis by (rule that [OF run _ sel8(6)]) (use m4 sel8(1) in simp)
    qed simp_all
  qed simp_all
qed

end
