(* ===== verification/Fs_Content.thy ===== *)
theory Fs_Content
  imports Fs_Data
begin

text \<open>
  The contents of files: \<open>fs_read\<close> and \<open>fs_write\<close> of \<open>src/kernel/ramfs.cpp\<close> as reading from and
  overwriting a list of bytes, with the reallocation of the data on the kernel heap.
\<close>

section \<open>Replacing a node\<close>

lemma owned_parts:
  assumes "owned L fs" "fs a = Some nd" "fs b = Some nd'" "a \<noteq> b" "(q, n) \<in> parts a nd"
  shows "q \<notin> fst ` parts b nd'"
proof -
  have "fst ` parts a nd \<inter> fst ` parts b nd' = {}" using assms(1-4) unfolding owned_def by blast
  moreover have "q \<in> fst ` parts a nd" using assms(5) by force
  ultimately show ?thesis by blast
qed

lemma fst_disjoint: "(\<And>q n. (q, n) \<in> A \<Longrightarrow> q \<notin> B) \<Longrightarrow> fst ` A \<inter> B = {}"
  by force

lemma store_replace:
  assumes st: "store_rep L m fs" and f: "fs f = Some nd"
    and keep: "\<And>a nd' q n. fs a = Some nd' \<Longrightarrow> a \<noteq> f \<Longrightarrow> (q, n) \<in> parts a nd' \<Longrightarrow>
      agree_on m m' q n \<and> fits q n \<and> (\<exists>k \<ge> n. (q, k) \<in> L') \<and> q \<notin> fst ` parts f nd2"
    and new: "node_rep m' f nd2" "inj_on fst (parts f nd2)" "\<And>q n. (q, n) \<in> parts f nd2 \<Longrightarrow> \<exists>k \<ge> n. (q, k) \<in> L'"
  shows "store_rep L' m' (fs(f \<mapsto> nd2))"
proof -
  let ?fs = "fs(f \<mapsto> nd2)"
  have old: "owned L fs" using st by (simp add: store_rep_def)
  have dis: "fst ` parts a na \<inter> fst ` parts b nb = {}" if ab: "?fs a = Some na" "?fs b = Some nb" "a \<noteq> b" for a na b nb
  proof -
    consider "a = f" "b \<noteq> f" | "b = f" "a \<noteq> f" | "a \<noteq> f" "b \<noteq> f" using ab(3) by blast
    then show ?thesis
    proof cases
      case 1
      have "q \<notin> fst ` parts f nd2" if "(q, n) \<in> parts b nb" for q n
        using keep [of b nb q n] ab(2) that 1 by simp
      from fst_disjoint [OF this] show ?thesis using 1 ab(1) by (simp add: Int_commute)
    next
      case 2
      have "q \<notin> fst ` parts f nd2" if "(q, n) \<in> parts a na" for q n
        using keep [of a na q n] ab(1) that 2 by simp
      from fst_disjoint [OF this] show ?thesis using 2 ab(2) by simp
    next
      case 3
      then show ?thesis using old ab unfolding owned_def by simp
    qed
  qed
  have "owned L' ?fs"
    unfolding owned_def
  proof (intro conjI allI impI)
    fix a nd' q n
    assume a: "?fs a = Some nd'" "(q, n) \<in> parts a nd'"
    then show "\<exists>k \<ge> n. (q, k) \<in> L'"
      using new(3) keep [of a nd' q n] by (cases "a = f") auto
  next
    fix a nd'
    assume "?fs a = Some nd'"
    then show "inj_on fst (parts a nd')"
      using new(2) old by (cases "a = f") (auto simp: owned_def)
  qed (use dis in blast)
  moreover have "node_rep m' a nd'" if "?fs a = Some nd'" for a nd'
  proof (cases "a = f")
    case True
    then show ?thesis using that new(1) by simp
  next
    case False
    then have a: "fs a = Some nd'" using that by simp
    show ?thesis
      by (rule node_rep_agree [OF store_repD [OF st a]]) (use keep [OF a False] in blast)
  qed
  ultimately show ?thesis by (simp add: store_rep_def)
qed

section \<open>Contents\<close>

fun content :: "ram \<Rightarrow> fnode \<Rightarrow> u8 list" where
  "content m (File nm par sz dat) = (if dat = 0 then [] else bytes_at m dat (unat sz))"
| "content m (Dir nm par arr kids) = []"

definition overwrite :: "'b list \<Rightarrow> nat \<Rightarrow> 'b list \<Rightarrow> 'b list" where
  "overwrite c off bs = take off c @ bs @ drop (off + length bs) c"

lemma length_overwrite: "off \<le> length c \<Longrightarrow> length (overwrite c off bs) = max (length c) (off + length bs)"
  by (simp add: overwrite_def)

lemma read_overwrite: "off \<le> length c \<Longrightarrow> take (length bs) (drop off (overwrite c off bs)) = bs"
  by (simp add: overwrite_def)

lemma bytes_at_agree: "bytes_at m' p k = bytes_at m p k \<Longrightarrow> fits p k \<Longrightarrow> agree_on m m' p k"
proof -
  assume b: "bytes_at m' p k = bytes_at m p k" and f: "fits p k"
  have "m' x = m x" if "in_region x p k" for x
  proof -
    let ?i = "unat x - unat p"
    have i: "?i < k" "unat (p + of_nat ?i) = unat x"
      using that f by (auto simp: in_region_def fits_def unat_add_of_nat)
    then have "p + of_nat ?i = x" by (simp add: u32_eq_iff)
    then show ?thesis using nth_bytes_at [OF i(1), of m' p] nth_bytes_at [OF i(1), of m p] b by metis
  qed
  then show ?thesis by (simp add: agree_on_def)
qed

text \<open>A copy into the middle of a region.\<close>

lemma bytes_at_overwrite:
  assumes fit: "unat p + k < 4294967296" and off: "unat off \<le> c" "unat off + unat n \<le> k" "c \<le> k"
    and buf: "fits buf (unat n)" "apart (p + off) (unat n) buf (unat n)"
    and old: "bytes_at m p c = old"
  shows "bytes_at (memcpy m (p + off) buf n) p (max c (unat off + unat n)) = overwrite old (unat off) (bytes_at m buf (unat n))"
proof -
  have u: "unat (p + off) = unat p + unat off" using fit off by (intro unat_add_u32) simp
  have fo: "fits (p + off) (unat n)" using fit off u by (simp add: fits_def)
  have byte: "memcpy m (p + off) buf n (p + of_nat i) =
      (if unat off \<le> i \<and> i < unat off + unat n then m (buf + of_nat (i - unat off)) else m (p + of_nat i))" if "i < k" for i
  proof -
    have ui: "unat (p + of_nat i) = unat p + i" using that fit by (intro unat_add_of_nat) simp
    have "in_region (p + of_nat i) (p + off) (unat n) \<longleftrightarrow> unat off \<le> i \<and> i < unat off + unat n"
      by (auto simp: in_region_def u ui)
    moreover have "p + of_nat i - (p + off) = of_nat (i - unat off)" if "unat off \<le> i"
    proof -
      have "(of_nat i :: u32) = of_nat (i - unat off) + off" using that by (simp flip: of_nat_add add: of_nat_diff)
      then show ?thesis by simp
    qed
    ultimately show ?thesis by (auto simp: memcpy_apply [OF fo buf])
  qed
  show ?thesis
  proof (rule nth_equalityI)
    fix i
    assume "i < length (bytes_at (memcpy m (p + off) buf n) p (max c (unat off + unat n)))"
    then have i: "i < max c (unat off + unat n)" "i < k" using off by auto
    have len: "length old = c" using old by auto
    have oi: "old ! i = m (p + of_nat i)" if "i < c" using that old by auto
    show "bytes_at (memcpy m (p + off) buf n) p (max c (unat off + unat n)) ! i =
        overwrite old (unat off) (bytes_at m buf (unat n)) ! i"
      using i off len oi by (auto simp: byte overwrite_def nth_append)
  qed (use old off in \<open>auto simp: overwrite_def\<close>)
qed

section \<open>Reading\<close>

lemma fs_read_rep:
  assumes L: "blocks L" and st: "store_rep L (mem s) fs" and f: "fs f = Some (File nm par sz dat)"
    and nz: "dat \<noteq> 0" and range: "unat off + unat n < 4294967296"
    and buf: "fits buf (unat n)" "apart buf (unat n) dat (unat sz)"
  shows "fs_read f off n buf s =
    (if sz < off then (- 1, s)
     else let k = (if unat off + unat n \<le> unat sz then n else sz - off)
       in (sint k, s\<lparr>mem := memcpy (mem s) buf (dat + off) k\<rparr>))"
    and "off \<le> sz \<Longrightarrow> \<exists>(k :: u32) s'. fs_read f off n buf s = (sint k, s') \<and> unat k \<le> unat n \<and>
      bytes_at (mem s') buf (unat k) = take (unat n) (drop (unat off) (content (mem s) (File nm par sz dat))) \<and>
      (\<forall>x. \<not> in_region x buf (unat k) \<longrightarrow> mem s' x = mem s x)"
proof -
  have own: "owned L fs" using st by (simp add: store_rep_def)
  have nr: "node_rep (mem s) f (File nm par sz dat)" by (rule store_repD [OF st f])
  have part: "(dat, unat sz) \<in> parts f (File nm par sz dat)" using nz by simp
  have fit: "fits dat (unat sz)" and f0: "f \<noteq> 0"
    using part_fits [where fs = fs, OF L own f part] node_fits [where fs = fs, OF L own f] by auto
  have no: "unat (off + n) = unat off + unat n" using range by (rule unat_add_u32)
  show read: "fs_read f off n buf s =
    (if sz < off then (- 1, s)
     else let k = (if unat off + unat n \<le> unat sz then n else sz - off)
       in (sint k, s\<lparr>mem := memcpy (mem s) buf (dat + off) k\<rparr>))"
    using nr f0 by (auto simp: fs_read_def head_rep_def Let_def word_less_nat_alt no)
  assume le: "off \<le> sz"
  define k where "k = (if unat off + unat n \<le> unat sz then n else sz - off)"
  have le': "unat off \<le> unat sz" using le by (simp add: word_le_nat_alt)
  have ko: "unat (sz - off) = unat sz - unat off" using le by (rule unat_sub)
  have rd: "fs_read f off n buf s = (sint k, s\<lparr>mem := memcpy (mem s) buf (dat + off) k\<rparr>)"
    unfolding read Let_def k_def [symmetric] using leD [OF le] by simp
  have k: "unat k = min (unat n) (unat sz - unat off)" using le' by (auto simp: k_def ko)
  show "\<exists>(k :: u32) s'. fs_read f off n buf s = (sint k, s') \<and> unat k \<le> unat n \<and>
      bytes_at (mem s') buf (unat k) = take (unat n) (drop (unat off) (content (mem s) (File nm par sz dat))) \<and>
      (\<forall>x. \<not> in_region x buf (unat k) \<longrightarrow> mem s' x = mem s x)"
  proof (cases "unat k = 0")
    case True
    have mem: "memcpy (mem s) buf (dat + off) k = mem s" by (simp add: memcpy_def True)
    have nil: "take (unat n) (drop (unat off) (content (mem s) (File nm par sz dat))) = []"
      using k True nz by (auto simp: min_def split: if_splits)
    show ?thesis
      unfolding rd mem nil by (rule exI [of _ k], rule exI [of _ s]) (simp add: True bytes_at_def)
  next
    case False
    have u: "unat (dat + off) = unat dat + unat off"
      using fit k False by (intro unat_add_u32) (auto simp: fits_def)
    have fits: "fits buf (unat k)" "fits (dat + off) (unat k)" "apart buf (unat k) (dat + off) (unat k)"
      using fit k False buf u by (auto simp: fits_def apart_def)
    have "bytes_at (memcpy (mem s) buf (dat + off) k) buf (unat k) = bytes_at (mem s) (dat + off) (unat k)"
      by (rule memcpy_bytes [OF fits])
    also have "\<dots> = take (unat n) (drop (unat off) (content (mem s) (File nm par sz dat)))"
    proof (rule nth_equalityI)
      show "length (bytes_at (mem s) (dat + off) (unat k)) = length (take (unat n) (drop (unat off) (content (mem s) (File nm par sz dat))))"
        using nz by (simp add: k)
      fix i
      assume "i < length (bytes_at (mem s) (dat + off) (unat k))"
      then have i: "i < unat k" by simp
      have "i < unat sz - unat off" using i k by simp
      then have ix: "unat off + i < unat sz" by (simp add: less_diff_conv add.commute)
      show "bytes_at (mem s) (dat + off) (unat k) ! i = take (unat n) (drop (unat off) (content (mem s) (File nm par sz dat))) ! i"
        using i k le' nz nth_bytes_at [OF ix, of "mem s" dat] by (simp add: add.assoc)
    qed
    finally have "bytes_at (memcpy (mem s) buf (dat + off) k) buf (unat k) =
        take (unat n) (drop (unat off) (content (mem s) (File nm par sz dat)))" .
    moreover have "unat k \<le> unat n" using k by simp
    ultimately show ?thesis
      by (intro exI [of _ k] exI [of _ "s\<lparr>mem := memcpy (mem s) buf (dat + off) k\<rparr>"])
        (simp add: rd memcpy_apply [OF fits] del: content.simps)
  qed
qed

section \<open>Writing\<close>

lemma live_bound: "heap_rep s bs \<Longrightarrow> (p, k) \<in> heap_live bs \<Longrightarrow> unat p + k \<le> 0x1000000"
  by (rule heap_live_payload) auto

text \<open>\<open>krealloc\<close> of the data of a file, which may be NULL as long as the file is empty.\<close>

lemma krealloc_data:
  assumes rep: "heap_rep s bs" and n: "0 < n" "n \<le> 0xFFFFFFF0"
    and dat: "dat = 0 \<and> D = {} \<or> (dat, k) \<in> heap_live bs \<and> D = {(dat, k)}" and c: "c \<le> k" "dat = 0 \<Longrightarrow> c = 0"
  obtains r s1 bs1 where "krealloc dat n s = Some (r, s1)" "heap_rep s1 bs1"
    "keeps heap_area (heap_live bs - D) (mem s) (mem s1)"
    "r = 0 \<Longrightarrow> heap_live bs1 = heap_live bs \<and> keeps heap_area (heap_live bs) (mem s) (mem s1)"
    "r \<noteq> 0 \<Longrightarrow> (\<forall>i. (r, i) \<notin> heap_live bs - D) \<and> (\<exists>j \<ge> unat n. heap_live bs1 = insert (r, j) (heap_live bs - D)) \<and>
      bytes_at (mem s1) r c = bytes_at (mem s) dat c"
proof (cases "dat = 0")
  case True
  then have D: "D = {}" using dat heap_live_area(1) [OF rep, of 0 k] by auto
  obtain r s1 bs1 where al: "kmalloc n s = Some (r, s1)" "heap_rep s1 bs1"
    "keeps heap_area (heap_live bs) (mem s) (mem s1)"
    "if r = 0 then heap_live bs1 = heap_live bs
     else (\<forall>k. (r, k) \<notin> heap_live bs) \<and> (\<exists>k \<ge> unat n. heap_live bs1 = insert (r, k) (heap_live bs))"
    using kheap.acquire_ok [OF rep n] by blast
  have "n \<noteq> 0" using n(1) by auto
  then have "krealloc dat n s = Some (r, s1)" using al(1) by (simp add: krealloc_def True)
  then show thesis
    using al c(2) [OF True] by (intro that [of r s1 bs1]) (simp_all add: D bytes_at_def split: if_splits)
next
  case False
  then have live: "(dat, k) \<in> heap_live bs" and D: "D = {(dat, k)}" using dat by auto
  obtain r s1 bs1 where al: "krealloc dat n s = Some (r, s1)" "heap_rep s1 bs1"
    "keeps heap_area (heap_live bs - {(dat, k)}) (mem s) (mem s1)"
    "bytes_at (mem s1) (if r = 0 then dat else r) k = bytes_at (mem s) dat k"
    "if r = 0 then heap_live bs1 = heap_live bs
     else (\<forall>i. (r, i) \<notin> heap_live bs - {(dat, k)}) \<and>
       (\<exists>j \<ge> unat n. heap_live bs1 = insert (r, j) (heap_live bs - {(dat, k)}))"
    using krealloc_ok [OF rep live n] by blast
  have short: "bytes_at m p c = take c (bytes_at m p k)" for m p
    using c(1) by (simp add: bytes_at_def take_map)
  have "keeps heap_area (heap_live bs) (mem s) (mem s1)" if "r = 0"
  proof -
    have "agree_on (mem s) (mem s1) dat k"
      by (rule bytes_at_agree) (use al(4) that heap_live_area(2) [OF rep live] in simp_all)
    then show ?thesis using al(3) unfolding keeps_def by blast
  qed
  then show thesis
    using al by (intro that [of r s1 bs1]) (simp_all add: D short split: if_splits)
qed

lemma regions_apart:
  assumes "\<And>x. in_region x p n \<Longrightarrow> x \<in> A" "\<And>x. in_region x q k \<Longrightarrow> x \<notin> A" "0 < n" "0 < k"
  shows "apart p n q k"
proof (rule ccontr)
  assume no: "\<not> apart p n q k"
  define x where "x = (if unat p \<le> unat q then q else p)"
  have "in_region x p n" "in_region x q k" using no assms(3,4) by (auto simp: x_def apart_def in_region_def)
  then show False using assms(1,2) by blast
qed

lemma content_agree:
  assumes "blocks L" "store_rep L m fs" "fs a = Some nd" "\<And>q n. (q, n) \<in> parts a nd \<Longrightarrow> agree_on m m' q n"
  shows "content m' nd = content m nd"
proof (cases nd)
  case (File nm par sz dat)
  have own: "owned L fs" using assms(2) by (simp add: store_rep_def)
  have "bytes_at m' dat (unat sz) = bytes_at m dat (unat sz)" if "dat \<noteq> 0"
  proof -
    have p: "(dat, unat sz) \<in> parts a nd" using that by (simp add: File)
    show ?thesis
      using agree_on_bytes_at [OF assms(4) [OF p]] part_fits [where fs = fs, OF assms(1) own assms(3) p] by blast
  qed
  then show ?thesis by (simp add: File)
qed simp

text \<open>A copy into the data of a file.\<close>

lemma write_data:
  assumes rep: "heap_rep s bs" and st: "store_rep (heap_live bs) (mem s) fs"
    and f: "fs f = Some (File nm par sz dat)" "dat \<noteq> 0" "dat \<noteq> f"
    and range: "unat off + unat n \<le> unat sz"
    and buf: "fits buf (unat n)" "\<And>x. in_region x buf (unat n) \<Longrightarrow> x \<notin> heap_area"
  defines "m' \<equiv> memcpy (mem s) (dat + off) buf n"
  shows "heap_rep (s\<lparr>mem := m'\<rparr>) bs" "store_rep (heap_live bs) m' fs"
    "\<And>a nd. fs a = Some nd \<Longrightarrow> a \<noteq> f \<Longrightarrow> content m' nd = content (mem s) nd"
    "\<And>x. x \<notin> heap_area \<Longrightarrow> m' x = mem s x"
    "content m' (File nm par sz dat) = overwrite (content (mem s) (File nm par sz dat)) (unat off) (bytes_at (mem s) buf (unat n))"
proof -
  let ?nd = "File nm par sz dat"
  have L: "blocks (heap_live bs)" by (rule blocks_heap [OF rep])
  have own: "owned (heap_live bs) fs" using st by (simp add: store_rep_def)
  have dp: "(dat, unat sz) \<in> parts f ?nd" using f(2) by simp
  obtain k where k: "unat sz \<le> k" "(dat, k) \<in> heap_live bs" using ownedD [where fs = fs, OF own f(1) dp] by blast
  have bound: "unat dat + k < 4294967296" using live_bound [OF rep k(2)] by simp
  have u: "unat (dat + off) = unat dat + unat off" using bound range k(1) by (intro unat_add_u32) simp
  have fo: "fits (dat + off) (unat n)" using bound range k(1) by (simp add: fits_def u)
  have sub: "in_region x dat (unat sz)" if "in_region x (dat + off) (unat n)" for x
    using that range by (simp add: in_region_def u)
  have area: "x \<in> heap_area" if "in_region x dat (unat sz)" for x
    using kheap.live_area [OF rep k(2)] that k(1) by (fastforce simp: in_region_def)
  have apart: "apart (dat + off) (unat n) buf (unat n)"
  proof (cases "unat n = 0")
    case True
    then show ?thesis by (auto simp: apart_def)
  next
    case False
    then have "0 < unat n" by (simp only: neq0_conv)
    then show ?thesis by (intro regions_apart [where A = heap_area]) (use area sub buf(2) in simp_all)
  qed
  have out: "m' x = mem s x" if "\<not> in_region x dat (unat sz)" for x
    using that sub by (auto simp: m'_def memcpy_apply [OF fo buf(1) apart])
  show "heap_rep (s\<lparr>mem := m'\<rparr>) bs"
  proof (rule heap_rep_blocks [OF rep])
    fix x
    assume "m' x \<noteq> mem s x"
    then have "in_region x dat (unat sz)" using out by blast
    then have "in_region x dat k" using k(1) by (simp add: in_region_def)
    then show "\<exists>(p, k) \<in> heap_live bs. in_region x p k" using k(2) by blast
  qed
  show "m' x = mem s x" if "x \<notin> heap_area" for x using out area that by blast
  have other: "agree_on (mem s) m' q i" if "fs a = Some nd" "(q, i) \<in> parts a nd" "(a, q) \<noteq> (f, dat)" for a nd q i
  proof -
    have "apart q i dat (unat sz)"
      using parts_apart [OF L own that(1,2) f(1) dp] that(3) by auto
    then show ?thesis unfolding agree_on_def using out apart_in_region by blast
  qed
  have fit: "fits f 88" using node_fits [where fs = fs, OF L own f(1)] by blast
  have ag: "agree_on (mem s) m' f 88" by (rule other [OF f(1) head_part]) (use f(3) in auto)
  have nr: "node_rep m' f ?nd"
    using store_repD [OF st f(1)] head_rep_agree [OF _ ag fit] field_agree [OF ag fit] by simp
  have "node_rep m' a nd" if a: "fs a = Some nd" for a nd
  proof (cases "a = f")
    case True
    then show ?thesis using a f(1) nr by simp
  next
    case False
    show ?thesis
      by (rule node_rep_agree [OF store_repD [OF st a]])
        (use other [OF a] False part_fits [where fs = fs, OF L own a] in blast)
  qed
  then show "store_rep (heap_live bs) m' fs" using own by (simp add: store_rep_def)
  show "content m' nd = content (mem s) nd" if "fs a = Some nd" "a \<noteq> f" for a nd
    by (rule content_agree [OF L st that(1)]) (use other [OF that(1)] that(2) in blast)
  show "content m' ?nd = overwrite (content (mem s) ?nd) (unat off) (bytes_at (mem s) buf (unat n))"
    using bytes_at_overwrite [where c = "unat sz" and k = k, OF bound _ _ k(1) buf(1) apart refl] range k(1) f(2)
    by (simp add: m'_def max_def)
qed

lemma node_block:
  assumes "owned L fs" "fs a = Some nd" "(q, n) \<in> parts a nd" "keeps A L' m m'" "\<And>k. (q, k) \<in> L \<Longrightarrow> (q, k) \<in> L'"
  shows "agree_on m m' q n"
proof -
  obtain k where "n \<le> k" "(q, k) \<in> L" using ownedD [where fs = fs, OF assms(1-3)] by blast
  then show ?thesis using keeps_agree [OF assms(4)] assms(5) by blast
qed

text \<open>The growth of the data: a new block that begins with the old contents, and the two fields.\<close>

lemma grow_data:
  assumes rep: "heap_rep s bs" and st: "store_rep (heap_live bs) (mem s) fs"
    and f: "fs f = Some (File nm par sz dat)" "dat \<noteq> f" "dat = 0 \<Longrightarrow> sz = 0"
    and n: "sz < n" "n \<le> 0xFFFFFFF0"
  obtains r s1 bs1 where "krealloc dat n s = Some (r, s1)" "heap_rep s1 bs1"
    "\<And>x. x \<notin> heap_area \<Longrightarrow> mem s1 x = mem s x" "r = 0 \<Longrightarrow> store_rep (heap_live bs1) (mem s1) fs"
    "\<And>a nd. fs a = Some nd \<Longrightarrow> r = 0 \<or> a \<noteq> f \<Longrightarrow> content (mem s1) nd = content (mem s) nd"
    "\<And>m2. r \<noteq> 0 \<Longrightarrow> m2 = store32 (store32 (mem s1) (data_at f) r) (size_at f) n \<Longrightarrow>
      heap_rep (s1\<lparr>mem := m2\<rparr>) bs1 \<and> store_rep (heap_live bs1) m2 (fs(f \<mapsto> File nm par n r)) \<and> r \<noteq> f \<and>
      take (unat sz) (content m2 (File nm par n r)) = content (mem s) (File nm par sz dat) \<and>
      (\<forall>x. x \<notin> heap_area \<longrightarrow> m2 x = mem s x) \<and>
      (\<forall>a nd. fs a = Some nd \<longrightarrow> a \<noteq> f \<longrightarrow> content m2 nd = content (mem s) nd)"
proof -
  let ?nd = "File nm par sz dat"
  have L: "blocks (heap_live bs)" by (rule blocks_heap [OF rep])
  have own: "owned (heap_live bs) fs" using st by (simp add: store_rep_def)
  obtain kf where kf: "88 \<le> kf" "(f, kf) \<in> heap_live bs" using ownedD [where fs = fs, OF own f(1) head_part] by blast
  obtain k D where D: "dat = 0 \<and> D = {} \<or> (dat, k) \<in> heap_live bs \<and> D = {(dat, k)}" "unat sz \<le> k"
  proof (cases "dat = 0")
    case True
    then show thesis using that [of "{}" 0] f(3) by simp
  next
    case False
    then have "(dat, unat sz) \<in> parts f ?nd" by simp
    then obtain k where "unat sz \<le> k" "(dat, k) \<in> heap_live bs" using ownedD [where fs = fs, OF own f(1)] by blast
    then show thesis using that [of "{(dat, k)}" k] by blast
  qed
  have n0: "0 < n" using n(1) by (rule le_less_trans [rotated]) simp
  obtain r s1 bs1 where al: "krealloc dat n s = Some (r, s1)" "heap_rep s1 bs1"
    "keeps heap_area (heap_live bs - D) (mem s) (mem s1)"
    "r = 0 \<Longrightarrow> heap_live bs1 = heap_live bs \<and> keeps heap_area (heap_live bs) (mem s) (mem s1)"
    "r \<noteq> 0 \<Longrightarrow> (\<forall>i. (r, i) \<notin> heap_live bs - D) \<and> (\<exists>j \<ge> unat n. heap_live bs1 = insert (r, j) (heap_live bs - D)) \<and>
      bytes_at (mem s1) r (unat sz) = bytes_at (mem s) dat (unat sz)"
    using krealloc_data [OF rep n0 n(2) D(1,2)] f(3) by auto
  have outside: "mem s1 x = mem s x" if "x \<notin> heap_area" for x using al(3) that by (simp add: keeps_def)
  show thesis
  proof (cases "r = 0")
    case True
    have keep: "heap_live bs1 = heap_live bs" "keeps heap_area (heap_live bs) (mem s) (mem s1)" using al(4) [OF True] by auto
    have "store_rep (heap_live bs1) (mem s1) fs"
      by (rule store_rep_agree [OF L st keepsD [OF keep(2)]]) (use keep(1) in simp_all)
    moreover have "content (mem s1) nd = content (mem s) nd" if "fs a = Some nd" for a nd
      by (rule content_agree [OF L st that]) (rule node_block [OF own that _ keep(2)])
    ultimately show thesis
      using al(1,2) outside True by (intro that [of r s1 bs1]) simp_all
  next
    case r: False
    obtain j where j: "unat n \<le> j" "heap_live bs1 = insert (r, j) (heap_live bs - D)" "\<And>i. (r, i) \<notin> heap_live bs - D"
      "bytes_at (mem s1) r (unat sz) = bytes_at (mem s) dat (unat sz)"
      using al(5) [OF r] by blast
    have f1: "(f, kf) \<in> heap_live bs - D" using kf(2) D(1) f(2) by auto
    then have live1: "(f, kf) \<in> heap_live bs1" "(r, j) \<in> heap_live bs1" and rf: "r \<noteq> f" using j by auto
    have L1: "blocks (heap_live bs1)" by (rule blocks_heap [OF al(2)])
    have fit: "fits f 88" using node_fits [where fs = fs, OF L own f(1)] by blast
    note u = node_unat [OF fit]
    let ?ma = "store32 (mem s1) (data_at f) r"
    define m2 where "m2 = store32 ?ma (size_at f) n"
    have out2: "m2 x = mem s1 x" if "\<not> in_region x f 88" for x
      using store32_outside [OF fit u(2) _ that] store32_outside [OF fit u(3) _ that] by (simp add: m2_def)
    have apart2: "agree_on (mem s1) m2 q i" if "(q, k') \<in> heap_live bs1" "q \<noteq> f" "i \<le> k'" for q i k'
      unfolding agree_on_def
      using out2 apart_in_region [OF blocks_apart [OF L1 that(1) live1(1) that(2,3) kf(1)]] by blast
    have other: "agree_on (mem s) m2 q i \<and> (\<exists>k \<ge> i. (q, k) \<in> heap_live bs1) \<and> q \<noteq> f \<and> q \<noteq> r"
      if a: "fs a = Some nd" "a \<noteq> f" "(q, i) \<in> parts a nd" for a nd q i
    proof -
      have nq: "q \<notin> fst ` parts f ?nd" by (rule owned_parts [OF own a(1) f(1) a(2,3)])
      obtain k' where k': "i \<le> k'" "(q, k') \<in> heap_live bs" using ownedD [where fs = fs, OF own a(1,3)] by blast
      have q0: "q \<noteq> 0" using part_fits [where fs = fs, OF L own a(1,3)] by blast
      have "q \<noteq> f" using nq by (cases "dat = 0") auto
      moreover have "q \<noteq> dat" using nq q0 by (cases "dat = 0") auto
      then have k2: "(q, k') \<in> heap_live bs - D" using k'(2) D(1) by auto
      moreover have "q \<noteq> r" using k2 j(3) by auto
      moreover have "agree_on (mem s) (mem s1) q i" by (rule keeps_agree [OF al(3) k2 k'(1)])
      moreover have "(q, k') \<in> heap_live bs1" using k2 j(2) by blast
      ultimately show ?thesis using agree_on_trans apart2 k'(1) by blast
    qed
    have nr: "head_rep (mem s) f nm FS_FILE par" using store_repD [OF st f(1)] by simp
    have node: "node_rep m2 f (File nm par n r)"
    proof -
      have ag: "agree_on (mem s) (mem s1) f 88" by (rule keeps_agree [OF al(3) f1 kf(1)])
      have h1: "head_rep (mem s1) f nm FS_FILE par" by (rule head_rep_agree [OF nr ag fit])
      have low: "agree_on m (store32 m q v) f 64" if "unat q = unat f + i" "64 \<le> i" "i + 4 \<le> 88" for m q v i
        using that fit by (auto simp: agree_on_def in_region_def fits_def intro!: store32_other)
      have h2: "head_rep ?ma f nm FS_FILE par"
        by (rule head_rep_fields [OF h1 low [OF u(3)] fit])
          (use h1 field_read [OF fit u(3) u(1)] field_read [OF fit u(3) u(4)] in \<open>simp_all add: head_rep_def\<close>)
      have h3: "head_rep m2 f nm FS_FILE par"
        unfolding m2_def
        by (rule head_rep_fields [OF h2 low [OF u(2)] fit])
          (use h2 field_read [OF fit u(2) u(1)] field_read [OF fit u(2) u(4)] in \<open>simp_all add: head_rep_def\<close>)
      have "load32 m2 (data_at f) = r" using field_read [OF fit u(2) u(3)] by (simp add: m2_def)
      then show ?thesis using h3 by (simp add: m2_def)
    qed
    have store: "store_rep (heap_live bs1) m2 (fs(f \<mapsto> File nm par n r))"
    proof (rule store_replace [OF st f(1) _ node])
      show "agree_on (mem s) m2 q i \<and> fits q i \<and> (\<exists>k \<ge> i. (q, k) \<in> heap_live bs1) \<and> q \<notin> fst ` parts f (File nm par n r)"
        if "fs a = Some nd" "a \<noteq> f" "(q, i) \<in> parts a nd" for a nd q i
        using other [OF that] part_fits [where fs = fs, OF L own that(1,3)] r by simp
      show "inj_on fst (parts f (File nm par n r))" using rf by auto
      show "\<exists>k \<ge> i. (q, k) \<in> heap_live bs1" if "(q, i) \<in> parts f (File nm par n r)" for q i
        using that live1 kf(1) j(1) r by auto
    qed
    have heap: "heap_rep (s1\<lparr>mem := m2\<rparr>) bs1"
    proof (rule heap_rep_blocks [OF al(2)])
      fix x
      assume "m2 x \<noteq> mem s1 x"
      then have "in_region x f 88" using out2 by blast
      then have "in_region x f kf" using kf(1) by (simp add: in_region_def)
      then show "\<exists>(p, k) \<in> heap_live bs1. in_region x p k" using live1(1) by blast
    qed
    have cont: "take (unat sz) (content m2 (File nm par n r)) = content (mem s) ?nd"
    proof -
      have le: "unat sz \<le> unat n" using n(1) by (simp add: word_less_nat_alt)
      have "agree_on (mem s1) m2 r (unat sz)" by (rule apart2 [OF live1(2) rf]) (use le j(1) in simp)
      moreover have "fits r (unat sz)"
        using heap_live_area(2) [OF al(2) live1(2)] le j(1) by (simp add: fits_def)
      ultimately have "bytes_at m2 r (unat sz) = bytes_at (mem s) dat (unat sz)"
        using agree_on_bytes_at j(4) by metis
      moreover have "take (unat sz) (bytes_at m2 r (unat n)) = bytes_at m2 r (unat sz)"
        using le by (simp add: bytes_at_def take_map)
      ultimately show ?thesis using r f(3) by (cases "dat = 0") (simp_all add: bytes_at_def)
    qed
    have rest: "content m2 nd = content (mem s) nd" if "fs a = Some nd" "a \<noteq> f" for a nd
      by (rule content_agree [OF L st that(1)]) (use other [OF that] in blast)
    have outside2: "m2 x = mem s x" if "x \<notin> heap_area" for x
    proof -
      have "\<not> in_region x f 88"
        using kheap.live_area [OF al(2) live1(1), of x] kf(1) that by (auto simp: in_region_def)
      then show ?thesis using out2 outside [OF that] by simp
    qed
    show thesis
    proof (rule that [of r s1 bs1])
      show "content (mem s1) nd = content (mem s) nd" if a: "fs a = Some nd" "r = 0 \<or> a \<noteq> f" for a nd
      proof (rule content_agree [OF L st a(1)])
        show "agree_on (mem s) (mem s1) q i" if p: "(q, i) \<in> parts a nd" for q i
        proof -
          have "agree_on (mem s) m2 q i \<and> q \<noteq> f \<and> (\<exists>k \<ge> i. (q, k) \<in> heap_live bs1)" using other [OF a(1) _ p] a(2) r by blast
          then have "agree_on (mem s) m2 q i" "agree_on (mem s1) m2 q i" using apart2 by blast+
          then show ?thesis by (simp add: agree_on_def)
        qed
      qed
    qed (use al(1,2) outside r store heap cont rest rf outside2 in \<open>simp_all add: m2_def [symmetric]\<close>)
  qed
qed

text \<open>
  \<open>fs_write\<close> within the contents or at their end: it overwrites, growing the file when it must, or
  reports that memory is out and changes no contents.
\<close>

lemma fs_write_rep:
  assumes rep: "heap_rep s bs" and st: "store_rep (heap_live bs) (mem s) fs"
    and f: "fs f = Some (File nm par sz dat)" "dat \<noteq> f" "dat = 0 \<Longrightarrow> sz = 0"
    and range: "off \<le> sz" "unat off + unat n \<le> 0xFFFFFFF0" "0 < n"
    and buf: "fits buf (unat n)" "\<And>x. in_region x buf (unat n) \<Longrightarrow> x \<notin> heap_area"
  obtains r s' bs' fs' where "fs_write f off n buf s = Some (r, s')" "heap_rep s' bs'"
    "store_rep (heap_live bs') (mem s') fs'" "\<And>x. x \<notin> heap_area \<Longrightarrow> mem s' x = mem s x"
    "\<And>a nd. fs a = Some nd \<Longrightarrow> a \<noteq> f \<Longrightarrow> fs' a = Some nd \<and> content (mem s') nd = content (mem s) nd"
    "(r = - 1 \<and> sz < off + n \<and> fs' = fs \<and> content (mem s') (File nm par sz dat) = content (mem s) (File nm par sz dat)) \<or>
     (r = sint n \<and> (\<exists>dat'. dat' \<noteq> 0 \<and> dat' \<noteq> f \<and> fs' = fs(f \<mapsto> File nm par (max sz (off + n)) dat') \<and>
       content (mem s') (File nm par (max sz (off + n)) dat') =
         overwrite (content (mem s) (File nm par sz dat)) (unat off) (bytes_at (mem s) buf (unat n))))"
proof -
  let ?nd = "File nm par sz dat"
  have L: "blocks (heap_live bs)" by (rule blocks_heap [OF rep])
  have own: "owned (heap_live bs) fs" using st by (simp add: store_rep_def)
  have nr: "node_rep (mem s) f ?nd" by (rule store_repD [OF st f(1)])
  have f0: "f \<noteq> 0" using node_fits [where fs = fs, OF L own f(1)] by blast
  have no: "unat (off + n) = unat off + unat n" using range(2) by (intro unat_add_u32) simp
  have ty: "node_type (mem s) f = type_code FS_FILE" "load32 (mem s) (size_at f) = sz" "load32 (mem s) (data_at f) = dat"
    using nr by (simp_all add: head_rep_def)
  have n0: "0 < unat n" using range(3) by (simp add: unat_gt_0 word_gt_0)
  show thesis
  proof (cases "sz < off + n")
    case False
    then have le: "unat off + unat n \<le> unat sz" by (simp add: word_less_nat_alt no)
    have dat: "dat \<noteq> 0" using f(3) le n0 by auto
    note w = write_data [OF rep st f(1) dat f(2) le buf]
    have mx: "max sz (off + n) = sz" using False by (simp add: max_def)
    let ?s = "s\<lparr>mem := memcpy (mem s) (dat + off) buf n\<rparr>"
    have same: "fs = fs(f \<mapsto> ?nd)" using f(1) by (simp add: fun_upd_idem)
    show thesis
    proof (rule that [of "sint n" ?s bs fs])
      show "(sint n = - 1 \<and> sz < off + n \<and> fs = fs \<and> content (mem ?s) ?nd = content (mem s) ?nd) \<or>
        (sint n = sint n \<and> (\<exists>dat'. dat' \<noteq> 0 \<and> dat' \<noteq> f \<and> fs = fs(f \<mapsto> File nm par (max sz (off + n)) dat') \<and>
          content (mem ?s) (File nm par (max sz (off + n)) dat') =
            overwrite (content (mem s) ?nd) (unat off) (bytes_at (mem s) buf (unat n))))"
        using w(5) dat f(2) same unfolding mx by (intro disjI2 conjI refl exI [of _ dat]) simp_all
    qed (use w False in \<open>simp_all add: fs_write_def f0 ty del: content.simps type_code.simps\<close>)
  next
    case True
    have le: "unat off \<le> unat sz" using range(1) by (simp add: word_le_nat_alt)
    have n': "off + n \<le> 0xFFFFFFF0" using range(2) by (simp add: word_le_nat_alt no)
    have mx: "max sz (off + n) = off + n" by (rule max_absorb2) (rule less_imp_le [OF True])
    show thesis
    proof (rule grow_data [OF rep st f True n'])
      fix r s1 bs1
      assume kr: "krealloc dat (off + n) s = Some (r, s1)" "heap_rep s1 bs1"
        "\<And>x. x \<notin> heap_area \<Longrightarrow> mem s1 x = mem s x" "r = 0 \<Longrightarrow> store_rep (heap_live bs1) (mem s1) fs"
        "\<And>a nd. fs a = Some nd \<Longrightarrow> r = 0 \<or> a \<noteq> f \<Longrightarrow> content (mem s1) nd = content (mem s) nd"
        and grown: "\<And>m2. r \<noteq> 0 \<Longrightarrow> m2 = store32 (store32 (mem s1) (data_at f) r) (size_at f) (off + n) \<Longrightarrow>
          heap_rep (s1\<lparr>mem := m2\<rparr>) bs1 \<and> store_rep (heap_live bs1) m2 (fs(f \<mapsto> File nm par (off + n) r)) \<and> r \<noteq> f \<and>
          take (unat sz) (content m2 (File nm par (off + n) r)) = content (mem s) ?nd \<and>
          (\<forall>x. x \<notin> heap_area \<longrightarrow> m2 x = mem s x) \<and>
          (\<forall>a nd. fs a = Some nd \<longrightarrow> a \<noteq> f \<longrightarrow> content m2 nd = content (mem s) nd)"
      show thesis
      proof (cases "r = 0")
        case r: True
        have "cstring (mem s1) f nm"
          using store_repD [OF kr(4) [OF r] f(1)] by (simp add: head_rep_def)
        then have "\<exists>out. printf ((''Write error: Out of memory for '' @ [CHR 39]) @ ''%s'' @ (CHR 39 # ''\<newline>'')) [f] s1 =
            Some (s1\<lparr>con := term_write out (con s1)\<rparr>)"
          by - (rule exI, rule printf_s, simp, simp, assumption)
        then obtain out where p: "printf ''Write error: Out of memory for '%s'\<newline>'' [f] s1 =
            Some (s1\<lparr>con := term_write out (con s1)\<rparr>)" by auto
        have "heap_rep (s1\<lparr>con := term_write out (con s1)\<rparr>) bs1" using kr(2) by (simp add: heap_rep_def)
        then show thesis
          using kr True f(1) r
          by (intro that [of "- 1" "s1\<lparr>con := term_write out (con s1)\<rparr>" bs1 fs])
            (simp_all add: fs_write_def f0 ty p del: content.simps type_code.simps)
      next
        case r: False
        define m2 where "m2 = store32 (store32 (mem s1) (data_at f) r) (size_at f) (off + n)"
        note g = grown [OF r m2_def]
        let ?n2 = "File nm par (off + n) r" and ?fs2 = "fs(f \<mapsto> File nm par (off + n) r)"
        have h2: "heap_rep (s1\<lparr>mem := m2\<rparr>) bs1" "store_rep (heap_live bs1) (mem (s1\<lparr>mem := m2\<rparr>)) ?fs2"
          "?fs2 f = Some ?n2" "r \<noteq> f" "unat off + unat n \<le> unat (off + n)" using g by (simp_all add: no)
        note w = write_data [where fs = ?fs2, OF h2(1,2,3) r h2(4,5) buf]
        have b2: "bytes_at m2 buf (unat n) = bytes_at (mem s) buf (unat n)"
          using g buf(2) by (intro agree_on_bytes_at [OF _ buf(1)]) (auto simp: agree_on_def)
        have len: "length (content (mem s) ?nd) = unat sz" using f(3) by auto
        have "overwrite (content m2 ?n2) (unat off) (bytes_at (mem s) buf (unat n)) =
            overwrite (content (mem s) ?nd) (unat off) (bytes_at (mem s) buf (unat n))"
        proof -
          have "take (unat off) (content m2 ?n2) = take (unat off) (take (unat sz) (content m2 ?n2))"
            using le by (simp add: min_def del: content.simps)
          also have "\<dots> = take (unat off) (content (mem s) ?nd)" using g by simp
          finally have "take (unat off) (content m2 ?n2) = take (unat off) (content (mem s) ?nd)" .
          moreover have "length (content m2 ?n2) \<le> unat off + unat n" by (simp add: no)
          moreover have "unat sz \<le> unat off + unat n" using True by (simp add: word_less_nat_alt no)
          ultimately show ?thesis using len by (simp add: overwrite_def del: content.simps)
        qed
        then have ct: "content (memcpy m2 (r + off) buf n) ?n2 =
            overwrite (content (mem s) ?nd) (unat off) (bytes_at (mem s) buf (unat n))"
          using w(5) b2 by (simp del: content.simps)
        let ?s3 = "s1\<lparr>mem := memcpy m2 (r + off) buf n\<rparr>"
        show thesis
        proof (rule that [of "sint n" ?s3 bs1 ?fs2])
          have "load32 m2 (data_at f) = r"
            using store_repD [OF h2(2,3)] by simp
          then show "fs_write f off n buf s = Some (sint n, ?s3)"
            using True r kr(1) by (simp add: fs_write_def f0 ty m2_def del: type_code.simps)
          show "heap_rep ?s3 bs1" using w(1) by simp
          show "store_rep (heap_live bs1) (mem ?s3) ?fs2" using w(2) by simp
          show "mem ?s3 x = mem s x" if "x \<notin> heap_area" for x
            using w(4) [of x] g that by simp
          show "?fs2 a = Some nd \<and> content (mem ?s3) nd = content (mem s) nd"
            if "fs a = Some nd" "a \<noteq> f" for a nd
            using w(3) [of a nd] g that by (simp del: content.simps)
          show "(sint n = - 1 \<and> sz < off + n \<and> ?fs2 = fs \<and> content (mem ?s3) ?nd = content (mem s) ?nd) \<or>
            (sint n = sint n \<and> (\<exists>dat'. dat' \<noteq> 0 \<and> dat' \<noteq> f \<and> ?fs2 = fs(f \<mapsto> File nm par (max sz (off + n)) dat') \<and>
              content (mem ?s3) (File nm par (max sz (off + n)) dat') =
                overwrite (content (mem s) ?nd) (unat off) (bytes_at (mem s) buf (unat n))))"
            using ct r h2(4) unfolding mx by (intro disjI2 conjI refl exI [of _ r]) simp_all
        qed
      qed
    qed
  qed
qed

end
