(* ===== verification/Syscalls.thy ===== *)
theory Syscalls
  imports Ramfs
begin

text \<open>
  The system calls (\<open>src/kernel/syscalls.cpp\<close>): the file operations by descriptor. No operation
  advances the offset of a descriptor.
\<close>

definition sys_open :: "u32 \<Rightarrow> 'a ramfs_scheme \<Rightarrow> (int \<times> 'a ramfs_scheme) option" where
  "sys_open path s = do {
     (node, s) \<leftarrow> fs_find_by_path path s;
     if node = 0 then Some (- 1, s) else Some (fs_open node s)
   }"

definition bad_fd :: "int \<Rightarrow> 'a ramfs_scheme \<Rightarrow> bool" where
  "bad_fd fd s \<longleftrightarrow> fd < 0 \<or> MAX_OPEN_FILES \<le> fd \<or> fd_used (fd_table s ! nat fd) = 0"

definition sys_read :: "int \<Rightarrow> u32 \<Rightarrow> u32 \<Rightarrow> 'a ramfs_scheme \<Rightarrow> int \<times> 'a ramfs_scheme" where
  "sys_read fd buffer n s =
     (if bad_fd fd s then (- 1, s)
      else fs_read (fd_node (fd_table s ! nat fd)) (fd_offset (fd_table s ! nat fd)) n buffer s)"

definition sys_write :: "int \<Rightarrow> u32 \<Rightarrow> u32 \<Rightarrow> 'a ramfs_scheme \<Rightarrow> (int \<times> 'a ramfs_scheme) option" where
  "sys_write fd buffer n s =
     (if bad_fd fd s then Some (- 1, s)
      else fs_write (fd_node (fd_table s ! nat fd)) (fd_offset (fd_table s ! nat fd)) n buffer s)"

definition sys_close :: "int \<Rightarrow> 'a ramfs_scheme \<Rightarrow> 'a ramfs_scheme" where
  "sys_close fd s = fs_close fd s"

end
