(* ===== verification/Files_Props.thy ===== *)
theory Files_Props
  imports Boot_Files Fs_Content Syscalls
begin

text \<open>
  The properties of the kernel as a system with files: it boots to a prompt, what is typed there
  changes the directory as specified, and what the file operations do on the way.
\<close>

section \<open>A loaded image\<close>

text \<open>
  An image for the witnesses: the strings below 4 KiB, the tables from \<open>0x10000\<close>, the line buffer at
  \<open>0x5000\<close>, idle devices.
\<close>

lemma poke_other: "fits p (Suc (length bs)) \<Longrightarrow> \<not> in_region a p (Suc (length bs)) \<Longrightarrow> poke p bs m a = m a"
proof (induction p bs m rule: poke.induct)
  case (2 p b bs m)
  have p: "unat (p + 1) = unat p + 1" using 2(2) by (intro unat_add_one) (simp add: fits_def)
  have "a \<noteq> p" using 2(3) by (auto simp: in_region_def)
  moreover have "fits (p + 1) (Suc (length bs))" "\<not> in_region a (p + 1) (Suc (length bs))"
    using 2(2,3) by (auto simp: fits_def in_region_def p)
  with 2(1) have "poke (p + 1) bs (m(p := b)) a = (m(p := b)) a" by blast
  then show ?case using \<open>a \<noteq> p\<close> unfolding poke.simps by simp
qed (auto simp: in_region_def)

lemma poke_cstring: "fits p (Suc (length bs)) \<Longrightarrow> 0 \<notin> set bs \<Longrightarrow> cstring (poke p bs m) p bs"
proof (induction p bs m rule: poke.induct)
  case (2 p b bs m)
  have p: "unat (p + 1) = unat p + 1" using 2(2) by (intro unat_add_one) (simp add: fits_def)
  have f: "fits (p + 1) (Suc (length bs))" using 2(2) by (simp add: fits_def p)
  then have "poke (p + 1) bs (m(p := b)) p = b"
    by (subst poke_other) (auto simp: in_region_def p)
  moreover have "cstring (poke (p + 1) bs (m(p := b))) (p + 1) bs" by (rule 2(1) [OF f]) (use 2(3) in simp)
  ultimately show ?case using 2(3) unfolding poke.simps cstring.simps by simp
qed simp

lemma pokes_cstring:
  assumes "sorted_wrt (\<lambda>(p, as) (q, bs). apart p (Suc (length as)) q (Suc (length bs))) xs"
    and "\<And>p bs. (p, bs) \<in> set xs \<Longrightarrow> fits p (Suc (length bs)) \<and> 0 \<notin> set bs" "(p, bs) \<in> set xs"
  shows "cstring (fold (\<lambda>(p, bs). poke p bs) xs m) p bs"
proof -
  have rest: "cstring (fold (\<lambda>(p, bs). poke p bs) ys m) p bs"
    if "cstring m p bs" "fits p (Suc (length bs))"
      "\<And>q as. (q, as) \<in> set ys \<Longrightarrow> apart p (Suc (length bs)) q (Suc (length as)) \<and> fits q (Suc (length as))" for ys m p bs
    using that
  proof (induction ys arbitrary: m)
    case (Cons y ys)
    obtain q as where y: "y = (q, as)" by (cases y)
    have a: "apart p (Suc (length bs)) q (Suc (length as))" "fits q (Suc (length as))" using Cons.prems(3) [of q as] y by auto
    have "cstring (poke q as m) p bs"
      by (rule cstring_apart [OF Cons.prems(1,2) a(1)]) (rule poke_other [OF a(2)])
    then show ?case using Cons.IH Cons.prems(2,3) y by simp
  qed simp
  show ?thesis
    using assms
  proof (induction xs arbitrary: m)
    case (Cons x xs)
    obtain q as where x: "x = (q, as)" by (cases x)
    show ?case
    proof (cases "(p, bs) = x")
      case True
      then have "fits p (Suc (length bs))" "cstring (poke p bs m) p bs"
        using Cons.prems(2) [of p bs] poke_cstring by auto
      from rest [OF this(2,1), of xs] show ?thesis
        using Cons.prems(1,2) True by (fastforce simp: x)
    next
      case False
      then show ?thesis using Cons.IH [of "poke q as m"] Cons.prems by (auto simp: x)
    qed
  qed simp
qed

definition image_lit :: "string \<Rightarrow> u32" where
  "image_lit = demo_lit(''/'' := 0xC00, ''README'' := 0xD00, ''Welcome to ContinuumOS!'' := 0xE00, ''..'' := 0xF00)"

definition image_texts :: "string list" where
  "image_texts = ['' '', ''help'', ''ls'', ''cd'', ''cat'', ''touch'', ''mkdir'', ''rm'', ''rmdir'', ''uptime'',
      ''/'', ''README'', ''Welcome to ContinuumOS!'', ''..'']"

definition image_ram :: ram where
  "image_ram = fold (\<lambda>(p, bs). poke p bs) (map (\<lambda>str. (image_lit str, bytes_of str)) image_texts) (\<lambda>_. 0)"

definition image_sym :: "string \<Rightarrow> u32" where
  "image_sym = (\<lambda>_. 0x5000)(''kernel_page_directory'' := 0x10000, ''kernel_page_table0'' := 0x11000,
     ''kernel_page_table1'' := 0x12000, ''kernel_page_table2'' := 0x13000, ''kernel_page_table3'' := 0x14000)"

definition loader_image :: shell where
  "loader_image = reset_shell\<lparr>mem := image_ram, lit := image_lit, sym := image_sym\<rparr>"

lemma image_sel [simp]:
  "mem loader_image = image_ram" "lit loader_image = image_lit" "sym loader_image = image_sym" "shell_buffer loader_image = 0x5000"
  "shell_index loader_image = 0" "current_dir loader_image = 0" "input_enabled loader_image" "caps_lock_active loader_image = False"
  by (simp_all add: loader_image_def reset_shell_def shell_buffer_def image_sym_def)

lemma image_strings:
  assumes "str \<in> set image_texts"
  shows "cstring image_ram (image_lit str) (bytes_of str)"
  unfolding image_ram_def
proof (rule pokes_cstring)
  show "sorted_wrt (\<lambda>(p, as) (q, bs). apart p (Suc (length as)) q (Suc (length bs)))
      (map (\<lambda>str. (image_lit str, bytes_of str)) image_texts)"
    by (simp add: image_texts_def image_lit_def demo_lit_def apart_def)
  show "fits p (Suc (length bs)) \<and> 0 \<notin> set bs"
    if "(p, bs) \<in> set (map (\<lambda>str. (image_lit str, bytes_of str)) image_texts)" for p bs
    using that by (auto simp: image_texts_def image_lit_def demo_lit_def fits_def)
  show "(image_lit str, bytes_of str) \<in> set (map (\<lambda>str. (image_lit str, bytes_of str)) image_texts)"
    using assms by simp
qed

lemma image_null: "image_ram 0 = 0"
  by (simp add: image_ram_def image_texts_def image_lit_def demo_lit_def)

lemma image_wanted: "set (boot_strings @ '' '' # map fst filled_commands) \<subseteq> set image_texts"
  by (simp add: boot_strings_def filled_commands_def image_texts_def)

lemma image_low: "0x100 \<le> unat (image_lit str) \<and> unat (image_lit str) \<le> 0xF00"
  by (simp add: image_lit_def demo_lit_def)

lemma image_tables: "in_tables image_sym x \<Longrightarrow> 0x10000 \<le> unat x \<and> unat x < 0x15000"
  by (auto simp: in_tables_def less4 in_region_def image_sym_def)

lemma image_placed:
  assumes str: "str \<in> set image_texts"
  shows "placed loader_image str" "arg_at image_ram (image_lit str) (bytes_of str)" "length str < 24"
proof -
  show len: "length str < 24" using str by (auto simp: image_texts_def)
  have u: "unat (image_lit str + of_nat j) = unat (image_lit str) + j" if "j < 0x1000" for j
    using image_low [of str] that by (intro unat_add_of_nat) simp
  have far: "image_lit str + of_nat j \<notin> heap_area \<and> \<not> in_tables image_sym (image_lit str + of_nat j)" if "j \<le> length str" for j
  proof -
    have "unat (image_lit str + of_nat j) < 0x1000" using u [of j] image_low [of str] len that by simp
    then show ?thesis using image_tables [of "image_lit str + of_nat j"] by (auto simp: heap_area_def)
  qed
  have "fits (image_lit str) (Suc (length str))" using image_low [of str] len by (simp add: fits_def)
  then show "placed loader_image str"
    using image_strings [OF str] far by (simp add: placed_def)
  have "str \<noteq> []" using str by (auto simp: image_texts_def)
  moreover have "image_lit str \<noteq> 0" using image_low [of str] by auto
  ultimately show "arg_at image_ram (image_lit str) (bytes_of str)"
    using image_strings [OF str] far len by (simp add: arg_at_def)
qed

lemma image_loaded: "loaded loader_image"
proof -
  have pl: "placed loader_image str" if "str \<in> set (boot_strings @ '' '' # map fst filled_commands)" for str
    by (rule image_placed(1) [OF subsetD [OF image_wanted that]])
  have lt: "literal_at loader_image str" if "str \<in> set ('' '' # map fst filled_commands)" for str
  proof -
    have "placed loader_image str" by (rule pl) (use that in auto)
    moreover have "length str < 24" by (rule image_placed(3) [OF subsetD [OF image_wanted]]) (use that in auto)
    ultimately show ?thesis
      using image_low [of str] by (auto simp: literal_at_def placed_def apart_def)
  qed
  have "literal_at loader_image name" if "(name, f, d) \<in> set filled_commands" for name f d
    by (rule lt) (use imageI [OF that, of fst] in simp)
  then have "list_all (\<lambda>(name, f, d). literal_at loader_image name) filled_commands"
    by (auto simp: list_all_iff)
  moreover have "literal_at loader_image '' ''" by (rule lt) simp
  ultimately have im: "shell_image loader_image"
    by (simp add: shell_image_def fits_def)
  have far: "\<forall>j \<le> length str. lit loader_image str + of_nat j \<notin> heap_area"
    if "str \<in> set ('' '' # map fst filled_commands)" for str
  proof -
    have "placed loader_image str" by (rule pl) (use that in auto)
    then show ?thesis unfolding placed_def by blast
  qed
  have ap: "image_apart loader_image"
    unfolding image_apart_def list_all_iff
  proof (intro conjI ballI allI impI)
    show "x \<notin> heap_area" if "in_region x (shell_buffer loader_image) 256" for x
      using that by (simp add: in_region_def heap_area_def)
  qed (use far in blast)
  have "keyboard_live (io_dev (con loader_image))"
    by (auto simp: keyboard_live_def loader_image_def reset_shell_def)
  moreover have "vmm_layout image_sym"
    by (simp add: vmm_layout_def less4 low_page_def image_sym_def)
  moreover have "x \<notin> heap_area" if "in_tables image_sym x" for x
    using image_tables [OF that] by (simp add: heap_area_def)
  ultimately show ?thesis
    using im ap pl by (simp add: loaded_def list_all_iff)
qed

lemma at_prompt_less: "at_prompt s y es \<Longrightarrow> x \<le> y \<Longrightarrow> at_prompt s x es"
  unfolding at_prompt_def using space_mono by blast

lemma booted:
  obtains s where "kernel_main loader_image = Some (Inr s)" "first_prompt s" "boots loader_image s"
    "\<And>str. str \<in> set image_texts \<Longrightarrow> arg_at (mem s) (image_lit str) (bytes_of str)" "lit s = image_lit"
    "mem s 0 = 0"
proof (rule boot_prompt [OF image_loaded])
  fix s
  assume s: "kernel_main loader_image = Some (Inr s)" "first_prompt s" "boots loader_image s"
    "\<And>x. x \<notin> heap_area \<Longrightarrow> \<not> in_tables (sym loader_image) x \<Longrightarrow> mem s x = mem loader_image x"
  have "arg_at (mem s) (image_lit str) (bytes_of str)" if str: "str \<in> set image_texts" for str
  proof -
    have "placed loader_image str" by (rule image_placed(1) [OF str])
    then have "mem s (image_lit str + of_nat j) = image_ram (image_lit str + of_nat j)" if "j \<le> length str" for j
      using s(4) that by (simp add: placed_def)
    then show ?thesis using image_placed(2) [OF str] by (auto simp: arg_at_def cstring_iff)
  qed
  moreover have "lit s = image_lit" using s(3) by (simp add: boots_def)
  moreover have "mem s 0 = 0"
    using s(4) [of 0] image_tables [of 0] image_null by (auto simp: heap_area_def)
  ultimately show thesis using that [OF s(1-3)] by blast
qed

text \<open>The booted system after \<open>mkdir ls\<close>.\<close>

lemma with_subdirectory:
  obtains bs fs d and s :: shell where "fs_state bs fs d s" "space 8387852 bs"
    "entries fs d = [(bytes_of ''README'', FS_FILE), (bytes_of ''ls'', FS_DIRECTORY)]" "lit s = image_lit"
    "\<And>str. str \<in> set image_texts \<Longrightarrow> arg_at (mem s) (image_lit str) (bytes_of str)"
proof (rule booted)
  fix s :: shell
  assume s: "first_prompt s" "lit s = image_lit"
    and arg: "\<And>str. str \<in> set image_texts \<Longrightarrow> arg_at (mem s) (image_lit str) (bytes_of str)"
  obtain bs fs d where S: "fs_state bs fs d s" "space 8388100 bs" "entries fs d = [(bytes_of ''README'', FS_FILE)]"
    using s(1) by (auto simp: first_prompt_def at_prompt_def)
  have sp: "space (248 + 8387852) bs" using S(2) by simp
  have ls: "arg_at (mem s) (image_lit ''ls'') (bytes_of ''ls'')" by (rule arg) (simp add: image_texts_def)
  show thesis
  proof (rule cmd_mkdir_rep [OF S(1) ls sp])
    fix out m bs' fs'
    assume m: "\<And>out. fs_state bs' fs' d (heap_after (enter_dir s) out m)" "space 8387852 bs'"
      "entries fs' d = (if length (entries fs d) < 32 then entries fs d @ [(take 63 (bytes_of ''ls''), FS_DIRECTORY)] else entries fs d)"
      "\<And>x. x \<notin> heap_area \<Longrightarrow> m x = mem s x"
    show thesis
      by (rule that [OF m(1) [of "[]"] m(2)]) (use m(3) S(3) s(2) arg_keep [OF arg m(4)] in simp_all)
  qed simp
qed

section \<open>Properties\<close>

text \<open>
  C1: the kernel boots. From the image that the loader leaves, \<open>kernel_main\<close> returns without a fault
  into its idle loop, in a state in which paging maps exactly the first 16 MiB to themselves,
  interrupts are on, the page fault, timer and keyboard handlers are installed, the heap is well
  formed with at least 8388100 free bytes in one piece, and the shell waits at its prompt in a root
  directory that holds one file, \<open>README\<close>, whose data is the welcome text.
\<close>

theorem boot_reaches_prompt:
  assumes "loaded s"
  shows "\<exists>s'. kernel_main s = Some (Inr s') \<and> at_prompt s' 8388100 [(bytes_of ''README'', FS_FILE)] \<and>
    work_dir s' = root s' \<and> interrupts_on s' \<and> (\<forall>v. translate s' v = (if unat v < 0x1000000 then Some v else None)) \<and>
    interrupt_handlers s' 14 = Some Page_fault_handler \<and> interrupt_handlers s' 32 = Some Timer_handler \<and>
    interrupt_handlers s' 33 = Some Keyboard_callback \<and>
    (\<exists>p. fs_find_child (mem s') (root s') (lit s' ''README'') = Some p \<and> p \<noteq> 0 \<and>
       cstring (mem s') (load32 (mem s') (data_at p)) (bytes_of ''Welcome to ContinuumOS!''))"
  using boot_prompt [OF assms] unfolding first_prompt_def by metis

lemma boot_reaches_prompt_witness:
  "\<exists>s. kernel_main loader_image = Some (Inr s) \<and> interrupts_on s \<and> at_prompt s 8388100 [(bytes_of ''README'', FS_FILE)]"
  using boot_reaches_prompt [OF image_loaded] by blast

text \<open>
  C3: what is typed happens. From a prompt, any sequence of lines, each typed key by key with its
  corrections and ended with Enter, that stand for \<open>touch\<close>, \<open>mkdir\<close>, \<open>rm\<close>, \<open>rmdir\<close> and \<open>ls\<close>
  commands, is executed without a fault and returns to the prompt, with the entries of the working
  directory changed by the commands in turn as the specification \<open>dir_spec\<close> says; 376 free bytes per
  line are enough.
\<close>

theorem typed_lines_refine:
  assumes "at_prompt s (376 * length typed + n) es" "map (meant s) typed = map Some cmds" "16 \<le> n"
    and "\<forall>(c, nm) \<in> set cmds. edits c"
  shows "\<exists>s'. type_keys (concat typed) s = Some (Inr s') \<and>
    at_prompt s' n (fold (\<lambda>(c, nm). dir_spec c nm) cmds es)"
  using shell.run_ok [OF assms(2) _ assms(1,3)] assms(4) unfolding run_all_type_keys by fastforce

text \<open>The keys \<open>m k d i r space a\<close>, a wrong key erased, and Enter.\<close>

definition press :: "u8 \<Rightarrow> keyboard_event" where
  "press code = \<lparr>scancode = code, shift = False, caps_lock = False, released = False,
     enter = (code = 0x1C), backspace = (code = 0x0E)\<rparr>"

definition mkdir_a :: "keyboard_event list" where
  "mkdir_a = map press [0x32, 0x25, 0x20, 0x17, 0x13, 0x39, 0x30, 0x0E, 0x1E, 0x1C]"

lemma mkdir_a_meant: "caps_lock_active s = False \<Longrightarrow> meant s mkdir_a = Some (Cmd_mkdir, bytes_of ''a'')"
  by (simp add: meant_def mkdir_a_def line_of_def key_of_def press_def kb_to_ascii_def scancode_to_ascii_def
      parse_line_def next_token_def known_def filled_commands_def)

lemma typed_lines_refine_witness:
  "\<exists>s s'. kernel_main loader_image = Some (Inr s) \<and> type_keys (concat [mkdir_a]) s = Some (Inr s') \<and>
    at_prompt s' 16 [(bytes_of ''README'', FS_FILE), (bytes_of ''a'', FS_DIRECTORY)]"
proof (rule booted)
  fix s
  assume s: "kernel_main loader_image = Some (Inr s)" "first_prompt s" "boots loader_image s"
  have "at_prompt s 8388100 [(bytes_of ''README'', FS_FILE)]" using s(2) by (simp add: first_prompt_def)
  then have p: "at_prompt s (376 * length [mkdir_a] + 16) [(bytes_of ''README'', FS_FILE)]"
    by (rule at_prompt_less) simp
  have m: "map (meant s) [mkdir_a] = map Some [(Cmd_mkdir, bytes_of ''a'')]"
    using s(3) mkdir_a_meant [of s] by (simp add: boots_def)
  show ?thesis
    using typed_lines_refine [OF p m] s(1) by (simp add: edits_def)
qed

text \<open>
  C11: the directory is well typed in memory, and \<open>ls\<close> shows it. At every prompt the working directory
  is a node whose type field says directory and whose count is the number of entries, at most 32;
  each of its slots points to a node that carries the name of the entry, NUL-terminated within the
  64 bytes of the field, and its type, and that names the directory as its parent. \<open>ls\<close> prints
  exactly these names in order, directories with a slash, and changes no byte of memory.
\<close>

theorem directory_well_typed:
  assumes "at_prompt s n es"
  shows "node_type (mem s) (work_dir s) = type_code FS_DIRECTORY \<and>
    unat (child_count (mem s) (work_dir s)) = length es \<and> length es \<le> 32 \<and>
    (\<forall>i < length es. let c = child_at (mem s) (work_dir s) (of_nat i) in
       c \<noteq> 0 \<and> load32 (mem s) (parent_at c) = work_dir s \<and> cstring (mem s) c (fst (es ! i)) \<and>
       length (fst (es ! i)) < 64 \<and> node_type (mem s) c = type_code (snd (es ! i))) \<and>
    (\<exists>s'. cmd_ls args s = Some s' \<and> mem s' = mem s \<and>
       con s' = term_write (concat (map render_entry es) @ bytes_of ''\<newline>'') (con s))"
proof -
  obtain bs fs d where S: "fs_state bs fs d s" "entries fs d = es" using assms by (auto simp: at_prompt_def)
  obtain dn par arr kids where d: "fs d = Some (Dir dn par arr kids)" "es = map (entry_of fs) kids" "length kids \<le> 32"
    using fs_state_dir [OF S(1)] S(2) by metis
  have st: "blocks (heap_live bs)" "store_rep (heap_live bs) (mem s) fs" "kids_ok fs" "work_dir s = d"
    using S(1) blocks_heap by (auto simp: fs_state_def store_ok_def)
  have dr: "node_rep (mem s) d (Dir dn par arr kids)" by (rule store_repD [OF st(2) d(1)])
  have "c \<noteq> 0 \<and> load32 (mem s) (parent_at c) = d \<and> cstring (mem s) c (fst (es ! i)) \<and>
      length (fst (es ! i)) < 64 \<and> node_type (mem s) c = type_code (snd (es ! i))"
    if i: "i < length es" and c: "c = child_at (mem s) d (of_nat i)" for i c
  proof -
    have ck: "c = kids ! i" using child_at_rep [OF dr] i d(2) by (simp add: c)
    have "kids ! i \<in> set kids" using i d(2) by simp
    then obtain nd where nd: "fs c = Some nd" "parent_of nd = d" using kids_okD(2) [OF st(3) d(1)] ck by blast
    have "es ! i = (name_of nd, type_of nd)" using i d(2) ck nd(1) by (simp add: entry_of_def)
    moreover have "c \<noteq> 0" using node_fits [where fs = fs, OF st(1) _ nd(1)] st(2) by (simp add: store_rep_def)
    moreover have "head_rep (mem s) c (name_of nd) (type_of nd) (parent_of nd)"
      using store_repD [OF st(2) nd(1)] by (cases nd) simp_all
    ultimately show ?thesis using nd(2) by (simp add: head_rep_def)
  qed
  then have "\<forall>i < length es. let c = child_at (mem s) d (of_nat i) in
       c \<noteq> 0 \<and> load32 (mem s) (parent_at c) = d \<and> cstring (mem s) c (fst (es ! i)) \<and>
       length (fst (es ! i)) < 64 \<and> node_type (mem s) c = type_code (snd (es ! i))"
    by (simp add: Let_def)
  moreover have "node_type (mem s) d = type_code FS_DIRECTORY" "unat (child_count (mem s) d) = length es"
    using dr unat_child_count [OF dr] d(2) by (simp_all add: head_rep_def)
  moreover have "\<exists>s'. cmd_ls args s = Some s' \<and> mem s' = mem s \<and>
       con s' = term_write (concat (map render_entry es) @ bytes_of ''\<newline>'') (con s)"
    using cmd_ls_rep [OF S(1), of args] S(2) by (simp add: heap_after_def)
  ultimately show ?thesis using d(2,3) unfolding st(4) by simp
qed

lemma directory_well_typed_witness:
  "\<exists>s c. kernel_main loader_image = Some (Inr s) \<and> c = child_at (mem s) (work_dir s) 0 \<and> c \<noteq> 0 \<and>
    cstring (mem s) c (bytes_of ''README'') \<and> load32 (mem s) (parent_at c) = work_dir s"
proof (rule booted)
  fix s
  assume s: "kernel_main loader_image = Some (Inr s)" "first_prompt s"
  then have "at_prompt s 8388100 [(bytes_of ''README'', FS_FILE)]" by (simp add: first_prompt_def)
  from directory_well_typed [OF this] s(1) show ?thesis by (simp add: Let_def)
qed

lemma lookup_in: "lookup fs kids nm \<noteq> 0 \<Longrightarrow> lookup fs kids nm \<in> set kids"
proof -
  let ?P = "\<lambda>c. map_option name_of (fs c) = Some nm"
  assume "lookup fs kids nm \<noteq> 0"
  then obtain c where c: "find ?P kids = Some c" "lookup fs kids nm = c"
    by (cases "find ?P kids") (simp_all add: lookup_def)
  then have "\<exists>i < length kids. kids ! i = c" by (auto simp only: find_Some_iff)
  then show ?thesis by (auto simp: c(2))
qed

text \<open>
  C16: \<open>cd\<close> into a subdirectory moves to the child of that name and to nothing else in the state, and
  \<open>cd ..\<close> from there moves back.
\<close>

theorem cd_there_and_back:
  assumes S: "fs_state bs fs d s" and name: "arg_at (mem s) p nm" "map_of (entries fs d) nm = Some FS_DIRECTORY"
    "nm \<noteq> bytes_of ''..''" and up: "arg_at (mem s) q (bytes_of ''..'')"
    and dots: "cstring (mem s) (lit s ''..'') (bytes_of ''..'')"
  shows "\<exists>c. fs_find_child (mem s) d p = Some c \<and>
    cmd_cd p s = Some ((enter_dir s)\<lparr>current_dir := c\<rparr>) \<and> fs_state bs fs c ((enter_dir s)\<lparr>current_dir := c\<rparr>) \<and>
    cmd_cd q ((enter_dir s)\<lparr>current_dir := c\<rparr>) = Some ((enter_dir s)\<lparr>current_dir := d\<rparr>)"
proof -
  obtain dn par arr kids where d: "fs d = Some (Dir dn par arr kids)" "d \<noteq> 0" "entries fs d = map (entry_of fs) kids"
    using fs_state_dir [OF S] by metis
  have st: "blocks (heap_live bs)" "store_rep (heap_live bs) (mem s) fs" "kids_ok fs" "heap_rep s bs"
    using S blocks_heap by (auto simp: fs_state_def store_ok_def)
  let ?c = "lookup fs kids nm"
  have find: "fs_find_child (mem s) d p = Some ?c"
    by (rule fs_find_child_rep [OF st(1-3) d(1)]) (use name(1) in \<open>simp add: arg_at_def\<close>)
  obtain c where c: "fs_find_child (mem s) d p = Some c"
    "map_of (entries fs d) nm = map_option type_of (if c = 0 then None else fs c)"
    by (rule find_entry [OF S name(1)]) (rule that, assumption+)
  have cc: "c = ?c" using c(1) find by simp
  have "map_option type_of (if ?c = 0 then None else fs ?c) = Some FS_DIRECTORY"
    using c(2) name(2) cc by simp
  then obtain nd where nd: "?c \<noteq> 0" "fs ?c = Some nd" "type_of nd = FS_DIRECTORY"
    by (auto split: if_splits)
  have "?c \<in> set kids"
    using nd(1) by (rule lookup_in)
  then have par: "parent_of nd = d" using kids_okD(2) [OF st(3) d(1)] nd(2) by fastforce
  let ?s1 = "(enter_dir s)\<lparr>current_dir := ?c\<rparr>"
  have s1: "cmd_cd p s = Some ?s1"
    using cmd_cd_rep [OF S name(1) dots] name(2,3) d(1) by simp
  have S1: "fs_state bs fs ?c ?s1"
    using S nd by (simp add: fs_state_def work_dir_def heap_rep_def enter_dir_def)
  have "enter_dir ?s1 = ?s1" using nd(1) by (simp add: enter_dir_def)
  moreover have "lit ?s1 = lit s" by simp
  ultimately have "cmd_cd q ?s1 = Some (?s1\<lparr>current_dir := d\<rparr>)"
    using cmd_cd_rep [OF S1, of q "bytes_of ''..''"] up dots nd(2) par d(2) by simp
  then show ?thesis using find s1 S1 by (intro exI [of _ ?c]) simp
qed

lemma cd_there_and_back_witness:
  "\<exists>c s d. cmd_cd 0x400 s = Some ((enter_dir s)\<lparr>current_dir := c\<rparr>) \<and> c \<noteq> 0 \<and>
    cmd_cd 0xF00 ((enter_dir s)\<lparr>current_dir := c\<rparr>) = Some ((enter_dir (s :: shell))\<lparr>current_dir := d\<rparr>)"
proof (rule with_subdirectory)
  fix bs fs d and s :: shell
  assume S: "fs_state bs fs d s" "entries fs d = [(bytes_of ''README'', FS_FILE), (bytes_of ''ls'', FS_DIRECTORY)]"
    "lit s = image_lit" and arg: "\<And>str. str \<in> set image_texts \<Longrightarrow> arg_at (mem s) (image_lit str) (bytes_of str)"
  have a: "arg_at (mem s) 0x400 (bytes_of ''ls'')" "arg_at (mem s) 0xF00 (bytes_of ''..'')"
    using arg [of "''ls''"] arg [of "''..''"] by (simp_all add: image_texts_def image_lit_def demo_lit_def)
  have m: "map_of (entries fs d) (bytes_of ''ls'') = Some FS_DIRECTORY" "bytes_of ''ls'' \<noteq> bytes_of ''..''"
    using S(2) by simp_all
  have dots: "cstring (mem s) (lit s ''..'') (bytes_of ''..'')"
    using a(2) S(3) by (simp add: arg_at_def image_lit_def)
  from cd_there_and_back [OF S(1) a(1) m a(2) dots] obtain c where c:
    "cmd_cd 0x400 s = Some ((enter_dir s)\<lparr>current_dir := c\<rparr>)" "fs_state bs fs c ((enter_dir s)\<lparr>current_dir := c\<rparr>)"
    "cmd_cd 0xF00 ((enter_dir s)\<lparr>current_dir := c\<rparr>) = Some ((enter_dir s)\<lparr>current_dir := d\<rparr>)" by blast
  have "c \<noteq> 0" by (rule fs_state_dir [OF c(2)]) simp
  then show ?thesis using c(1,3) by blast
qed

text \<open>
  C15: \<open>cat\<close> prints the contents. For the name of a file it prints the string that the data of the
  child of that name holds and a newline, for any other name its error message; memory stays as it
  is.
\<close>

theorem cat_shows_contents:
  assumes S: "fs_state bs fs d s" and arg: "arg_at (mem s) p nm"
    and str: "\<And>c. map_of (entries fs d) nm = Some FS_FILE \<Longrightarrow> fs_find_child (mem s) d p = Some c \<Longrightarrow>
      cstring (mem s) (load32 (mem s) (data_at c)) str"
  shows "\<exists>s'. cmd_cat p s = Some s' \<and> mem s' = mem s \<and> current_dir s' = d \<and>
    con s' = term_write (if map_of (entries fs d) nm = Some FS_FILE then str @ bytes_of ''\<newline>''
      else bytes_of ''cat: No such file '' @ [39] @ nm @ [39] @ bytes_of ''\<newline>'') (con s)"
proof -
  let ?e = "enter_dir s"
  have e: "mem ?e = mem s" "current_dir ?e = d" "con ?e = con s"
    using S by (simp_all add: fs_state_def)
  have na: "no_args p ?e = Some False" by (rule no_args_arg) (use arg in simp)
  obtain c where c: "fs_find_child (mem s) d p = Some c"
    "map_of (entries fs d) nm = map_option type_of (if c = 0 then None else fs c)"
    "c \<noteq> 0 \<Longrightarrow> node_type (mem s) c = type_code (type_of (the (fs c))) \<and> fs c \<noteq> None"
    by (rule find_entry [OF S arg]) (rule that, assumption+)
  have isf: "c \<noteq> 0 \<and> node_type (mem s) c = type_code FS_FILE \<longleftrightarrow> map_of (entries fs d) nm = Some FS_FILE"
    using c(2,3) by (cases "fs c"; cases "type_of (the (fs c))") auto
  have p: "cstring (mem ?e) p nm" using arg e(1) by (simp add: arg_at_def)
  show ?thesis
  proof (cases "map_of (entries fs d) nm = Some FS_FILE")
    case True
    have t: "cstring (mem ?e) (load32 (mem s) (data_at c)) str" using str [OF True c(1)] e(1) by simp
    have "printf ''%s\<newline>'' [load32 (mem s) (data_at c)] ?e = Some (?e\<lparr>con := term_write (str @ bytes_of ''\<newline>'') (con ?e)\<rparr>)"
      using printf_s [of "[]" "''\<newline>''" ?e, OF _ _ t] by simp
    then show ?thesis using True isf na c(1) e by (simp add: cmd_cat_def Let_def)
  next
    case False
    have "printf ''cat: No such file '%s'\<newline>'' [p] ?e =
        Some (?e\<lparr>con := term_write (bytes_of ''cat: No such file '' @ [39] @ nm @ [39] @ bytes_of ''\<newline>'') (con ?e)\<rparr>)"
      using printf_s [of "''cat: No such file '' @ [CHR 39]" "CHR 39 # ''\<newline>''" ?e, OF _ _ p] by simp
    then show ?thesis using False isf na c(1) e by (auto simp: cmd_cat_def Let_def)
  qed
qed

text \<open>The \<open>README\<close> after the boot.\<close>

lemma cat_shows_contents_witness:
  "\<exists>(s :: shell) s'. kernel_main loader_image = Some (Inr s) \<and> cmd_cat (lit s ''README'') s = Some s' \<and>
    con s' = term_write (bytes_of ''Welcome to ContinuumOS!'' @ bytes_of ''\<newline>'') (con s)"
proof (rule booted)
  fix s :: shell
  assume s: "kernel_main loader_image = Some (Inr s)" "first_prompt s" "lit s = image_lit"
    "\<And>str. str \<in> set image_texts \<Longrightarrow> arg_at (mem s) (image_lit str) (bytes_of str)"
  obtain bs fs d where S: "fs_state bs fs d s" "entries fs d = [(bytes_of ''README'', FS_FILE)]"
    using s(2) by (auto simp: first_prompt_def at_prompt_def)
  have a: "arg_at (mem s) (lit s ''README'') (bytes_of ''README'')"
    unfolding s(3) by (rule s(4)) (simp add: image_texts_def)
  have d: "d = root s" using S(1) s(2) by (simp add: fs_state_def first_prompt_def)
  have t: "cstring (mem s) (load32 (mem s) (data_at c)) (bytes_of ''Welcome to ContinuumOS!'')"
    if "fs_find_child (mem s) d (lit s ''README'') = Some c" for c
    using s(2) that unfolding first_prompt_def d by auto
  have m: "map_of (entries fs d) (bytes_of ''README'') = Some FS_FILE" using S(2) by simp
  from cat_shows_contents [OF S(1) a t] m s(1) show ?thesis by auto
qed

lemma entry_short:
  assumes "fs_state bs fs d s" "(nm, ty) \<in> set (entries fs d)"
  shows "length nm < 64"
proof -
  obtain dn par arr kids where d: "fs d = Some (Dir dn par arr kids)" "entries fs d = map (entry_of fs) kids"
    using fs_state_dir [OF assms(1)] by metis
  have st: "store_rep (heap_live bs) (mem s) fs" "kids_ok fs" using assms(1) by (auto simp: fs_state_def store_ok_def)
  obtain c where c: "c \<in> set kids" "(nm, ty) = entry_of fs c" using assms(2) d(2) by auto
  then obtain nd where nd: "fs c = Some nd" using kids_okD(2) [OF st(2) d(1)] by blast
  have "head_rep (mem s) c (name_of nd) (type_of nd) (parent_of nd)"
    using store_repD [OF st(1) nd] by (cases nd) simp_all
  then show ?thesis using c(2) nd by (simp add: head_rep_def entry_of_def)
qed

text \<open>
  C18: a name longer than 63 characters is lost. \<open>touch\<close> reports the file under the name that was
  typed as created, and enters it, when the directory has room, under the first 63 characters; so it
  is not found by its name: \<open>rm\<close> with the same argument reports that there is no such file, and
  removes nothing.
\<close>

theorem long_names_lost:
  assumes S: "fs_state bs fs d s" and arg: "arg_at (mem s) p nm" "63 < length nm" and sp: "space 392 bs"
  shows "\<exists>s1 s2 out bs' fs'. cmd_touch p s = Some s1 \<and>
    con s1 = term_write (out @ bytes_of ''File '' @ [39] @ nm @ [39] @ bytes_of '' created.\<newline>'') (con s) \<and>
    fs_state bs' fs' d s1 \<and>
    entries fs' d = (if length (entries fs d) < 32 then entries fs d @ [(take 63 nm, FS_FILE)] else entries fs d) \<and>
    cmd_rm p s1 = Some s2 \<and> mem s2 = mem s1 \<and>
    con s2 = term_write (bytes_of ''rm: No such file '' @ [39] @ nm @ [39] @ bytes_of ''\<newline>'') (con s1)"
proof -
  have sp': "space (376 + 16) bs" using sp by simp
  show ?thesis
  proof (rule cmd_touch_rep [OF S arg(1) sp'])
    fix out m bs' fs'
    let ?out = "out @ bytes_of ''File '' @ [39] @ nm @ [39] @ bytes_of '' created.\<newline>''"
    let ?s1 = "heap_after (enter_dir s) ?out m"
    assume t: "cmd_touch p s = Some ?s1" "\<And>out. fs_state bs' fs' d (heap_after (enter_dir s) out m)"
      "entries fs' d = (if length (entries fs d) < MAX_CHILDREN then entries fs d @ [(take 63 nm, FS_FILE)] else entries fs d)"
      "\<And>x. x \<notin> heap_area \<Longrightarrow> m x = mem s x"
    have a: "arg_at (mem ?s1) p nm" using arg_keep [OF arg(1) t(4)] by simp
    have none: "map_of (entries fs' d) nm = None"
      using entry_short [OF t(2) [of ?out]] arg(2) by (fastforce simp: map_of_eq_None_iff)
    show ?thesis
    proof (rule cmd_rm_rep [OF t(2) a])
      fix m2
      assume r: "cmd_rm p ?s1 = Some (heap_after (enter_dir ?s1) (if map_of (entries fs' d) nm = Some FS_FILE
          then bytes_of ''File '' @ [39] @ nm @ [39] @ bytes_of '' removed.\<newline>''
          else bytes_of ''rm: No such file '' @ [39] @ nm @ [39] @ bytes_of ''\<newline>'') m2)"
        "map_of (entries fs' d) nm \<noteq> Some FS_FILE \<Longrightarrow> m2 = mem ?s1"
      let ?s2 = "heap_after (enter_dir ?s1) (bytes_of ''rm: No such file '' @ [39] @ nm @ [39] @ bytes_of ''\<newline>'') m2"
      have "cmd_rm p ?s1 = Some ?s2" using r(1) none by simp
      moreover have "mem ?s2 = mem ?s1" using r(2) none by simp
      moreover have "con ?s2 = term_write (bytes_of ''rm: No such file '' @ [39] @ nm @ [39] @ bytes_of ''\<newline>'') (con ?s1)"
        unfolding heap_after_def by simp
      moreover have "con ?s1 = term_write ?out (con s)" by (simp add: heap_after_def)
      ultimately show ?thesis using t(1,3) t(2) [of ?out] by blast
    qed
  qed simp
qed

text \<open>The booted system with a name of 64 letters at \<open>0x4000\<close>.\<close>

lemma with_long_name:
  obtains bs fs d and s :: shell where "fs_state bs fs d s" "space 8388100 bs" "arg_at (mem s) 0x4000 (replicate 64 97)"
    "entries fs d = [(bytes_of ''README'', FS_FILE)]"
proof (rule booted)
  fix s :: shell
  assume "first_prompt s"
  then obtain bs fs d where S: "fs_state bs fs d s" "space 8388100 bs" "entries fs d = [(bytes_of ''README'', FS_FILE)]"
    by (auto simp: first_prompt_def at_prompt_def)
  let ?nm = "replicate 64 (97 :: u8)"
  define m where "m = poke 0x4000 ?nm (mem s)"
  have fit: "fits 0x4000 (Suc (length ?nm))" by (simp add: fits_def)
  have "m x = mem s x" if "x \<in> heap_area" for x
    unfolding m_def by (rule poke_other [OF fit]) (use that in \<open>simp add: heap_area_def in_region_def\<close>)
  then have S': "fs_state bs fs d (s\<lparr>mem := m\<rparr>)"
    by (intro fs_state_outside [OF S(1)]) simp_all
  have u: "unat (0x4000 + of_nat j :: u32) = 0x4000 + j" if "j \<le> 64" for j
    using that by (subst unat_add_of_nat) simp_all
  have "cstring m 0x4000 ?nm" unfolding m_def by (rule poke_cstring [OF fit]) simp
  moreover have "0x4000 + of_nat j \<notin> heap_area" if "j \<le> 64" for j
    using u [OF that] that by (simp add: heap_area_def)
  ultimately have "arg_at (mem (s\<lparr>mem := m\<rparr>)) 0x4000 ?nm"
    by (simp add: arg_at_def)
  then show thesis using that [OF S' S(2) _ S(3)] by blast
qed

lemma long_names_lost_witness:
  "\<exists>s s1 s2 bs' fs' d. cmd_touch 0x4000 (s :: shell) = Some s1 \<and> fs_state bs' fs' d s1 \<and>
    entries fs' d = [(bytes_of ''README'', FS_FILE), (replicate 63 97, FS_FILE)] \<and>
    cmd_rm 0x4000 s1 = Some s2 \<and> mem s2 = mem s1 \<and>
    con s2 = term_write (bytes_of ''rm: No such file '' @ [39] @ replicate 64 97 @ [39] @ bytes_of ''\<newline>'') (con s1)"
proof (rule with_long_name)
  fix bs fs d and s :: shell
  assume S: "fs_state bs fs d s" "space 8388100 bs" "arg_at (mem s) 0x4000 (replicate 64 97)"
    "entries fs d = [(bytes_of ''README'', FS_FILE)]"
  have len: "63 < length (replicate 64 (97 :: u8))" by simp
  have "space 392 bs" using space_mono [OF S(2)] by simp
  from long_names_lost [OF S(1,3) len this] obtain s1 s2 bs' fs' where t: "cmd_touch 0x4000 s = Some s1"
    "fs_state bs' fs' d s1" "entries fs' d = (if length (entries fs d) < 32
      then entries fs d @ [(take 63 (replicate 64 97), FS_FILE)] else entries fs d)"
    "cmd_rm 0x4000 s1 = Some s2" "mem s2 = mem s1"
    "con s2 = term_write (bytes_of ''rm: No such file '' @ [39] @ replicate 64 97 @ [39] @ bytes_of ''\<newline>'') (con s1)"
    by blast
  have "entries fs' d = [(bytes_of ''README'', FS_FILE), (replicate 63 97, FS_FILE)]"
    using t(3) S(4) by simp
  with t(1,2,4,5,6) show ?thesis by blast
qed

end
