(* ===== verification/Ramfs_Props.thy ===== *)
theory Ramfs_Props
  imports Files_Props
begin

text \<open>
  The properties of the file system's own functions (\<open>src/kernel/ramfs.cpp\<close>, \<open>src/kernel/syscalls.cpp\<close>):
  removal, contents, descriptors and paths, each with a witness.
\<close>

section \<open>Removal\<close>

text \<open>
  C10: removal returns and detaches. On every well-formed store, removing a child of a directory
  returns, however deep the subtree; the child and all that is below it leave the store, the
  directory keeps its other children in order, the rest of the store and the memory outside the heap
  stay, and the store is well formed again. The heap keeps the same blocks: nothing is freed.
\<close>

theorem remove_detaches:
  assumes "heap_rep s bs" "store_rep (heap_live bs) (mem s) fs" "store_ok fs"
    and "fs d = Some (Dir dn par arr kids)" "c \<in> set kids"
  shows "\<exists>m'. fs_remove_child d c (mem s) = Some m' \<and> heap_rep (s\<lparr>mem := m'\<rparr>) bs \<and>
    store_rep (heap_live bs) m' (detach fs d c) \<and> store_ok (detach fs d c) \<and>
    detach fs d c c = None \<and> detach fs d c d = Some (Dir dn par arr (remove1 c kids)) \<and>
    (\<forall>x. x \<notin> heap_area \<longrightarrow> m' x = mem s x)"
proof -
  have c: "detach fs d c c = None" by (simp add: detach_def below.self)
  show ?thesis
  proof (rule fs_remove_child_rep [OF blocks_heap [OF assms(1)] assms(2-5)])
    fix m'
    assume "fs_remove_child d c (mem s) = Some m'" "store_rep (heap_live bs) m' (detach fs d c)"
      "inside fs (insert d {x. below fs c x}) (mem s) m'"
    with inside_heap [OF assms(1,2) this(3)] store_ok_detach [OF assms(3-5)] c show ?thesis by blast
  qed
qed

lemma with_two_children:
  obtains bs fs d dn par arr a b and s :: shell where "fs_state bs fs d s" "fs d = Some (Dir dn par arr [a, b])"
    "blocks (heap_live bs)" "heap_rep s bs" "store_rep (heap_live bs) (mem s) fs" "store_ok fs" "work_dir s = d"
    "unat (child_count (mem s) d) = 2"
proof (rule with_subdirectory)
  fix bs fs d and s :: shell
  assume S: "fs_state bs fs d s" "entries fs d = [(bytes_of ''README'', FS_FILE), (bytes_of ''ls'', FS_DIRECTORY)]"
  obtain dn par arr kids where d: "fs d = Some (Dir dn par arr kids)" "entries fs d = map (entry_of fs) kids"
    using fs_state_dir [OF S(1)] by metis
  have st: "blocks (heap_live bs)" "heap_rep s bs" "store_rep (heap_live bs) (mem s) fs" "store_ok fs" "work_dir s = d"
    using S(1) blocks_heap by (auto simp: fs_state_def)
  have "length kids = length (entries fs d)" unfolding d(2) by simp
  then have two: "length kids = 2" using S(2) by simp
  then obtain a b where ab: "kids = [a, b]" by (auto simp: length_Suc_conv numeral_2_eq_2)
  have "unat (child_count (mem s) d) = 2"
    using unat_child_count [OF store_repD [OF st(3) d(1)]] two by simp
  then show thesis using that [OF S(1) d(1) [unfolded ab] st] by blast
qed

lemma remove_detaches_witness:
  "\<exists>(s :: shell) c m'. fs_remove_child (work_dir s) c (mem s) = Some m' \<and>
    unat (child_count (mem s) (work_dir s)) = 2 \<and> unat (child_count m' (work_dir s)) = 1"
proof (rule with_two_children)
  fix bs fs d dn par arr a b and s :: shell
  assume S: "fs d = Some (Dir dn par arr [a, b])" "blocks (heap_live bs)" "heap_rep s bs"
    "store_rep (heap_live bs) (mem s) fs" "store_ok fs" "work_dir s = d" "unat (child_count (mem s) d) = 2"
  have a: "a \<in> set [a, b]" by simp
  from remove_detaches [OF S(3-5,1) a] obtain m' where m': "fs_remove_child d a (mem s) = Some m'"
    "store_rep (heap_live bs) m' (detach fs d a)" "detach fs d a d = Some (Dir dn par arr [b])" by auto
  have "unat (child_count m' d) = 1"
    using unat_child_count [OF store_repD [OF m'(2,3)]] by simp
  then show ?thesis using m'(1) S(6,7) by blast
qed

lemma length_skip [simp]: "length (skip xs) = length xs div 2"
  by (induction xs rule: skip.induct) auto

text \<open>
  The loop that empties a directory skips. \<open>remove_children\<close> counts up while each removal
  shifts the later children down, so of the children only the first, third, \<dots> are removed: the
  second, fourth, \<dots> stay in the directory, half of them rounded down.
\<close>

theorem remove_children_skips:
  assumes "blocks L" "store_rep L m fs" "store_ok fs" "fs d = Some (Dir dn par arr kids)"
  shows "\<exists>m' fs'. remove_children m d 0 = Some m' \<and> store_rep L m' fs' \<and>
    fs' d = Some (Dir dn par arr (skip kids)) \<and> unat (child_count m' d) = length kids div 2"
proof -
  obtain h where h: "kids_ok fs" "ranked h fs" using assms(3) by (auto simp: store_ok_def)
  have "removes L h (Suc (h d))" by (rule removes_all [OF assms(1)])
  then obtain m' fs' where r: "remove_children m d (of_nat 0) = Some m'" "store_rep L m' fs'"
    "fs' d = Some (Dir dn par arr (take 0 kids @ skip (drop 0 kids)))"
    unfolding removes_def using assms(2,4) h by (meson lessI zero_le)
  have d: "fs' d = Some (Dir dn par arr (skip kids))" using r(3) by simp
  have "unat (child_count m' d) = length (skip kids)"
    by (rule unat_child_count [OF store_repD [OF r(2) d]])
  then show ?thesis using r(1,2) d by (intro exI [of _ m'] exI [of _ fs']) simp
qed

lemma remove_children_skips_witness:
  "\<exists>(s :: shell) m'. remove_children (mem s) (work_dir s) 0 = Some m' \<and>
    unat (child_count (mem s) (work_dir s)) = 2 \<and> unat (child_count m' (work_dir s)) = 1"
proof (rule with_two_children)
  fix bs fs d dn par arr a b and s :: shell
  assume S: "fs d = Some (Dir dn par arr [a, b])" "blocks (heap_live bs)"
    "store_rep (heap_live bs) (mem s) fs" "store_ok fs" "work_dir s = d" "unat (child_count (mem s) d) = 2"
  show ?thesis using remove_children_skips [OF S(2-4,1)] S(5,6) by auto
qed

section \<open>A single empty file\<close>

lemma with_empty_file:
  obtains bs f and s :: shell where "heap_rep s bs" "space 8000000 bs"
    "store_rep (heap_live bs) (mem s) [f \<mapsto> File (bytes_of ''README'') 0 0 0]" "f \<noteq> 0"
    "\<And>str. str \<in> set image_texts \<Longrightarrow> cstring (mem s) (image_lit str) (bytes_of str)"
proof -
  let ?bs = "[(KERNEL_HEAP_SIZE - 12, True)]"
  obtain out m where i: "heap_rep (heap_after loader_image out m\<lparr>free_list := KERNEL_HEAP_START\<rparr>) ?bs"
    "\<And>x. x \<notin> heap_area \<Longrightarrow> m x = image_ram x"
    using init_heap_rep [of loader_image] by auto
  let ?s = "heap_after loader_image out m\<lparr>free_list := KERNEL_HEAP_START\<rparr>"
  have far: "image_lit str + of_nat j \<notin> heap_area" if "str \<in> set image_texts" "j \<le> length str" for str j
    using image_placed(1) [OF that(1)] that(2) by (simp add: placed_def)
  have str: "cstring m' (image_lit str) (bytes_of str)"
    if "\<And>x. x \<notin> heap_area \<Longrightarrow> m' x = image_ram x" "str \<in> set image_texts" for m' str
    using image_strings [OF that(2)] far [OF that(2)] that(1) by (simp add: cstring_iff)
  have R: "''README'' \<in> set image_texts" by (simp add: image_texts_def)
  have ms: "mem ?s = m" by (simp add: heap_after_def)
  show thesis
  proof (rule fs_create_node_rep [OF i(1) store_rep_empty, unfolded ms, OF str [OF i(2) R], where ty = FS_FILE])
    show "image_lit ''README'' + of_nat j \<notin> heap_area" if "j \<le> length (bytes_of ''README'')" for j
      using far [OF R] that by simp
    fix p o1 m1 bs' arr
    assume c: "heap_rep (heap_after ?s o1 m1) bs'" "keeps heap_area (heap_live ?bs) m m1"
      "p = 0 \<Longrightarrow> store_rep (heap_live bs') m1 Map.empty \<and> \<not> space 96 ?bs"
      "p \<noteq> 0 \<Longrightarrow> p \<notin> dom Map.empty \<and> store_rep (heap_live bs') m1 [p \<mapsto> fresh_node FS_FILE (take 63 (bytes_of ''README'')) arr] \<and>
        (FS_FILE = FS_DIRECTORY \<and> arr = 0 \<longrightarrow> \<not> space 236 ?bs)"
      "\<And>x. 16 \<le> x \<Longrightarrow> space (248 + x) ?bs \<Longrightarrow> space x bs'"
    have p: "p \<noteq> 0" using c(3) by (auto simp: space_def)
    show thesis
    proof (rule that [of "heap_after ?s o1 m1" bs' p])
      show "space 8000000 bs'" by (rule c(5)) (simp_all add: space_def)
      show "store_rep (heap_live bs') (mem (heap_after ?s o1 m1)) [p \<mapsto> File (bytes_of ''README'') 0 0 0]"
        using c(4) [OF p] by simp
      show "cstring (mem (heap_after ?s o1 m1)) (image_lit str) (bytes_of str)" if "str \<in> set image_texts" for str
        using c(2) i(2) by (intro str [OF _ that]) (simp add: keeps_def)
    qed (use c(1) p in simp_all)
  qed
qed

section \<open>Contents\<close>

lemma sint_size: "unat off + unat n \<le> 0xFFFFFFF0 \<Longrightarrow> sint n \<noteq> - 1" for off n :: u32
proof
  assume n: "unat off + unat n \<le> 0xFFFFFFF0" and m: "sint n = - 1"
  have "n = of_int (sint n)" by simp
  then have "n = - 1" unfolding m by simp
  moreover have "unat (- 1 :: u32) = 0xFFFFFFFF" by (simp add: unsigned_minus_1_eq_mask mask_eq_exp_minus_1)
  ultimately have "unat n = 0xFFFFFFFF" by (simp only:)
  then show False using n by linarith
qed

lemma krealloc_null: "krealloc p n s = Some (0, s1) \<Longrightarrow> n \<noteq> 0 \<Longrightarrow> kmalloc n s = Some (0, s1)"
  by (auto simp: krealloc_def Let_def Option.bind_eq_Some_conv split: if_splits)

text \<open>\<open>fs_write\<close> fails within the contents only when the heap is out of memory.\<close>

lemma fs_write_fails:
  assumes rep: "heap_rep s bs" and r: "fs_write f off n buf s = Some (- 1, s')" and n: "0 < n" "unat off + unat n \<le> 0xFFFFFFF0"
    and f: "f \<noteq> 0" "node_type (mem s) f = type_code FS_FILE"
  shows "\<not> space (unat (align16 (off + n))) bs"
proof -
  have no: "unat (off + n) = unat off + unat n" using n(2) by (intro unat_add_u32) simp
  have pos: "0 < unat (off + n)" "unat (off + n) \<le> 0xFFFFFFF0" using n by (simp_all add: no unat_gt_0 word_gt_0)
  have sn: "sint n \<noteq> - 1" by (rule sint_size [OF n(2)])
  have on: "off + n \<noteq> 0" using pos(1) by auto
  have "\<exists>s1. krealloc (load32 (mem s) (data_at f)) (off + n) s = Some (0, s1)"
    using r f sn by (auto simp: fs_write_def Option.bind_eq_Some_conv simp del: type_code.simps split: if_splits)
  then obtain s1 where k: "kmalloc (off + n) s = Some (0, s1)" using krealloc_null [OF _ on] by blast
  show ?thesis
  proof (rule kmalloc_sized [OF rep refl refl pos])
    fix p out m bs'
    assume "kmalloc (off + n) s = Some (p, heap_after s out m)" "p = 0 \<Longrightarrow> bs' = bs \<and> \<not> space (unat (align16 (off + n))) bs"
    then show ?thesis using k by simp
  qed
qed

text \<open>
  C8: \<open>fs_write\<close> refines overwriting a list of bytes. On a file of a well-formed store, at an
  offset up to its end, it returns and either replaces the bytes from the offset on by those of the
  buffer, the contents growing with the heap block behind them as far as needed, or returns \<open>-1\<close>,
  only when the heap has no piece of the new size, and then no contents change. Every other file and
  directory keeps its node and its contents, and nothing outside the heap is written.
\<close>

theorem file_write_overwrites:
  assumes rep: "heap_rep s bs" "store_rep (heap_live bs) (mem s) fs"
    and f: "fs f = Some (File nm par sz dat)" "dat \<noteq> f" "dat = 0 \<Longrightarrow> sz = 0"
    and range: "off \<le> sz" "unat off + unat n \<le> 0xFFFFFFF0" "0 < n"
    and buf: "fits buf (unat n)" "\<And>x. in_region x buf (unat n) \<Longrightarrow> x \<notin> heap_area"
  shows "\<exists>r s' bs' fs'. fs_write f off n buf s = Some (r, s') \<and> heap_rep s' bs' \<and>
    store_rep (heap_live bs') (mem s') fs' \<and> (\<forall>x. x \<notin> heap_area \<longrightarrow> mem s' x = mem s x) \<and>
    (\<forall>a nd. fs a = Some nd \<longrightarrow> a \<noteq> f \<longrightarrow> fs' a = Some nd \<and> content (mem s') nd = content (mem s) nd) \<and>
    (if r = - 1 then \<not> space (unat (align16 (off + n))) bs \<and> fs' = fs \<and>
        content (mem s') (File nm par sz dat) = content (mem s) (File nm par sz dat)
     else r = sint n \<and> (\<exists>dat'. fs' = fs(f \<mapsto> File nm par (max sz (off + n)) dat') \<and>
        content (mem s') (File nm par (max sz (off + n)) dat') =
          overwrite (content (mem s) (File nm par sz dat)) (unat off) (bytes_at (mem s) buf (unat n))))"
proof (rule fs_write_rep [OF rep f range buf])
  fix r s' bs' fs'
  assume w: "fs_write f off n buf s = Some (r, s')" "heap_rep s' bs'" "store_rep (heap_live bs') (mem s') fs'"
    "\<And>x. x \<notin> heap_area \<Longrightarrow> mem s' x = mem s x"
    "\<And>a nd. fs a = Some nd \<Longrightarrow> a \<noteq> f \<Longrightarrow> fs' a = Some nd \<and> content (mem s') nd = content (mem s) nd"
    and res: "(r = - 1 \<and> sz < off + n \<and> fs' = fs \<and> content (mem s') (File nm par sz dat) = content (mem s) (File nm par sz dat)) \<or>
     (r = sint n \<and> (\<exists>dat'. dat' \<noteq> 0 \<and> dat' \<noteq> f \<and> fs' = fs(f \<mapsto> File nm par (max sz (off + n)) dat') \<and>
       content (mem s') (File nm par (max sz (off + n)) dat') =
         overwrite (content (mem s) (File nm par sz dat)) (unat off) (bytes_at (mem s) buf (unat n))))"
  have own: "owned (heap_live bs) fs" using rep(2) by (simp add: store_rep_def)
  have f0: "f \<noteq> 0" using node_fits [where fs = fs, OF blocks_heap [OF rep(1)] own f(1)] by blast
  have ty: "node_type (mem s) f = type_code FS_FILE" using store_repD [OF rep(2) f(1)] by (simp add: head_rep_def)
  have "\<not> space (unat (align16 (off + n))) bs" if "r = - 1"
    by (rule fs_write_fails [OF rep(1) _ range(3,2) f0 ty]) (use w(1) that in blast)
  moreover have "sint n \<noteq> - 1"
    by (rule sint_size) (rule range(2))
  ultimately show ?thesis using w res by (intro exI [of _ r] exI [of _ s'] exI [of _ bs'] exI [of _ fs']) auto
qed

lemma cstring_bytes:
  assumes "cstring m p bs"
  shows "bytes_at m p (Suc (length bs)) = bs @ [0]"
proof (rule nth_equalityI)
  fix i
  assume "i < length (bytes_at m p (Suc (length bs)))"
  then have "i < length bs \<or> i = length bs" by auto
  then show "bytes_at m p (Suc (length bs)) ! i = (bs @ [0]) ! i"
    using assms by (auto simp: cstring_iff nth_bytes_at nth_append)
qed simp

text \<open>The welcome text, written into the empty file, with room to grow.\<close>

lemma with_write:
  obtains bs f and s :: shell where "heap_rep s bs" "space 8000000 bs"
    "store_rep (heap_live bs) (mem s) [f \<mapsto> File (bytes_of ''README'') 0 0 0]" "f \<noteq> 0"
    "bytes_at (mem s) 0xE00 24 = bytes_of ''Welcome to ContinuumOS!'' @ [0]"
    "fits 0xE00 24" "\<And>x. in_region x 0xE00 24 \<Longrightarrow> x \<notin> heap_area"
proof (rule with_empty_file)
  fix bs f and s :: shell
  assume s: "heap_rep s bs" "space 8000000 bs" "store_rep (heap_live bs) (mem s) [f \<mapsto> File (bytes_of ''README'') 0 0 0]" "f \<noteq> 0"
    and str: "\<And>str. str \<in> set image_texts \<Longrightarrow> cstring (mem s) (image_lit str) (bytes_of str)"
  let ?W = "''Welcome to ContinuumOS!''"
  have "cstring (mem s) (image_lit ?W) (bytes_of ?W)" by (rule str) (simp add: image_texts_def)
  then have w: "cstring (mem s) 0xE00 (bytes_of ?W)" by (simp add: image_lit_def)
  have len: "Suc (length (bytes_of ?W)) = 24" by simp
  have "bytes_at (mem s) 0xE00 24 = bytes_of ?W @ [0]"
    using cstring_bytes [OF w] unfolding len .
  then show thesis
    using that [OF s] by (simp add: fits_def in_region_def heap_area_def)
qed

lemma file_write_overwrites_witness:
  "\<exists>f (s :: shell) s' q. fs_write f 0 24 0xE00 s = Some (24, s') \<and>
    content (mem s') (File (bytes_of ''README'') 0 24 q) = bytes_of ''Welcome to ContinuumOS!'' @ [0]"
proof (rule with_write)
  fix bs f and s :: shell
  assume s: "heap_rep s bs" "space 8000000 bs" "store_rep (heap_live bs) (mem s) [f \<mapsto> File (bytes_of ''README'') 0 0 0]" "f \<noteq> 0"
    and w: "bytes_at (mem s) 0xE00 24 = bytes_of ''Welcome to ContinuumOS!'' @ [0]"
      "fits 0xE00 24" "\<And>x. in_region x 0xE00 24 \<Longrightarrow> x \<notin> heap_area"
  let ?nd = "File (bytes_of ''README'') 0 0 0"
  have f: "[f \<mapsto> ?nd] f = Some ?nd" "(0 :: u32) \<noteq> f" using s(4) by simp_all
  have u: "unat (24 :: u32) = 24" by simp
  have sp: "space (unat (align16 (0 + 24))) bs" by (rule space_mono [OF s(2)]) (simp add: unat_align16)
  show ?thesis
    using file_write_overwrites [where fs = "[f \<mapsto> ?nd]" and off = 0 and n = 24 and buf = "0xE00", OF s(1,3) f, unfolded u, OF _ _ _ _ w(2)] w(1,3) sp
    by (auto simp: overwrite_def split: if_splits)
qed

text \<open>
  C9: what is written is read back. After an \<open>fs_write\<close> that has succeeded, \<open>fs_read\<close> of as many
  bytes at the same offset returns their number and puts exactly the bytes that were written into
  its buffer, and changes nothing else.
\<close>

theorem write_read_roundtrip:
  assumes rep: "heap_rep s bs" "store_rep (heap_live bs) (mem s) fs"
    and f: "fs f = Some (File nm par sz dat)" "dat \<noteq> f" "dat = 0 \<Longrightarrow> sz = 0"
    and range: "off \<le> sz" "unat off + unat n \<le> 0xFFFFFFF0" "0 < n"
    and buf: "fits buf (unat n)" "\<And>x. in_region x buf (unat n) \<Longrightarrow> x \<notin> heap_area"
    and dst: "fits dst (unat n)" "\<And>x. in_region x dst (unat n) \<Longrightarrow> x \<notin> heap_area"
    and w: "fs_write f off n buf s = Some (r, s')" "r \<noteq> - 1"
  shows "\<exists>s''. fs_read f off n dst s' = (sint n, s'') \<and>
    bytes_at (mem s'') dst (unat n) = bytes_at (mem s) buf (unat n) \<and>
    (\<forall>x. \<not> in_region x dst (unat n) \<longrightarrow> mem s'' x = mem s' x)"
proof (rule fs_write_rep [OF rep f range buf])
  fix r1 s1 bs' fs'
  let ?sz = "max sz (off + n)"
  assume w1: "fs_write f off n buf s = Some (r1, s1)" "heap_rep s1 bs'" "store_rep (heap_live bs') (mem s1) fs'"
    and res: "(r1 = - 1 \<and> sz < off + n \<and> fs' = fs \<and> content (mem s1) (File nm par sz dat) = content (mem s) (File nm par sz dat)) \<or>
     (r1 = sint n \<and> (\<exists>dat'. dat' \<noteq> 0 \<and> dat' \<noteq> f \<and> fs' = fs(f \<mapsto> File nm par ?sz dat') \<and>
       content (mem s1) (File nm par ?sz dat') =
         overwrite (content (mem s) (File nm par sz dat)) (unat off) (bytes_at (mem s) buf (unat n))))"
  have s1: "s1 = s'" "r1 = r" using w(1) w1(1) by simp_all
  obtain d where d: "d \<noteq> 0" "fs' f = Some (File nm par ?sz d)"
    "content (mem s') (File nm par ?sz d) =
       overwrite (content (mem s) (File nm par sz dat)) (unat off) (bytes_at (mem s) buf (unat n))"
    using res w(2) unfolding s1 by (auto simp del: content.simps)
  note st = w1(2,3) [unfolded s1]
  have L: "blocks (heap_live bs')" by (rule blocks_heap [OF st(1)])
  have own: "owned (heap_live bs') fs'" using st(2) by (simp add: store_rep_def)
  have no: "unat (off + n) = unat off + unat n" using range(2) by (intro unat_add_u32) simp
  have ge: "unat off + unat n \<le> unat ?sz"
    using no by (simp add: max_def word_le_nat_alt)
  have n0: "0 < unat n" using range(3) by (simp add: unat_gt_0 word_gt_0)
  have apart: "apart dst (unat n) d (unat ?sz)"
  proof (rule regions_apart [where A = "- heap_area"])
    have "(d, unat ?sz) \<in> parts f (File nm par ?sz d)" using d(1) by simp
    then obtain k where k: "unat ?sz \<le> k" "(d, k) \<in> heap_live bs'" using ownedD [where fs = fs', OF own d(2)] by blast
    show "x \<notin> - heap_area" if "in_region x d (unat ?sz)" for x
      using kheap.live_area [OF st(1) k(2), of x] that k(1) by (auto simp: in_region_def)
  qed (use dst(2) n0 ge in auto)
  have range': "unat off + unat n < 4294967296" using range(2) by simp
  note rd = fs_read_rep [where fs = fs', OF L st(2) d(2,1) range' dst(1) apart]
  have le: "off \<le> ?sz" using range(1) by (simp add: le_max_iff_disj)
  from rd(2) [OF le] obtain k :: u32 and s2 where k: "fs_read f off n dst s' = (sint k, s2)"
    "bytes_at (mem s2) dst (unat k) = take (unat n) (drop (unat off) (content (mem s') (File nm par ?sz d)))"
    "\<forall>x. \<not> in_region x dst (unat k) \<longrightarrow> mem s2 x = mem s' x" by blast
  have "fst (fs_read f off n dst s') = sint n"
    using rd(1) ge leD [OF le] by (simp only: Let_def if_True if_False fst_conv)
  then have eq: "sint k = sint n" using k(1) by simp
  have "k = of_int (sint k)" by simp
  then have kn: "k = n" unfolding eq by simp
  have "length (content (mem s) (File nm par sz dat)) = unat sz" using f(3) by auto
  then have "unat off \<le> length (content (mem s) (File nm par sz dat))" using range(1) by (simp add: word_le_nat_alt)
  from read_overwrite [OF this, of "bytes_at (mem s) buf (unat n)"]
  have "bytes_at (mem s2) dst (unat n) = bytes_at (mem s) buf (unat n)" using k(2) unfolding kn d(3) by simp
  then show ?thesis using k(1,3) unfolding kn by blast
qed

lemma write_read_roundtrip_witness:
  "\<exists>f (s :: shell) s' s''. fs_write f 0 24 0xE00 s = Some (24, s') \<and> fs_read f 0 24 0x6000 s' = (24, s'') \<and>
    bytes_at (mem s'') 0x6000 24 = bytes_of ''Welcome to ContinuumOS!'' @ [0]"
proof (rule with_write)
  fix bs f and s :: shell
  let ?nd = "File (bytes_of ''README'') 0 0 0"
  assume s: "heap_rep s bs" "space 8000000 bs" "store_rep (heap_live bs) (mem s) [f \<mapsto> ?nd]" "f \<noteq> 0"
    and w: "bytes_at (mem s) 0xE00 24 = bytes_of ''Welcome to ContinuumOS!'' @ [0]"
      "fits 0xE00 24" "\<And>x. in_region x 0xE00 24 \<Longrightarrow> x \<notin> heap_area"
  have f: "[f \<mapsto> ?nd] f = Some ?nd" "(0 :: u32) \<noteq> f" using s(4) by simp_all
  have u: "unat (24 :: u32) = 24" by simp
  have range: "(0 :: u32) \<le> 0" "unat (0 :: u32) + unat (24 :: u32) \<le> 0xFFFFFFF0" "0 < (24 :: u32)" by simp_all
  have buf: "fits 0xE00 (unat (24 :: u32))" "\<And>x. in_region x 0xE00 (unat (24 :: u32)) \<Longrightarrow> x \<notin> heap_area"
    using w(2,3) by simp_all
  have dst: "fits 0x6000 (unat (24 :: u32))" "\<And>x. in_region x 0x6000 (unat (24 :: u32)) \<Longrightarrow> x \<notin> heap_area"
    by (simp_all add: fits_def in_region_def heap_area_def)
  have ty: "node_type (mem s) f = type_code FS_FILE" using store_repD [OF s(3) f(1)] by (simp add: head_rep_def)
  show ?thesis
  proof (rule fs_write_rep [OF s(1,3) f _ range buf])
    fix r s' bs' fs'
    assume r: "fs_write f 0 24 0xE00 s = Some (r, s')"
      "(r = - 1 \<and> 0 < 0 + (24 :: u32) \<and> fs' = [f \<mapsto> ?nd] \<and> content (mem s') ?nd = content (mem s) ?nd) \<or>
       (r = sint (24 :: u32) \<and> (\<exists>dat'. dat' \<noteq> 0 \<and> dat' \<noteq> f \<and> fs' = [f \<mapsto> ?nd, f \<mapsto> File (bytes_of ''README'') 0 (max 0 (0 + 24)) dat'] \<and>
         content (mem s') (File (bytes_of ''README'') 0 (max 0 (0 + 24)) dat') =
           overwrite (content (mem s) ?nd) (unat (0 :: u32)) (bytes_at (mem s) 0xE00 (unat (24 :: u32)))))"
    have "space (unat (align16 (0 + 24))) bs" by (rule space_mono [OF s(2)]) (simp add: unat_align16)
    then have "r \<noteq> - 1" using fs_write_fails [OF s(1) _ range(3,2) s(4) ty] r(1) by blast
    then have r24: "r = sint (24 :: u32)" "r \<noteq> - 1" using r(2) by blast+
    obtain s'' where "fs_read f 0 24 0x6000 s' = (sint (24 :: u32), s'')"
      "bytes_at (mem s'') 0x6000 (unat (24 :: u32)) = bytes_at (mem s) 0xE00 (unat (24 :: u32))"
      using write_read_roundtrip [OF s(1,3) f _ range buf dst r(1) r24(2)] by auto
    then show ?thesis using r(1) r24(1) w(1) by (intro exI [of _ f] exI [of _ s] exI [of _ s'] exI [of _ s'']) simp
  qed simp
qed

text \<open>
  The sum \<open>offset + size\<close> wraps: reading \<open>0xFFFFFFFF\<close> bytes at offset 1 passes the test against the size
  and copies that many bytes, whatever the size of the file.
\<close>

lemma fs_read_wraps:
  assumes "f \<noteq> 0" "node_type (mem s) f = type_code FS_FILE" "load32 (mem s) (size_at f) \<noteq> 0"
  shows "fs_read f 1 (- 1) buf s =
    (- 1, s\<lparr>mem := memcpy (mem s) buf (load32 (mem s) (data_at f) + 1) (- 1)\<rparr>)"
  using assms by (simp add: fs_read_def Let_def not_less del: type_code.simps)

end
