(* ===== verification/Path_Props.thy ===== *)
theory Path_Props
  imports Ramfs_Props
begin

text \<open>
  Paths (\<open>fs_find_by_path\<close> and its overload, \<open>split_path\<close>, \<open>fs_touch\<close> and \<open>fs_mkdir\<close> of
  \<open>src/kernel/ramfs.cpp\<close>) and descriptors (\<open>src/kernel/syscalls.cpp\<close>). The specification of a path is a
  walk through the store along its components.
\<close>

section \<open>Components and walks\<close>

text \<open>The components of a path, between the slashes; some may be empty.\<close>

fun comps :: "u8 list \<Rightarrow> u8 list list" where
  "comps [] = [[]]"
| "comps (b # bs) = (if b = 47 then [] # comps bs else (b # hd (comps bs)) # tl (comps bs))"

definition step_to :: "store \<Rightarrow> u32 \<Rightarrow> u8 list \<Rightarrow> u32" where
  "step_to fs cur nm = (case fs cur of Some (Dir dn par arr kids) \<Rightarrow> lookup fs kids nm | _ \<Rightarrow> 0)"

text \<open>A walk goes from child to child, skipping empty components; it is lost at a missing one.\<close>

fun path_walk :: "store \<Rightarrow> u32 \<Rightarrow> u8 list list \<Rightarrow> u32 option" where
  "path_walk fs cur [] = Some cur"
| "path_walk fs cur (c # cs) =
     (if c = [] then path_walk fs cur cs
      else if step_to fs cur c = 0 then None else path_walk fs (step_to fs cur c) cs)"

text \<open>The loop of the code on the list of bytes: the node reached and the component begun.\<close>

fun resolve :: "store \<Rightarrow> u32 \<Rightarrow> u8 list \<Rightarrow> u8 list \<Rightarrow> (u32 \<times> u8 list) option" where
  "resolve fs cur acc [] = Some (cur, acc)"
| "resolve fs cur acc (b # bs) =
     (if b \<noteq> 47 then resolve fs cur (acc @ [b]) bs
      else if acc = [] then resolve fs cur [] bs
      else if step_to fs cur acc = 0 then None else resolve fs (step_to fs cur acc) [] bs)"

lemma comps_ne [simp]: "comps bs \<noteq> []"
  by (cases bs) simp_all

lemma walk_append: "path_walk fs cur (as @ bs) = Option.bind (path_walk fs cur as) (\<lambda>c. path_walk fs c bs)"
  by (induction fs cur as rule: path_walk.induct) simp_all

lemma resolve_walk:
  "resolve fs cur acc bs = map_option (\<lambda>c. (c, last ((acc @ hd (comps bs)) # tl (comps bs))))
     (path_walk fs cur (butlast ((acc @ hd (comps bs)) # tl (comps bs))))"
proof (induction fs cur acc bs rule: resolve.induct)
  case (1 fs cur acc)
  then show ?case by simp
next
  case (2 fs cur acc b bs)
  have c: "hd (comps bs) # tl (comps bs) = comps bs" by simp
  show ?case
  proof (cases "b = 47")
    case True
    then show ?thesis using 2 c by (auto simp: comp_def)
  next
    case False
    then show ?thesis using 2 by simp
  qed
qed

text \<open>Every node that a step reaches is a node of the store.\<close>

lemma step_to_in: "kids_ok fs \<Longrightarrow> step_to fs cur nm \<noteq> 0 \<Longrightarrow> fs (step_to fs cur nm) \<noteq> None"
  using lookup_in kids_okD(2) by (fastforce simp: step_to_def split: option.splits fnode.splits)

lemma find_child_step:
  assumes "blocks L" "store_rep L m fs" "kids_ok fs" "fs cur \<noteq> None" "cstring m name nm"
  shows "fs_find_child m cur name = Some (step_to fs cur nm)"
proof -
  obtain nd where nd: "fs cur = Some nd" using assms(4) by blast
  show ?thesis
  proof (cases nd)
    case (File nm par sz dat)
    then have "node_type m cur = type_code FS_FILE" using store_repD [OF assms(2) nd] by (simp add: head_rep_def)
    then show ?thesis using File nd by (simp add: fs_find_child_def step_to_def)
  next
    case (Dir dn par arr kids)
    then show ?thesis using fs_find_child_rep [OF assms(1-3) _ assms(5)] nd by (simp add: step_to_def)
  qed
qed

section \<open>The loop\<close>

text \<open>What the loops may write: the component buffer, 128 bytes outside the heap.\<close>

definition path_buffer :: "u32 \<Rightarrow> bool" where
  "path_buffer temp \<longleftrightarrow> fits temp 128 \<and> (\<forall>x. in_region x temp 128 \<longrightarrow> x \<notin> heap_area)"

lemma store_outside:
  assumes "heap_rep s bs" "store_rep (heap_live bs) m fs" "path_buffer temp" "\<And>x. \<not> in_region x temp 128 \<Longrightarrow> m' x = m x"
  shows "store_rep (heap_live bs) m' fs"
proof (rule store_rep_agree [OF blocks_heap [OF assms(1)] assms(2)])
  show "agree_on m m' p k" if "(p, k) \<in> heap_live bs" for p k
    unfolding agree_on_def
  proof (intro allI impI)
    fix x
    assume "in_region x p k"
    then have "x \<in> heap_area" by (rule kheap.live_area [OF assms(1) that])
    then show "m' x = m x" using assms(3,4) unfolding path_buffer_def by blast
  qed
qed simp

text \<open>The component in the buffer, one byte longer.\<close>

lemma buffer_byte:
  assumes t: "path_buffer temp" and len: "length acc < 128"
  shows "unat (temp + of_nat (length acc)) = unat temp + length acc"
    and "in_region (temp + of_nat (length acc)) temp 128"
    and "bytes_at m temp (length acc) = acc \<Longrightarrow>
      bytes_at (m(temp + of_nat (length acc) := b)) temp (Suc (length acc)) = acc @ [b]"
    and "bytes_at m temp (length acc) = acc \<Longrightarrow> 0 \<notin> set acc \<Longrightarrow>
      cstring (m(temp + of_nat (length acc) := 0)) temp acc"
proof -
  have u: "unat (temp + of_nat i) = unat temp + i" if "i < 128" for i
    using t that by (intro unat_add_of_nat) (simp add: path_buffer_def fits_def)
  show "unat (temp + of_nat (length acc)) = unat temp + length acc" by (rule u [OF len])
  then show "in_region (temp + of_nat (length acc)) temp 128" using len by (simp add: in_region_def)
  have ne: "temp + of_nat i \<noteq> temp + of_nat (length acc)" if "i < length acc" for i
    using u [of i] u [OF len] that len by (metis less_trans nat_neq_iff add_left_cancel)
  show byte: "bytes_at (m(temp + of_nat (length acc) := b)) temp (Suc (length acc)) = acc @ [b]"
    if "bytes_at m temp (length acc) = acc" for b
  proof (rule nth_equalityI)
    fix i
    assume "i < length (bytes_at (m(temp + of_nat (length acc) := b)) temp (Suc (length acc)))"
    then have "i < length acc \<or> i = length acc" by auto
    then show "bytes_at (m(temp + of_nat (length acc) := b)) temp (Suc (length acc)) ! i = (acc @ [b]) ! i"
      using ne [of i] nth_bytes_at [of i "length acc" m temp] that by (auto simp: nth_append)
  qed simp
  show "cstring (m(temp + of_nat (length acc) := 0)) temp acc"
    if "bytes_at m temp (length acc) = acc" "0 \<notin> set acc"
  proof -
    have "acc ! i = m (temp + of_nat i)" if "i < length acc" for i
      using nth_bytes_at [OF that, of m temp] \<open>bytes_at m temp (length acc) = acc\<close> by simp
    then show ?thesis using ne that(2) by (simp add: cstring_iff)
  qed
qed

lemma path_loop_rep:
  assumes rep: "heap_rep s0 bs0" and ok: "kids_ok fs" and t: "path_buffer temp"
  shows "cstring m p bs \<Longrightarrow> fits p (Suc (length bs)) \<Longrightarrow> apart p (Suc (length bs)) temp 128 \<Longrightarrow>
    store_rep (heap_live bs0) m fs \<Longrightarrow> fs cur \<noteq> None \<Longrightarrow> bytes_at m temp (length acc) = acc \<Longrightarrow> 0 \<notin> set acc \<Longrightarrow>
    length acc + length bs < 128 \<Longrightarrow>
    \<exists>m'. path_loop temp p (of_nat (length acc)) cur m =
        Some (map_option (\<lambda>(c, a). (c, of_nat (length a))) (resolve fs cur acc bs), m') \<and>
      (\<forall>x. \<not> in_region x temp 128 \<longrightarrow> m' x = m x) \<and>
      (\<forall>c a. resolve fs cur acc bs = Some (c, a) \<longrightarrow> fs c \<noteq> None \<and> bytes_at m' temp (length a) = a \<and> 0 \<notin> set a \<and> length a < 128)"
proof (induction bs arbitrary: m p acc cur)
  case Nil
  then show ?case by (subst path_loop.simps) simp
next
  case (Cons b bs)
  have p1: "unat (p + 1) = unat p + 1" using Cons.prems(2) by (intro unat_add_one) (simp add: fits_def)
  have f1: "fits (p + 1) (Suc (length bs))" "apart (p + 1) (Suc (length bs)) temp 128"
    using Cons.prems(2,3) by (auto simp: fits_def apart_def p1)
  have b: "m p = b" "b \<noteq> 0" using Cons.prems(1) by simp_all
  have len: "length acc < 128" using Cons.prems(8) by simp
  note bb = buffer_byte [OF t len]
  have step: "cstring (m(temp + of_nat (length acc) := v)) (p + 1) bs"
    "store_rep (heap_live bs0) (m(temp + of_nat (length acc) := v)) fs" for v
  proof -
    have same: "(m(temp + of_nat (length acc) := v)) x = m x" if "\<not> in_region x temp 128" for x
      using bb(2) that by auto
    have "cstring m (p + 1) bs" using Cons.prems(1) by simp
    then show "cstring (m(temp + of_nat (length acc) := v)) (p + 1) bs"
      by (rule cstring_apart [OF _ f1 same])
    show "store_rep (heap_live bs0) (m(temp + of_nat (length acc) := v)) fs"
      by (rule store_outside [OF rep Cons.prems(4) t same])
  qed
  have rest: "\<exists>m'. path_loop temp (p + 1) (of_nat (length a)) c (m(temp + of_nat (length acc) := v)) =
        Some (map_option (\<lambda>(c, a). (c, of_nat (length a))) (resolve fs c a bs), m') \<and>
      (\<forall>x. \<not> in_region x temp 128 \<longrightarrow> m' x = m x) \<and>
      (\<forall>c' a'. resolve fs c a bs = Some (c', a') \<longrightarrow> fs c' \<noteq> None \<and> bytes_at m' temp (length a') = a' \<and> 0 \<notin> set a' \<and> length a' < 128)"
    if "fs c \<noteq> None" "bytes_at (m(temp + of_nat (length acc) := v)) temp (length a) = a" "0 \<notin> set a" "length a + length bs < 128" for c a v
  proof -
    have same: "(m(temp + of_nat (length acc) := v)) x = m x" if "\<not> in_region x temp 128" for x
      using bb(2) that by auto
    note IH = Cons.IH [OF step(1) f1 step(2) that]
    obtain m' where m': "path_loop temp (p + 1) (of_nat (length a)) c (m(temp + of_nat (length acc) := v)) =
        Some (map_option (\<lambda>(c, a). (c, of_nat (length a))) (resolve fs c a bs), m')"
      "\<forall>x. \<not> in_region x temp 128 \<longrightarrow> m' x = (m(temp + of_nat (length acc) := v)) x"
      "\<forall>c' a'. resolve fs c a bs = Some (c', a') \<longrightarrow> fs c' \<noteq> None \<and> bytes_at m' temp (length a') = a' \<and> 0 \<notin> set a' \<and> length a' < 128"
      using IH by blast
    have "\<forall>x. \<not> in_region x temp 128 \<longrightarrow> m' x = m x" using m'(2) same by simp
    then show ?thesis using m'(1,3) by blast
  qed
  show ?case
  proof (cases "b = 47")
    case False
    have "path_loop temp p (of_nat (length acc)) cur m =
        path_loop temp (p + 1) (of_nat (length (acc @ [b]))) cur (m(temp + of_nat (length acc) := b))"
      by (subst path_loop.simps) (use b False in \<open>simp add: add.commute\<close>)
    then show ?thesis
      using rest [of cur b "acc @ [b]"] bb(3) [OF Cons.prems(6)] Cons.prems(5,7,8) b False by simp
  next
    case True
    let ?m = "m(temp + of_nat (length acc) := 0)"
    have cs: "cstring ?m temp acc" by (rule bb(4) [OF Cons.prems(6,7)])
    have L: "blocks (heap_live bs0)" by (rule blocks_heap [OF rep])
    have "path_loop temp p (of_nat (length acc)) cur m =
        (if acc = [] then path_loop temp (p + 1) 0 cur ?m
         else if step_to fs cur acc = 0 then Some (None, ?m) else path_loop temp (p + 1) 0 (step_to fs cur acc) ?m)"
      using b True len find_child_step [OF L step(2) ok Cons.prems(5) cs]
      by (subst path_loop.simps) (simp add: strlen_cstring [OF cs] word_less_nat_alt unat_of_nat_u32)
    moreover have "bytes_at ?m temp (length ([] :: u8 list)) = []" by (simp add: bytes_at_def)
    moreover have "\<forall>x. \<not> in_region x temp 128 \<longrightarrow> ?m x = m x" using bb(2) by auto
    ultimately show ?thesis
      using rest [of cur 0 "[]"] rest [of "step_to fs cur acc" 0 "[]"] step_to_in [OF ok, of cur acc] Cons.prems(5,8) True
      by auto
  qed
qed

section \<open>A path in memory\<close>

definition path_sym :: "string \<Rightarrow> u32" where
  "path_sym = (\<lambda>_. 0x6000)(''fs_touch:parent_path'' := 0x6100, ''fs_mkdir:parent_path'' := 0x6100,
     ''fs_touch:name'' := 0x6200, ''fs_mkdir:name'' := 0x6200)"

text \<open>The booted system after \<open>mkdir ls\<close>, with a path at \<open>0x4000\<close> and the buffers from \<open>0x6000\<close>.\<close>

lemma with_path:
  assumes p: "length p < 256" "0 \<notin> set p"
  obtains bs fs d dn par arr a b and s :: shell where "fs_state bs fs d s" "root s = d" "sym s = path_sym"
    "cstring (mem s) 0x4000 p" "fits 0x4000 (Suc (length p))" "fs d = Some (Dir dn par arr [a, b])"
    "entries fs d = [(bytes_of ''README'', FS_FILE), (bytes_of ''ls'', FS_DIRECTORY)]"
proof (rule with_subdirectory)
  fix bs fs d and s :: shell
  assume S: "fs_state bs fs d s" "entries fs d = [(bytes_of ''README'', FS_FILE), (bytes_of ''ls'', FS_DIRECTORY)]"
  obtain dn par arr kids where d: "fs d = Some (Dir dn par arr kids)" "d \<noteq> 0" "entries fs d = map (entry_of fs) kids"
    using fs_state_dir [OF S(1)] by metis
  have "length kids = length (entries fs d)" unfolding d(3) by simp
  then obtain a b where ab: "kids = [a, b]" using S(2) by (auto simp: length_Suc_conv numeral_2_eq_2)
  let ?s = "s\<lparr>mem := poke 0x4000 p (mem s), sym := path_sym, root := d, current_dir := 0\<rparr>"
  have fit: "fits 0x4000 (Suc (length p))" using p(1) by (simp add: fits_def)
  have same: "poke 0x4000 p (mem s) x = mem s x" if "x \<in> heap_area" for x
    by (rule poke_other [OF fit]) (use that p(1) in \<open>simp add: heap_area_def in_region_def\<close>)
  have "fs_state bs fs d (s\<lparr>mem := poke 0x4000 p (mem s)\<rparr>)"
    by (rule fs_state_outside [OF S(1)]) (use same in simp_all)
  then have "fs_state bs fs d ?s"
    by (simp add: fs_state_def heap_rep_def work_dir_def)
  then show thesis
    by (rule that) (use poke_cstring [OF fit p(2)] fit d(1) ab S(2) in simp_all)
qed

lemma path_buffers: "path_buffer 0x6000" "path_sym ''fs_find_by_path:temp'' = 0x6000" "path_sym ''fs_find_by_path_from:temp'' = 0x6000"
  by (auto simp: path_buffer_def fits_def in_region_def heap_area_def path_sym_def)

section \<open>Lookup\<close>

text \<open>Writes into the component buffer leave the directories alone.\<close>

lemma fs_state_buffer:
  assumes "fs_state bs fs d s" "path_buffer temp" "\<And>x. \<not> in_region x temp 128 \<Longrightarrow> m' x = mem s x"
  shows "fs_state bs fs d (s\<lparr>mem := m'\<rparr>)"
  by (rule fs_state_outside [OF assms(1)]) (use assms(2,3) in \<open>auto simp: path_buffer_def\<close>)

lemma walk_butlast: "path_walk fs cur (butlast ((acc @ hd (comps bs)) # tl (comps bs))) = map_option fst (resolve fs cur acc bs)"
  unfolding resolve_walk by (simp add: option.map_comp comp_def option.map_ident del: path_walk.simps butlast.simps)

text \<open>
  C12: \<open>fs_find_by_path\<close> walks along all components but the last. For an absolute path it returns the
  node that the components before the last slash lead to from the root, NULL when one of them is
  missing; the component after the last slash is never looked up, so \<open>/name\<close> is the root whatever the
  name. For any other path it returns NULL. It writes nothing but its component buffer.
\<close>

theorem find_by_path_drops_last:
  assumes S: "fs_state bs fs d s" "fs (root s) \<noteq> None"
    and path: "path \<noteq> 0" "cstring (mem s) path p" "fits path (Suc (length p))" "length p < 128"
    and t: "path_buffer (sym s ''fs_find_by_path:temp'')" "apart path (Suc (length p)) (sym s ''fs_find_by_path:temp'') 128"
  shows "\<exists>m'. fs_find_by_path path s =
      Some (if p \<noteq> [] \<and> hd p = 47 then case_option 0 id (path_walk fs (root s) (butlast (comps p))) else 0, s\<lparr>mem := m'\<rparr>) \<and>
    (\<forall>x. \<not> in_region x (sym s ''fs_find_by_path:temp'') 128 \<longrightarrow> m' x = mem s x) \<and> fs_state bs fs d (s\<lparr>mem := m'\<rparr>)"
proof -
  have st: "heap_rep s bs" "store_rep (heap_live bs) (mem s) fs" "kids_ok fs" using S(1) by (auto simp: fs_state_def store_ok_def)
  have h: "mem s path = (if p = [] then 0 else hd p)" using path(2) by (cases p) simp_all
  show ?thesis
  proof (cases "p \<noteq> [] \<and> hd p = 47")
    case False
    then have "fs_find_by_path path s = Some (0, s\<lparr>mem := mem s\<rparr>)" using h by (auto simp: fs_find_by_path_def)
    then show ?thesis using S(1) False by (intro exI [of _ "mem s"]) auto
  next
    case True
    obtain m' where m': "path_loop (sym s ''fs_find_by_path:temp'') path 0 (root s) (mem s) =
        Some (map_option (\<lambda>(c, a). (c, of_nat (length a))) (resolve fs (root s) [] p), m')"
      "\<forall>x. \<not> in_region x (sym s ''fs_find_by_path:temp'') 128 \<longrightarrow> m' x = mem s x"
      using path_loop_rep [OF st(1,3) t(1) path(2,3) t(2) st(2) S(2), of "[]"] path(4) by (auto simp: bytes_at_def)
    have "path_walk fs (root s) (butlast (comps p)) = map_option fst (resolve fs (root s) [] p)"
      using walk_butlast [of fs "root s" "[]" p] by simp
    then have "fs_find_by_path path s = Some (case_option 0 id (path_walk fs (root s) (butlast (comps p))), s\<lparr>mem := m'\<rparr>)"
      using m'(1) True path(1) h
      by (cases "resolve fs (root s) [] p") (auto simp: fs_find_by_path_def fs_get_root_def)
    then show ?thesis using True m'(2) fs_state_buffer [OF S(1) t(1)] by (intro exI [of _ m']) simp
  qed
qed

lemma find_by_path_drops_last_witness:
  "\<exists>(s :: shell) s'. fs_find_by_path 0x4000 s = Some (root s, s') \<and> cstring (mem s) 0x4000 (bytes_of ''/missing'')"
proof (rule with_path [of "bytes_of ''/missing''"])
  fix bs fs d dn par arr a b and s :: shell
  assume s: "fs_state bs fs d s" "root s = d" "sym s = path_sym" "cstring (mem s) 0x4000 (bytes_of ''/missing'')"
    "fits 0x4000 (Suc (length (bytes_of ''/missing'')))" "fs d = Some (Dir dn par arr [a, b])"
  have "fs (root s) \<noteq> None" using s(2,6) by simp
  from find_by_path_drops_last [OF s(1) this _ s(4,5)] s(3,4) show ?thesis
    by (auto simp: path_buffers apart_def)
qed simp_all

lemma path_walk_split: "path_walk fs cur ((c # cs)) = Option.bind (path_walk fs cur (butlast (c # cs))) (\<lambda>n. path_walk fs n [last (c # cs)])"
proof -
  have "c # cs = butlast (c # cs) @ [last (c # cs)]" by simp
  then show ?thesis using walk_append [of fs cur "butlast (c # cs)" "[last (c # cs)]"] by simp
qed

text \<open>
  C13: the overload with a starting directory walks along all components. From the root for an
  absolute path, from the given directory otherwise, it returns the node that the whole path leads
  to, NULL when a component is missing, and writes nothing but its component buffer.
\<close>

theorem find_by_path_from_walks:
  assumes S: "fs_state bs fs d s" and cur: "fs (root s) \<noteq> None" "fs cur \<noteq> None"
    and path: "path \<noteq> 0" "cstring (mem s) path p" "fits path (Suc (length p))" "length p < 128"
    and t: "path_buffer (sym s ''fs_find_by_path_from:temp'')"
      "apart path (Suc (length p)) (sym s ''fs_find_by_path_from:temp'') 128"
  shows "\<exists>m'. fs_find_by_path_from path cur s =
      Some (case_option 0 id (path_walk fs (if p \<noteq> [] \<and> hd p = 47 then root s else cur) (comps p)), s\<lparr>mem := m'\<rparr>) \<and>
    (\<forall>x. \<not> in_region x (sym s ''fs_find_by_path_from:temp'') 128 \<longrightarrow> m' x = mem s x) \<and> fs_state bs fs d (s\<lparr>mem := m'\<rparr>)"
proof -
  let ?t = "sym s ''fs_find_by_path_from:temp''"
  have st: "heap_rep s bs" "store_rep (heap_live bs) (mem s) fs" "kids_ok fs" using S by (auto simp: fs_state_def store_ok_def)
  have h: "mem s path = (if p = [] then 0 else hd p)" using path(2) by (cases p) simp_all
  have L: "blocks (heap_live bs)" by (rule blocks_heap [OF st(1)])
  define start q where "start = (if p \<noteq> [] \<and> hd p = 47 then root s else cur)"
    and "q = (if p \<noteq> [] \<and> hd p = 47 then tl p else p)"
  define pa where "pa = (if p \<noteq> [] \<and> hd p = 47 then path + 1 else path)"
  have st0: "fs start \<noteq> None" using cur by (simp add: start_def)
  have walk: "path_walk fs start (comps p) = path_walk fs start (comps q)"
    unfolding q_def by (cases p) simp_all
  have q: "cstring (mem s) pa q" "fits pa (Suc (length q))" "apart pa (Suc (length q)) ?t 128" "length q < 128"
  proof -
    have "unat (path + 1) = unat path + 1" if "p \<noteq> []"
      using path(3) that by (intro unat_add_one) (cases p; simp add: fits_def)
    then show "cstring (mem s) pa q" "fits pa (Suc (length q))" "apart pa (Suc (length q)) ?t 128" "length q < 128"
      using path(2-4) t(2) unfolding pa_def q_def by (cases p; auto simp: fits_def apart_def)+
  qed
  have "0 \<notin> set ([] :: u8 list)" "length ([] :: u8 list) + length q < 128" "bytes_at (mem s) ?t (length ([] :: u8 list)) = []"
    using q(4) by (simp_all add: bytes_at_def)
  from path_loop_rep [OF st(1,3) t(1) q(1-3) st(2) st0 this(3,1,2)] obtain m1 where
    m1: "path_loop ?t pa 0 start (mem s) = Some (map_option (\<lambda>(c, a). (c, of_nat (length a))) (resolve fs start [] q), m1)"
      "\<forall>x. \<not> in_region x ?t 128 \<longrightarrow> m1 x = mem s x"
      "\<forall>c a. resolve fs start [] q = Some (c, a) \<longrightarrow> fs c \<noteq> None \<and> bytes_at m1 ?t (length a) = a \<and> 0 \<notin> set a \<and> length a < 128"
    by auto
  have unf: "fs_find_by_path_from path cur s = Option.bind (path_loop ?t pa 0 start (mem s)) (\<lambda>(r, m).
      case r of None \<Rightarrow> Some (0, s\<lparr>mem := m\<rparr>)
      | Some (c, i) \<Rightarrow> (let m = m(?t + i := 0) in Option.bind (strlen m ?t) (\<lambda>n.
          if 0 < n then Option.bind (fs_find_child m c ?t) (\<lambda>c. Some (c, s\<lparr>mem := m\<rparr>)) else Some (c, s\<lparr>mem := m\<rparr>))))"
    using path(1) h by (auto simp: fs_find_by_path_from_def Let_def fs_get_root_def pa_def start_def)
  have all: "path_walk fs start (comps q) =
      Option.bind (map_option fst (resolve fs start [] q)) (\<lambda>c. path_walk fs c [last (comps q)])"
    using path_walk_split [of fs start "hd (comps q)" "tl (comps q)"] walk_butlast [of fs start "[]" q] by simp
  show ?thesis
  proof (cases "resolve fs start [] q")
    case None
    then have "fs_find_by_path_from path cur s = Some (case_option 0 id (path_walk fs start (comps p)), s\<lparr>mem := m1\<rparr>)"
      using unf m1(1) all walk by simp
    then show ?thesis unfolding start_def using m1(2) fs_state_buffer [OF S t(1)] by (intro exI [of _ m1]) simp
  next
    case (Some ca)
    then obtain c a where ca: "resolve fs start [] q = Some (c, a)" by (cases ca) simp
    have a: "fs c \<noteq> None" "bytes_at m1 ?t (length a) = a" "0 \<notin> set a" "length a < 128" using m1(3) ca by blast+
    have last: "a = last (comps q)" using ca resolve_walk [of fs start "[]" q] by auto
    let ?m = "m1(?t + of_nat (length a) := 0)"
    note bb = buffer_byte [OF t(1) a(4)]
    have cs: "cstring ?m ?t a" by (rule bb(4) [OF a(2,3)])
    have same: "?m x = mem s x" if "\<not> in_region x ?t 128" for x using m1(2) bb(2) that by auto
    have "store_rep (heap_live bs) ?m fs" by (rule store_outside [OF st(1,2) t(1) same])
    from find_child_step [OF L this st(3) a(1) cs]
    have "fs_find_by_path_from path cur s = Some (case_option 0 id (path_walk fs c [a]), s\<lparr>mem := ?m\<rparr>)"
      using unf m1(1) ca strlen_cstring [OF cs] a(4) by (simp add: Let_def word_less_nat_alt unat_of_nat_u32)
    moreover have "path_walk fs start (comps p) = path_walk fs c [a]" using all walk ca last by simp
    moreover have "fs_state bs fs d (s\<lparr>mem := ?m\<rparr>)" by (rule fs_state_buffer [OF S t(1) same])
    ultimately show ?thesis
      unfolding start_def [symmetric] using same by (intro exI [of _ ?m]) (simp del: fun_upd_apply path_walk.simps)
  qed
qed

lemma find_by_path_from_walks_witness:
  "\<exists>(s :: shell) s' c. fs_find_by_path_from 0x4000 (root s) s = Some (c, s') \<and> c \<noteq> 0 \<and>
    node_type (mem s') c = type_code FS_DIRECTORY \<and> cstring (mem s) 0x4000 (bytes_of ''/ls'')"
proof (rule with_path [of "bytes_of ''/ls''"])
  fix bs fs d dn par arr a b and s :: shell
  assume s: "fs_state bs fs d s" "root s = d" "sym s = path_sym" "cstring (mem s) 0x4000 (bytes_of ''/ls'')"
    "fits 0x4000 (Suc (length (bytes_of ''/ls'')))" "fs d = Some (Dir dn par arr [a, b])"
    "entries fs d = [(bytes_of ''README'', FS_FILE), (bytes_of ''ls'', FS_DIRECTORY)]"
  have r: "fs (root s) \<noteq> None" using s(2,6) by simp
  have st: "store_rep (heap_live bs) (mem s) fs" "kids_ok fs" "blocks (heap_live bs)"
    using s(1) blocks_heap by (auto simp: fs_state_def store_ok_def)
  obtain na nb where ab: "fs a = Some na" "fs b = Some nb" using kids_okD(2) [OF st(2) s(6)] by fastforce
  have e: "name_of na = bytes_of ''README''" "name_of nb = bytes_of ''ls''" "type_of nb = FS_DIRECTORY"
    using s(6,7) ab by (simp_all add: entries_def entry_of_def)
  have b0: "b \<noteq> 0" using node_fits [where fs = fs, OF st(3) _ ab(2)] st(1) by (simp add: store_rep_def)
  have "step_to fs d (bytes_of ''ls'') = b" using s(6) ab e by (simp add: step_to_def lookup_def)
  then have w: "path_walk fs (root s) (comps (bytes_of ''/ls'')) = Some b" using s(2) b0 by simp
  from find_by_path_from_walks [OF s(1) r r _ s(4,5)] s(3) obtain m' where
    m': "fs_find_by_path_from 0x4000 (root s) s = Some (case_option 0 id (path_walk fs (root s) (comps (bytes_of ''/ls''))), s\<lparr>mem := m'\<rparr>)"
      "fs_state bs fs d (s\<lparr>mem := m'\<rparr>)"
    by (auto simp: path_buffers apart_def)
  have "store_rep (heap_live bs) m' fs" using m'(2) by (simp add: fs_state_def)
  from store_repD [OF this ab(2)] e(3) have "node_type m' b = type_code FS_DIRECTORY"
    by (cases nb) (simp_all add: head_rep_def)
  then show ?thesis using m'(1) s(4) b0 unfolding w by (intro exI [of _ s] exI [of _ "s\<lparr>mem := m'\<rparr>"] exI [of _ b]) simp
qed simp_all

section \<open>Creation by path\<close>

text \<open>A path without a directory part: the parent is the empty string, and no lookup succeeds.\<close>

lemma strncpy_none [simp]: "strncpy m dest src 0 = m"
  by (simp add: strncpy_def strncpy_copy.simps strncpy_pad.simps)

lemma split_path_long:
  assumes path: "path \<noteq> 0" "cstring (mem s) path (47 # nm)" "fits path (Suc (Suc (length nm)))" "47 \<notin> set nm"
    and par: "\<not> in_region par path (Suc (Suc (length nm)))" and long: "64 \<le> length nm"
  shows "split_path path par name s = Some (Inl StackOverrun)"
proof -
  have sl: "strrchr (mem s) path 47 = Some path"
    using strrchr_split [of "mem s" path "[]" 47 nm] path(2,4) by (simp add: char_int_def)
  have p1: "unat (path + 1) = unat path + 1" using path(3) by (intro unat_add_one) (simp add: fits_def)
  have "cstring (mem s) (path + 1) nm" using path(2) by simp
  moreover have "\<not> in_region par (path + 1) (Suc (length nm))" using par by (auto simp: in_region_def p1)
  moreover have "fits (path + 1) (Suc (length nm))" using path(3) by (simp add: fits_def p1)
  ultimately have src: "cstring ((mem s)(par := 0)) (path + 1) nm" using cstring_upd by blast
  have "length nm < 4294967296" using path(3) by (simp add: fits_def)
  then have "unat (of_nat (length nm) :: u32) = length nm" by (rule unat_of_nat_u32)
  then have "(64 :: u32) \<le> of_nat (length nm)" using long by (simp add: word_le_nat_alt)
  then show ?thesis using path(1) sl by (simp add: split_path_def strcpy_array_def strlen_cstring [OF src] Let_def)
qed

lemma split_path_root:
  assumes path: "path \<noteq> 0" "cstring (mem s) path (47 # nm)" "fits path (Suc (Suc (length nm)))" "47 \<notin> set nm"
    and par: "\<not> in_region par path (Suc (Suc (length nm)))" "\<not> in_region par name (Suc (length nm))"
    and name: "fits name (Suc (length nm))" "apart name (Suc (length nm)) path (Suc (Suc (length nm)))"
    and short: "length nm < 64"
  obtains m' where "split_path path par name s = Some (Inr (s\<lparr>mem := m'\<rparr>))" "m' par = 0" "cstring m' name nm"
    "\<And>x. x \<noteq> par \<Longrightarrow> \<not> in_region x name (Suc (length nm)) \<Longrightarrow> m' x = mem s x"
proof -
  let ?m = "(mem s)(par := 0)" and ?n = "Suc (length nm)"
  have p1: "unat (path + 1) = unat path + 1" using path(3) by (intro unat_add_one) (simp add: fits_def)
  have sl: "strrchr (mem s) path 47 = Some path"
    using strrchr_split [of "mem s" path "[]" 47 nm] path(2,4) by (simp add: char_int_def)
  have src: "cstring ?m (path + 1) nm" "fits (path + 1) ?n" "apart name ?n (path + 1) ?n"
  proof -
    have "cstring (mem s) (path + 1) nm" using path(2) by simp
    moreover show "fits (path + 1) ?n" using path(3) by (simp add: fits_def p1)
    moreover have "\<not> in_region par (path + 1) ?n" using par(1) by (auto simp: in_region_def p1)
    ultimately show "cstring ?m (path + 1) nm" using cstring_upd by blast
    show "apart name ?n (path + 1) ?n" using name(2) by (auto simp: apart_def p1)
  qed
  define m' where "m' = (\<lambda>a. if in_region a name ?n then ?m (path + 1 + (a - name)) else ?m a)"
  have "strcpy ?m name (path + 1) = Some m'"
    unfolding m'_def by (rule strcpy_cstring [OF src(1) name(1) src(2,3)])
  moreover have "\<not> (64 :: u32) \<le> of_nat (length nm)"
    using short unat_of_nat_u32 [of "length nm"] by (simp add: word_le_nat_alt)
  ultimately have "split_path path par name s = Some (Inr (s\<lparr>mem := m'\<rparr>))"
    using path(1) sl by (simp add: split_path_def strcpy_array_def strlen_cstring [OF src(1)] Let_def)
  moreover have "m' par = 0" using par(2) by (simp add: m'_def)
  moreover have "cstring m' name nm"
  proof -
    have "m' (name + of_nat j) = ?m (path + 1 + of_nat j)" if "j \<le> length nm" for j
    proof -
      have "unat (name + of_nat j) = unat name + j" using name(1) that by (intro unat_add_of_nat) (simp add: fits_def)
      then show ?thesis using that by (simp add: m'_def in_region_def)
    qed
    then show ?thesis using src(1) by (simp add: cstring_iff)
  qed
  ultimately show thesis by (rule that) (simp add: m'_def)
qed

text \<open>
  Where the compiler puts \<open>parent_path[128]\<close> and \<open>name[64]\<close> of \<open>fs_touch\<close> and \<open>fs_mkdir\<close>: apart from
  each other and from the path.
\<close>

definition path_args :: "string \<Rightarrow> u32 \<Rightarrow> u8 list \<Rightarrow> 'a machine_scheme \<Rightarrow> bool" where
  "path_args f path nm s \<longleftrightarrow> (let par = sym s (f @ '':parent_path''); name = sym s (f @ '':name'') in
     par \<noteq> 0 \<and> fits par 128 \<and> fits name 64 \<and> apart par 128 name 64 \<and>
     apart par 128 path (Suc (Suc (length nm))) \<and> apart name 64 path (Suc (Suc (length nm))))"

lemma path_argsD:
  assumes "path_args f path nm s"
  shows "sym s (f @ '':parent_path'') \<noteq> 0"
    "\<not> in_region (sym s (f @ '':parent_path'')) path (Suc (Suc (length nm)))"
    "length nm < 64 \<Longrightarrow> \<not> in_region (sym s (f @ '':parent_path'')) (sym s (f @ '':name'')) (Suc (length nm))"
    "length nm < 64 \<Longrightarrow> fits (sym s (f @ '':name'')) (Suc (length nm))"
    "length nm < 64 \<Longrightarrow> apart (sym s (f @ '':name'')) (Suc (length nm)) path (Suc (Suc (length nm)))"
  using assms by (auto simp: path_args_def Let_def apart_def fits_def in_region_def)

text \<open>
  C17: nothing can be created in the root by path. For a path \<open>/name\<close> with a name that the array
  \<open>name[64]\<close> holds, the parent that \<open>split_path\<close> finds is the empty string, which no lookup accepts,
  so \<open>fs_touch\<close> and \<open>fs_mkdir\<close> return NULL; they write the first byte of \<open>parent_path\<close> and the name in
  \<open>name\<close>, and no file or directory is made. A name of 64 bytes or more is copied past the end of
  \<open>name\<close>: both calls overrun their stack frame.
\<close>

theorem paths_in_root_refused:
  assumes path: "path \<noteq> 0" "cstring (mem s) path (47 # nm)" "fits path (Suc (Suc (length nm)))" "47 \<notin> set nm"
    and args: "path_args ''fs_touch'' path nm s" "path_args ''fs_mkdir'' path nm s"
  shows "if length nm < 64
    then \<exists>m1 m2. fs_touch path s = Some (Inr (0, s\<lparr>mem := m1\<rparr>)) \<and> fs_mkdir path s = Some (Inr (0, s\<lparr>mem := m2\<rparr>)) \<and>
      (\<forall>x. x \<noteq> sym s ''fs_touch:parent_path'' \<longrightarrow> \<not> in_region x (sym s ''fs_touch:name'') (Suc (length nm)) \<longrightarrow> m1 x = mem s x) \<and>
      (\<forall>x. x \<noteq> sym s ''fs_mkdir:parent_path'' \<longrightarrow> \<not> in_region x (sym s ''fs_mkdir:name'') (Suc (length nm)) \<longrightarrow> m2 x = mem s x)
    else fs_touch path s = Some (Inl StackOverrun) \<and> fs_mkdir path s = Some (Inl StackOverrun)"
proof (cases "length nm < 64")
  case True
  have refused: "fs_find_by_path par (s\<lparr>mem := m\<rparr>) = Some (0, s\<lparr>mem := m\<rparr>)" if "m par = 0" for par m
    using that by (simp add: fs_find_by_path_def)
  note a1 = path_argsD [OF args(1), simplified] and a2 = path_argsD [OF args(2), simplified]
  obtain m1 where m1: "split_path path (sym s ''fs_touch:parent_path'') (sym s ''fs_touch:name'') s = Some (Inr (s\<lparr>mem := m1\<rparr>))"
    "m1 (sym s ''fs_touch:parent_path'') = 0"
    "\<And>x. x \<noteq> sym s ''fs_touch:parent_path'' \<Longrightarrow> \<not> in_region x (sym s ''fs_touch:name'') (Suc (length nm)) \<Longrightarrow> m1 x = mem s x"
    using split_path_root [OF path a1(2) a1(3) [OF True] a1(4) [OF True] a1(5) [OF True] True] by blast
  obtain m2 where m2: "split_path path (sym s ''fs_mkdir:parent_path'') (sym s ''fs_mkdir:name'') s = Some (Inr (s\<lparr>mem := m2\<rparr>))"
    "m2 (sym s ''fs_mkdir:parent_path'') = 0"
    "\<And>x. x \<noteq> sym s ''fs_mkdir:parent_path'' \<Longrightarrow> \<not> in_region x (sym s ''fs_mkdir:name'') (Suc (length nm)) \<Longrightarrow> m2 x = mem s x"
    using split_path_root [OF path a2(2) a2(3) [OF True] a2(4) [OF True] a2(5) [OF True] True] by blast
  have "fs_touch path s = Some (Inr (0, s\<lparr>mem := m1\<rparr>))"
    using m1(1) refused [of m1, OF m1(2)] by (simp add: fs_touch_def Let_def)
  moreover have "fs_mkdir path s = Some (Inr (0, s\<lparr>mem := m2\<rparr>))"
    using m2(1) refused [of m2, OF m2(2)] by (simp add: fs_mkdir_def Let_def)
  ultimately show ?thesis using m1(3) m2(3) True by auto
next
  case False
  then have long: "64 \<le> length nm" by simp
  note a1 = path_argsD(2) [OF args(1), simplified] and a2 = path_argsD(2) [OF args(2), simplified]
  have "fs_touch path s = Some (Inl StackOverrun)"
    by (simp add: fs_touch_def Let_def split_path_long [OF path a1 long])
  moreover have "fs_mkdir path s = Some (Inl StackOverrun)"
    by (simp add: fs_mkdir_def Let_def split_path_long [OF path a2 long])
  ultimately show ?thesis using False by simp
qed

lemma paths_in_root_refused_witness:
  "(\<exists>(s :: shell) m1 m2. cstring (mem s) 0x4000 (bytes_of ''/new'') \<and> fs_touch 0x4000 s = Some (Inr (0, s\<lparr>mem := m1\<rparr>)) \<and>
      fs_mkdir 0x4000 s = Some (Inr (0, s\<lparr>mem := m2\<rparr>))) \<and>
    (\<exists>s :: shell. cstring (mem s) 0x4000 (47 # replicate 64 97) \<and> fs_mkdir 0x4000 s = Some (Inl StackOverrun))"
proof
  show "\<exists>(s :: shell) m1 m2. cstring (mem s) 0x4000 (bytes_of ''/new'') \<and> fs_touch 0x4000 s = Some (Inr (0, s\<lparr>mem := m1\<rparr>)) \<and>
      fs_mkdir 0x4000 s = Some (Inr (0, s\<lparr>mem := m2\<rparr>))"
  proof (rule with_path [of "bytes_of ''/new''"])
    fix bs fs d dn par arr a b and s :: shell
    assume s: "sym s = path_sym" "cstring (mem s) 0x4000 (bytes_of ''/new'')"
    let ?nm = "bytes_of ''new''"
    have c: "cstring (mem s) 0x4000 (47 # ?nm)" using s(2) by simp
    have args: "path_args ''fs_touch'' 0x4000 ?nm s" "path_args ''fs_mkdir'' 0x4000 ?nm s"
      by (simp_all add: path_args_def s(1) path_sym_def fits_def apart_def)
    show ?thesis using paths_in_root_refused [OF _ c _ _ args] s(2) by (auto simp: fits_def)
  qed simp_all
  show "\<exists>s :: shell. cstring (mem s) 0x4000 (47 # replicate 64 97) \<and> fs_mkdir 0x4000 s = Some (Inl StackOverrun)"
  proof (rule with_path [of "47 # replicate 64 97"])
    fix bs fs d dn par arr a b and s :: shell
    assume s: "sym s = path_sym" "cstring (mem s) 0x4000 (47 # replicate 64 97)"
    have args: "path_args ''fs_touch'' 0x4000 (replicate 64 97) s" "path_args ''fs_mkdir'' 0x4000 (replicate 64 97) s"
      by (simp_all add: path_args_def s(1) path_sym_def fits_def apart_def)
    have "fs_mkdir 0x4000 s = Some (Inl StackOverrun)"
      using paths_in_root_refused [OF _ s(2) _ _ args] by (simp add: fits_def)
    then show ?thesis using s(2) by blast
  qed simp_all
qed

section \<open>Descriptors\<close>

text \<open>
  C14: descriptors are the least free ones. With its table of 64, \<open>fs_open\<close> returns the least index
  not in use and makes it refer to the start of the node, or returns \<open>-1\<close> and changes nothing when
  all are in use. The system calls on the descriptor then are the file operations on the node, at
  offset 0 however often they are made; closing it gives the table back the marks it had before, and
  from then on reading and writing by it return \<open>-1\<close> and change nothing.
\<close>

theorem descriptors:
  assumes len: "length (fd_table s) = 64" and opened: "fs_open node s = (fd, s')"
  shows "if \<forall>i < 64. fd_used (fd_table s ! i) \<noteq> 0 then fd = - 1 \<and> s' = s
    else 0 \<le> fd \<and> fd < 64 \<and> fd_used (fd_table s ! nat fd) = 0 \<and> (\<forall>i < nat fd. fd_used (fd_table s ! i) \<noteq> 0) \<and>
      s' = s\<lparr>fd_table := (fd_table s)[nat fd := \<lparr>fd_node = node, fd_offset = 0, fd_used = 1\<rparr>]\<rparr> \<and>
      (\<forall>buf n. sys_read fd buf n s' = fs_read node 0 n buf s' \<and> fd_table (snd (sys_read fd buf n s')) = fd_table s') \<and>
      (\<forall>buf n. sys_write fd buf n s' = fs_write node 0 n buf s') \<and>
      map fd_used (fd_table (sys_close fd s')) = map fd_used (fd_table s) \<and>
      (\<forall>buf n. sys_read fd buf n (sys_close fd s') = (- 1, sys_close fd s') \<and>
        sys_write fd buf n (sys_close fd s') = Some (- 1, sys_close fd s'))"
proof (cases "find (\<lambda>i. fd_used (fd_table s ! i) = 0) [0..<64]")
  case None
  then have "\<forall>i < 64. fd_used (fd_table s ! i) \<noteq> 0" by (auto simp: find_None_iff)
  then show ?thesis using opened None by (simp add: fs_open_def)
next
  case (Some i)
  have i: "i < 64" "fd_used (fd_table s ! i) = 0" "\<forall>j < i. fd_used (fd_table s ! j) \<noteq> 0"
    using Some by (auto simp: find_Some_iff)
  let ?t = "(fd_table s)[i := \<lparr>fd_node = node, fd_offset = 0, fd_used = 1\<rparr>]"
  have fd: "fd = int i" "s' = s\<lparr>fd_table := ?t\<rparr>" using opened Some by (simp_all add: fs_open_def)
  have rd: "sys_read fd buf n s' = fs_read node 0 n buf s'" "sys_write fd buf n s' = fs_write node 0 n buf s'" for buf n
    using i(1) len by (simp_all add: sys_read_def sys_write_def bad_fd_def fd)
  have keep: "fd_table (snd (fs_read node 0 n buf s')) = fd_table s'" for n buf
    by (simp add: fs_read_def Let_def)
  have close: "sys_close fd s' = s'\<lparr>fd_table := (fd_table s)[i := \<lparr>fd_node = node, fd_offset = 0, fd_used = 0\<rparr>]\<rparr>"
    using i(1) len by (simp add: sys_close_def fs_close_def fd)
  have used: "map fd_used (fd_table (sys_close fd s')) = map fd_used (fd_table s)"
    unfolding close using i(1,2) len by (simp add: map_update list_update_same_conv)
  have bad: "bad_fd fd (sys_close fd s')" unfolding close using i(1) len by (simp add: bad_fd_def fd)
  then have closed: "sys_read fd buf n (sys_close fd s') = (- 1, sys_close fd s')"
    "sys_write fd buf n (sys_close fd s') = Some (- 1, sys_close fd s')" for buf n
    by (simp_all add: sys_read_def sys_write_def)
  have "\<not> (\<forall>i < 64. fd_used (fd_table s ! i) \<noteq> 0)" using i(1,2) by blast
  then show ?thesis using i fd rd keep used closed by simp
qed

lemma descriptors_witness:
  "\<exists>(s :: shell) s'. length (fd_table s) = 64 \<and> fd_used (fd_table s ! 0) = 1 \<and> fs_open 5 s = (1, s') \<and>
    (\<forall>buf n. sys_read 1 buf n (sys_close 1 s') = (- 1, sys_close 1 s'))"
proof -
  let ?s = "loader_image\<lparr>fd_table := (replicate 64 \<lparr>fd_node = 0, fd_offset = 0, fd_used = 0\<rparr>)[0 := \<lparr>fd_node = 0, fd_offset = 0, fd_used = 1\<rparr>]\<rparr>"
  obtain fd s' where o: "fs_open 5 ?s = (fd, s')" by (cases "fs_open 5 ?s") simp
  have free: "\<not> (\<forall>i < 64. fd_used (fd_table ?s ! i) \<noteq> 0)" by (auto intro!: exI [of _ 1])
  have len: "length (fd_table ?s) = 64" by simp
  note d = descriptors [OF len o, unfolded if_not_P [OF free]]
  have "fd_used (fd_table ?s ! nat fd) = 0" "\<forall>i < nat fd. fd_used (fd_table ?s ! i) \<noteq> 0" "0 \<le> fd" "fd < 64" using d by simp_all
  then have "nat fd = 1"
    by (cases "nat fd"; cases "nat fd - 1") (auto simp: nth_Cons' split: if_splits)
  then have one: "fd = 1" by simp
  have "\<forall>buf n. sys_read 1 buf n (sys_close 1 s') = (- 1, sys_close 1 s')" using d unfolding one by blast
  moreover have "fd_used (fd_table ?s ! 0) = 1" by simp
  ultimately show ?thesis using o len unfolding one by blast
qed

end
