(* ===== verification/Live_Session.thy ===== *)
theory Live_Session
  imports Files_Props
begin

text \<open>
  The session driven by the hardware: the shell as \<open>irq_handler\<close> of \<open>src/kernel/isr.cpp\<close> runs it, one
  interrupt after the other, with the scan codes that \<open>read_keyboard\<close> of \<open>src/kernel/keyboard.cpp\<close>
  reads from port \<open>0x60\<close> and timer interrupts anywhere between them. The specification is a view of
  the session that each scan code moves on.
\<close>

section \<open>The view\<close>

text \<open>What the user has: the modifiers, the line, the entries of the directory, and the free heap space.\<close>

record view =
  v_shift :: bool
  v_caps :: bool
  v_line :: "u8 list"
  v_entries :: "entry list"
  v_free :: nat

definition shift_after :: "u8 \<Rightarrow> bool \<Rightarrow> bool" where
  "shift_after code sh = (if code \<in> {0x2A, 0x36} then True else if code \<in> {0xAA, 0xB6} then False else sh)"

definition caps_after :: "u8 \<Rightarrow> bool \<Rightarrow> bool" where
  "caps_after code ca = (if code = 0x3A then \<not> ca else ca)"

text \<open>The key that a scan code stands for, break codes and modifiers being ignored.\<close>

definition typed_char :: "u8 \<Rightarrow> bool \<Rightarrow> bool \<Rightarrow> u8" where
  "typed_char code sh ca =
     (if code < 128 then let c = scancode_to_ascii ! unat code in
        if (sh \<or> ca) \<and> 97 \<le> sint c \<and> sint c \<le> 122 then c - 32 else c
      else 0)"

definition typed_key :: "u8 \<Rightarrow> bool \<Rightarrow> bool \<Rightarrow> edit_key" where
  "typed_key code sh ca =
     (if code \<in> {8, 127, 0x0E} then Key_erase
      else if code \<in> {10, 13, 0x1C} then Key_enter
      else if typed_char code sh ca = 0 then Key_ignored else Key_char (typed_char code sh ca))"

text \<open>
  Enter. A line without a word, and a word equal to the string \<open>z\<close> at address 0, which the null
  entries of the command table match, make the shell call a null pointer; any other word that is no
  command is answered and forgotten, as \<open>uptime\<close> is; a file command changes the entries and takes up to
  376 bytes of the heap. \<open>None\<close>: the view does not follow \<open>help\<close>, \<open>cd\<close> and \<open>cat\<close>, nor a file
  command with less than 392 bytes left.
\<close>

definition view_line :: "u8 list \<Rightarrow> view \<Rightarrow> (fault + view) option" where
  "view_line z v =
     (case next_token {32} (v_line v) of
        None \<Rightarrow> Some (Inl NullCall)
      | Some (w, rest) \<Rightarrow>
         (let nm = (case next_token {32} rest of None \<Rightarrow> [] | Some (nm, _) \<Rightarrow> nm) in
          case known filled_commands w of
            None \<Rightarrow> if w = z then Some (Inl NullCall) else Some (Inr (v\<lparr>v_line := []\<rparr>))
          | Some c \<Rightarrow>
              if c = Cmd_uptime then Some (Inr (v\<lparr>v_line := []\<rparr>))
              else if edits c \<and> 392 \<le> v_free v
              then Some (Inr (v\<lparr>v_line := [], v_entries := dir_spec c nm (v_entries v), v_free := v_free v - 376\<rparr>))
              else None))"

definition view_key :: "u8 list \<Rightarrow> u8 \<Rightarrow> view \<Rightarrow> (fault + view) option" where
  "view_key z code v =
     (let sh = shift_after code (v_shift v); ca = caps_after code (v_caps v);
          v = v\<lparr>v_shift := sh, v_caps := ca\<rparr>; k = typed_key code sh ca in
      if k = Key_enter then view_line z v else Some (Inr (v\<lparr>v_line := edit k (v_line v)\<rparr>)))"

fun view_keys :: "u8 list \<Rightarrow> u8 list \<Rightarrow> view \<Rightarrow> (fault + view) option" where
  "view_keys z [] v = Some (Inr v)"
| "view_keys z (c # cs) v = fbind (view_key z c v) (view_keys z cs)"

section \<open>Decoding\<close>

definition event_of :: "u8 \<Rightarrow> bool \<Rightarrow> bool \<Rightarrow> keyboard_event" where
  "event_of code sh ca = \<lparr>scancode = code, shift = sh, caps_lock = ca, released = (code AND 0x80 \<noteq> 0),
     enter = (code = 0x1C), backspace = (code = 0x0E)\<rparr>"

lemma read_keyboard_event:
  "read_keyboard s = (let c = fst (port_in 0x60 s); sh = shift_after c (shift_pressed s); ca = caps_after c (caps_lock_active s) in
     (event_of c sh ca, (snd (port_in 0x60 s))\<lparr>shift_pressed := sh, caps_lock_active := ca\<rparr>))"
proof -
  obtain c s1 where p: "port_in 0x60 s = (c, s1)" by (cases "port_in 0x60 s")
  have "shift_pressed s1 = shift_pressed s" "caps_lock_active s1 = caps_lock_active s"
    using p by (auto simp: port_in_def inb_def Let_def)
  moreover have "(0x2A OR 0x80 :: u8) = 0xAA" "(0x36 OR 0x80 :: u8) = 0xB6" by simp_all
  ultimately show ?thesis
    by (auto simp: read_keyboard_def p Let_def event_of_def shift_after_def caps_after_def)
qed

lemma kb_event: "caps_lock_active s = ca \<Longrightarrow> kb_to_ascii (event_of code sh ca) s = typed_char code sh ca"
  by (simp add: event_of_def typed_char_def kb_to_ascii_def to_upper_def Let_def)

lemma key_of_event: "caps_lock_active s = ca \<Longrightarrow> key_of (event_of code sh ca) s = typed_key code sh ca"
  unfolding key_of_def typed_key_def kb_event by (simp add: event_of_def)

section \<open>The state behind the view\<close>

text \<open>How often the data port has been read.\<close>

fun data_read :: "io_event \<Rightarrow> bool" where
  "data_read (In p v) \<longleftrightarrow> p = 0x60"
| "data_read _ \<longleftrightarrow> False"

definition reads :: "'a machine_scheme \<Rightarrow> nat" where
  "reads s = length (filter data_read (io_log (con s)))"

text \<open>A keyboard that delivers the scan codes in turn, one per read of the data port.\<close>

definition delivers :: "(io_event list \<Rightarrow> u16 \<Rightarrow> u8) \<Rightarrow> (nat \<Rightarrow> u8) \<Rightarrow> bool" where
  "delivers dev codes \<longleftrightarrow> (\<forall>log. dev log 0x60 = codes (length (filter data_read log)))"

text \<open>The string at address 0, which the null entries of the table are compared with.\<close>

definition null_string :: "'a shell_scheme \<Rightarrow> u8 list \<Rightarrow> bool" where
  "null_string s z \<longleftrightarrow> cstring (mem s) 0 z \<and> length z < 0x1000 \<and> known filled_commands z = None \<and>
     apart 0 (Suc (length z)) (shell_buffer s) SHELL_BUFFER_SIZE"

lemma null_string_echoes:
  assumes e: "echoes s s'" and z: "null_string s z"
  shows "null_string s' z"
proof -
  have b: "shell_buffer s' = shell_buffer s" using e by (simp add: echoes_def shell_buffer_def)
  have n: "length z < 0x1000" "cstring (mem s) 0 z" "apart 0 (Suc (length z)) (shell_buffer s) 256"
    using z by (simp_all add: null_string_def)
  have "mem s' (of_nat j) = mem s (of_nat j)" if "j \<le> length z" for j
  proof -
    have u: "unat (of_nat j :: u32) = j" using that n(1) by (simp add: unat_of_nat_u32)
    have "in_region (of_nat j) 0 (Suc (length z))" using that by (simp add: in_region_def u)
    then have "\<not> in_region (of_nat j) (shell_buffer s) 256" using n(3) apart_in_region by blast
    moreover have "(of_nat j :: u32) \<notin> heap_area" using that n(1) by (simp add: heap_area_def u)
    ultimately show ?thesis using e by (simp add: echoes_def)
  qed
  then have "cstring (mem s') 0 z" using n(2) by (simp add: cstring_iff)
  then show ?thesis using z by (simp add: null_string_def b)
qed

text \<open>\<open>shows_view z s v\<close>: the session is as the view says.\<close>

definition shows_view :: "u8 list \<Rightarrow> 'a shell_scheme \<Rightarrow> view \<Rightarrow> bool" where
  "shows_view z s v \<longleftrightarrow> session s (v_free v) (v_line v) (v_entries v) \<and> null_string s z \<and>
     shift_pressed s = v_shift v \<and> caps_lock_active s = v_caps v"

text \<open>What the interrupts of a session leave alone.\<close>

definition serves :: "'a shell_scheme \<Rightarrow> 'a shell_scheme \<Rightarrow> bool" where
  "serves s s' \<longleftrightarrow> io_dev (con s') = io_dev (con s) \<and> interrupt_handlers s' = interrupt_handlers s \<and>
     interrupts_on s' = interrupts_on s"

lemma serves_trans: "serves s s' \<Longrightarrow> serves s' s'' \<Longrightarrow> serves s s''"
  by (simp add: serves_def)

lemma session_con:
  "session (s\<lparr>con := c, shift_pressed := a, caps_lock_active := b\<rparr>) n l es = session s n l es"
  "session (s\<lparr>con := c, timer_ticks := t\<rparr>) n l es = session s n l es"
  "session (s\<lparr>con := c\<rparr>) n l es = session s n l es"
  by (simp_all add: session_def fs_state_def heap_rep_def work_dir_def line_rep_def shell_image_def
      literal_at_def image_apart_def shell_buffer_def)

lemma null_string_con:
  "null_string (s\<lparr>con := c, shift_pressed := a, caps_lock_active := b\<rparr>) z = null_string s z"
  "null_string (s\<lparr>con := c, timer_ticks := t\<rparr>) z = null_string s z"
  "null_string (s\<lparr>con := c\<rparr>) z = null_string s z"
  by (simp_all add: null_string_def shell_buffer_def)

lemma echoes_reads: "echoes s s' \<Longrightarrow> reads s' = reads s \<and> serves s s'"
proof -
  assume e: "echoes s s'"
  then obtain out where out: "con s' = term_write out (con s)" by (auto simp: echoes_def)
  obtain es where es: "io_log (con s') = es @ io_log (con s)" "\<forall>e \<in> set es. crt_event e"
    using term_write_crt [of "con s" out] unfolding out extends_crt_def by blast
  have "\<not> data_read e" if "crt_event e" for e using that by (cases e) simp_all
  then have "filter data_read es = []" using es(2) by (simp add: filter_empty_conv)
  then show ?thesis using e out es(1) by (simp add: reads_def serves_def echoes_def)
qed

section \<open>Lines that are no file command\<close>

lemma unknown_word:
  assumes "cstring (mem s) cmd w"
  shows "\<exists>out. printf ''Command not found: %s\<newline>'' [cmd] s = Some (s\<lparr>con := term_write out (con s)\<rparr>)"
proof (rule exI, rule printf_emits [where str = "\<lambda>p. if p = cmd then Some w else None"])
  show "emitted (mem s) (sym s ''digits'') (\<lambda>p. if p = cmd then Some w else None) ''Command not found: %s\<newline>'' [cmd] =
      Some (bytes_of ''Command not found: '' @ w @ bytes_of ''\<newline>'')"
    by (simp add: emitted_steps)
qed (use assms in \<open>simp split: if_splits\<close>)

lemma uptime_prints: "\<exists>out. cmd_uptime args s = Some (s\<lparr>con := term_write out (con s)\<rparr>)"
  unfolding cmd_uptime_def
  by (rule exI, rule printf_emits [where str = "\<lambda>_. None"]) (simp_all add: emitted_steps)

text \<open>What \<open>shell_process_command\<close> does with a line that is no file command.\<close>

lemma session_dispatch:
  assumes S: "session s n l es" and z: "null_string s z" and l: "cstring (mem s) (shell_buffer s) l" "length l < SHELL_BUFFER_SIZE"
  obtains s' cmd args where "\<And>x. \<not> in_region x (shell_buffer s) SHELL_BUFFER_SIZE \<Longrightarrow> mem s' x = mem s x"
    "s'\<lparr>mem := mem s, strtok_last := strtok_last s\<rparr> = s"
    "next_token {32} l = None \<Longrightarrow> shell_process_command (shell_buffer s) s = Some (Inl NullCall)"
    "\<And>w rest. next_token {32} l = Some (w, rest) \<Longrightarrow> cstring (mem s') cmd w"
    "\<And>w rest. next_token {32} l = Some (w, rest) \<Longrightarrow> shell_process_command (shell_buffer s) s =
       (case known filled_commands w of
          Some f \<Rightarrow> fret (run_command f args s')
        | None \<Rightarrow> if w = z then Some (Inl NullCall)
                  else fret (printf ''Command not found: %s\<newline>'' [cmd] s'))"
proof -
  have im: "shell_image s" using S by (simp add: session_def)
  have z': "cstring (mem s) 0 z" "apart 0 (Suc (length z)) (shell_buffer s) 256" "length z < 0x1000"
    "known filled_commands z = None"
    using z by (simp_all add: null_string_def)
  obtain s' cmd args where d: "\<forall>a. \<not> in_region a (shell_buffer s) 256 \<longrightarrow> mem s' a = mem s a"
    "s'\<lparr>mem := mem s, strtok_last := strtok_last s\<rparr> = s"
    "case next_token {32} l of
       None \<Rightarrow> known filled_commands z = None \<longrightarrow>
         shell_process_command (shell_buffer s) s = Some (Inl NullCall)
     | Some (w, rest) \<Rightarrow> cstring (mem s') cmd w \<and>
         (case next_token {32} rest of None \<Rightarrow> args = 0 | Some (w', _) \<Rightarrow> token_at s (mem s') args w') \<and>
         shell_process_command (shell_buffer s) s =
           (case known filled_commands w of
              Some f \<Rightarrow> fret (run_command f args s')
            | None \<Rightarrow> if w = z then Some (Inl NullCall)
                      else fret (printf ''Command not found: %s\<newline>'' [cmd] s'))"
    using dispatch_line [OF im l z'(1-3)] by blast
  show thesis
  proof (rule that [of s' cmd args])
    show "mem s' x = mem s x" if "\<not> in_region x (shell_buffer s) 256" for x using d(1) that by blast
  qed (use d(2,3) z'(4) in simp_all)
qed

lemma session_fault:
  assumes S: "session s n l es" and z: "null_string s z" and k: "key_of ke s = Key_enter"
    and l: "next_token {32} l = None \<or> next_token {32} l = Some (z, rest)"
  shows "shell_handle_key ke s = Some (Inl NullCall)"
proof -
  obtain s2 where s2: "shell_handle_key ke s = fbind (shell_process_command (shell_buffer s2) s2)
      (\<lambda>s. fret (printf ''nutshell> '' [] (s\<lparr>shell_index := 0\<rparr>)))"
    "cstring (mem s2) (shell_buffer s2) l" "length l < 256" "session s2 n l es" "echoes s s2"
    by (rule session_submit [OF S k])
  have z2: "null_string s2 z" by (rule null_string_echoes [OF s2(5) z])
  then have "known filled_commands z = None" by (simp add: null_string_def)
  then have "shell_process_command (shell_buffer s2) s2 = Some (Inl NullCall)"
    using l by - (rule session_dispatch [OF s2(4) z2 s2(2,3)], auto)
  then show ?thesis by (simp add: s2(1))
qed

lemma session_answer:
  assumes S: "session s n l es" and z: "null_string s z" and k: "key_of ke s = Key_enter"
    and l: "next_token {32} l = Some (w, rest)"
    and w: "known filled_commands w = None \<and> w \<noteq> z \<or> known filled_commands w = Some Cmd_uptime"
  obtains s1 where "shell_handle_key ke s = Some (Inr s1)" "session s1 n [] es" "echoes s s1"
proof -
  note found = that
  obtain s2 where s2: "shell_handle_key ke s = fbind (shell_process_command (shell_buffer s2) s2)
      (\<lambda>s. fret (printf ''nutshell> '' [] (s\<lparr>shell_index := 0\<rparr>)))"
    "cstring (mem s2) (shell_buffer s2) l" "length l < 256" "session s2 n l es" "echoes s s2"
    by (rule session_submit [OF S k])
  have z2: "null_string s2 z" by (rule null_string_echoes [OF s2(5) z])
  show thesis
  proof (rule session_dispatch [OF s2(4) z2 s2(2,3)])
    fix s3 cmd args
    assume s3: "\<And>x. \<not> in_region x (shell_buffer s2) 256 \<Longrightarrow> mem s3 x = mem s2 x"
      "s3\<lparr>mem := mem s2, strtok_last := strtok_last s2\<rparr> = s2"
      "\<And>w rest. next_token {32} l = Some (w, rest) \<Longrightarrow> cstring (mem s3) cmd w"
      "\<And>w rest. next_token {32} l = Some (w, rest) \<Longrightarrow> shell_process_command (shell_buffer s2) s2 =
         (case known filled_commands w of
            Some f \<Rightarrow> fret (run_command f args s3)
          | None \<Rightarrow> if w = z then Some (Inl NullCall)
                    else fret (printf ''Command not found: %s\<newline>'' [cmd] s3))"
    obtain out where "shell_process_command (shell_buffer s2) s2 = Some (Inr (s3\<lparr>con := term_write out (con s3)\<rparr>))"
      using s3(4) [OF l] w unknown_word [OF s3(3) [OF l]] uptime_prints [of args s3] by auto
    moreover obtain s4 where s4: "printf ''nutshell> '' [] (s3\<lparr>con := term_write out (con s3), shell_index := 0\<rparr>) = Some s4"
      "session s4 n [] es" "echoes s2 s4"
      by (rule session_reply [OF s2(4) s3(2,1)])
    ultimately have "shell_handle_key ke s = Some (Inr s4)" by (simp add: s2(1))
    then show thesis using found s4(2) echoes_trans [OF s2(5) s4(3)] by blast
  qed
qed

text \<open>Enter, on any line that the view follows.\<close>

lemma session_view_line:
  assumes S: "session s (v_free v) (v_line v) (v_entries v)" and z: "null_string s z"
    and k: "key_of ke s = Key_enter" and r: "view_line z v = Some r"
  shows "case r of Inl e \<Rightarrow> shell_handle_key ke s = Some (Inl e)
    | Inr v' \<Rightarrow> v_shift v' = v_shift v \<and> v_caps v' = v_caps v \<and> (\<exists>s1. shell_handle_key ke s = Some (Inr s1) \<and>
        session s1 (v_free v') (v_line v') (v_entries v') \<and> echoes s s1)"
proof (cases "next_token {32} (v_line v)")
  case None
  then show ?thesis using r session_fault [OF S z k] by (auto simp: view_line_def)
next
  case (Some wr)
  obtain w rest where w: "next_token {32} (v_line v) = Some (w, rest)" using Some by (cases wr) simp
  define nm where "nm = (case next_token {32} rest of None \<Rightarrow> [] | Some (nm, _) \<Rightarrow> nm)"
  show ?thesis
  proof (cases "known filled_commands w")
    case None
    show ?thesis
    proof (cases "w = z")
      case True
      then show ?thesis using r None w session_fault [OF S z k] by (auto simp: view_line_def)
    next
      case False
      then have "r = Inr (v\<lparr>v_line := []\<rparr>)" using r None w by (simp add: view_line_def)
      moreover have "known filled_commands w = None \<and> w \<noteq> z \<or> known filled_commands w = Some Cmd_uptime" using None False by simp
      ultimately show ?thesis by - (rule session_answer [OF S z k w], assumption, auto)
    qed
  next
    case (Some c)
    show ?thesis
    proof (cases "c = Cmd_uptime")
      case True
      then have "r = Inr (v\<lparr>v_line := []\<rparr>)" using r Some w by (simp add: view_line_def)
      moreover have "known filled_commands w = None \<and> w \<noteq> z \<or> known filled_commands w = Some Cmd_uptime" using Some True by simp
      ultimately show ?thesis by - (rule session_answer [OF S z k w], assumption, auto)
    next
      case False
      then have c: "edits c" "392 \<le> v_free v"
        and r': "r = Inr (v\<lparr>v_line := [], v_entries := dir_spec c nm (v_entries v), v_free := v_free v - 376\<rparr>)"
        using r Some w by (simp_all add: view_line_def nm_def Let_def split: if_splits)
      have p: "parse_line (v_line v) = Some (c, nm)" using w Some by (simp add: parse_line_def nm_def)
      define n where "n = v_free v - 376"
      have f: "16 \<le> n" "session s (376 + n) (v_line v) (v_entries v)" using c(2) S by (simp_all add: n_def)
      show ?thesis
        by (rule session_enter [OF f(2) k p c(1) f(1)]) (auto simp: r' n_def)
    qed
  qed
qed

section \<open>One interrupt\<close>

text \<open>The keyboard's: the code is read, and the shell handles its key.\<close>

lemma keyboard_irq:
  assumes V: "shows_view z s v" and dev: "delivers (io_dev (con s)) codes"
    and h: "interrupt_handlers s 33 = Some Keyboard_callback" and r: "int_no regs = 33"
    and k: "view_key z (codes (reads s)) v = Some r"
  shows "case r of Inl e \<Rightarrow> irq_handler call_isr regs s = Some (Inl e)
    | Inr v' \<Rightarrow> \<exists>s'. irq_handler call_isr regs s = Some (Inr s') \<and> shows_view z s' v' \<and>
        reads s' = Suc (reads s) \<and> serves s s'"
proof -
  let ?c = "codes (reads s)"
  define sh ca where m: "sh = shift_after ?c (v_shift v)" "ca = caps_after ?c (v_caps v)"
  define log where "log = In 0x60 ?c # Out 0x20 0x20 # io_log (con s)"
  define s1 where "s1 = s\<lparr>con := (con s)\<lparr>io_log := log\<rparr>, shift_pressed := sh, caps_lock_active := ca\<rparr>"
  have "io_dev (con s) (Out 0x20 0x20 # io_log (con s)) 0x60 = ?c"
    using dev by (simp add: delivers_def reads_def)
  then have "read_keyboard (port_out 0x20 0x20 s) = (event_of ?c sh ca, s1)"
    using V by (simp add: read_keyboard_event port_in_def port_out_def inb_def outb_def Let_def m s1_def log_def shows_view_def)
  then have irq: "irq_handler call_isr regs s = shell_handle_key (event_of ?c sh ca) s1"
    using h r by (simp add: irq_handler_def call_handler_def keyboard_callback_def Let_def)
  have S1: "session s1 (v_free v) (v_line v) (v_entries v)" and z1: "null_string s1 z"
    using V by (simp_all add: s1_def session_con null_string_con shows_view_def)
  have one: "reads s1 = Suc (reads s)" "serves s s1" "shift_pressed s1 = sh" "caps_lock_active s1 = ca"
    by (simp_all add: s1_def reads_def serves_def log_def)
  have key: "key_of (event_of ?c sh ca) s1 = typed_key ?c sh ca" by (rule key_of_event) (rule one(4))
  have result: "\<exists>s'. irq_handler call_isr regs s = Some (Inr s') \<and> shows_view z s' v' \<and> reads s' = Suc (reads s) \<and> serves s s'"
    if "shell_handle_key (event_of ?c sh ca) s1 = Some (Inr s')" "echoes s1 s'"
      "session s' (v_free v') (v_line v') (v_entries v')" "v_shift v' = sh" "v_caps v' = ca" for s' v'
  proof -
    have "shows_view z s' v'"
      using that(2-5) one(3,4) null_string_echoes [OF that(2) z1] by (simp add: shows_view_def echoes_def)
    moreover have "reads s' = Suc (reads s)" "serves s s'"
      using echoes_reads [OF that(2)] one(1) serves_trans [OF one(2)] by simp_all
    ultimately show ?thesis using irq that(1) by simp
  qed
  let ?v = "v\<lparr>v_shift := sh, v_caps := ca\<rparr>"
  show ?thesis
  proof (cases "typed_key ?c sh ca = Key_enter")
    case False
    then have v': "r = Inr (?v\<lparr>v_line := edit (typed_key ?c sh ca) (v_line v)\<rparr>)"
      using k by (simp add: view_key_def Let_def m)
    have "key_of (event_of ?c sh ca) s1 \<noteq> Key_enter" using False key by simp
    from session_key [OF S1 this] obtain s' where "shell_handle_key (event_of ?c sh ca) s1 = Some (Inr s')"
      "session s' (v_free v) (edit (typed_key ?c sh ca) (v_line v)) (v_entries v)" "echoes s1 s'"
      unfolding key .
    then show ?thesis using result [of s'] v' by simp
  next
    case True
    then have "view_line z ?v = Some r" "key_of (event_of ?c sh ca) s1 = Key_enter"
      using k key by (simp_all add: view_key_def Let_def m)
    from session_view_line [OF _ z1 this(2,1)] S1 show ?thesis
      using result irq by (cases r) auto
  qed
qed

text \<open>Any other hardware interrupt, with the timer's handler or none.\<close>

lemma other_irq:
  assumes V: "shows_view z s v" and r: "int_no regs \<noteq> 33" "32 \<le> int_no regs" "int_no regs < 48"
    and h: "interrupt_handlers s (ucast (int_no regs)) \<in> {None, Some Timer_handler}"
  obtains s' where "irq_handler call_isr regs s = Some (Inr s')" "shows_view z s' v" "reads s' = reads s" "serves s s'"
proof -
  define eoi where "eoi = port_out 0x20 0x20 (if 40 \<le> int_no regs then port_out 0xA0 0x20 s else s)"
  have e: "shows_view z eoi v" "reads eoi = reads s" "serves s eoi"
    using V by (simp_all add: eoi_def port_out_def outb_def shows_view_def session_con null_string_con reads_def serves_def)
  have n: "\<not> 256 \<le> int_no regs" using r(3) by (simp add: not_le) (erule order.strict_trans, simp)
  show thesis
  proof (cases "interrupt_handlers s (ucast (int_no regs))")
    case None
    then have "irq_handler call_isr regs s = Some (Inr eoi)"
      using r n e(3) by (simp add: irq_handler_def call_handler_def Let_def eoi_def)
    then show thesis using that e by blast
  next
    case (Some f)
    let ?s' = "eoi\<lparr>timer_ticks := timer_ticks eoi + 1\<rparr>"
    have "f = Timer_handler" using Some h by simp
    then have "irq_handler call_isr regs s = Some (Inr ?s')"
      using Some r n e(3) by (simp add: irq_handler_def call_handler_def Let_def eoi_def timer_handler_def)
    moreover have "shows_view z ?s' v" "reads ?s' = reads s" "serves s ?s'"
      using e session_con(2) [where s = eoi and c = "con eoi" and t = "timer_ticks eoi + 1"]
        null_string_con(2) [where s = eoi and c = "con eoi" and t = "timer_ticks eoi + 1"]
      by (simp_all add: shows_view_def reads_def serves_def)
    ultimately show thesis using that by blast
  qed
qed

section \<open>Any schedule\<close>

fun serve :: "registers list \<Rightarrow> 'a shell_scheme \<Rightarrow> (fault + 'a shell_scheme) option" where
  "serve [] s = Some (Inr s)"
| "serve (r # rs) s = fbind (irq_handler call_isr r s) (serve rs)"

definition presses :: "registers list \<Rightarrow> nat" where
  "presses rs = length (filter (\<lambda>r. int_no r = 33) rs)"

text \<open>A hardware interrupt that the session can take.\<close>

definition hardware :: "'a shell_scheme \<Rightarrow> registers \<Rightarrow> bool" where
  "hardware s r \<longleftrightarrow> 32 \<le> int_no r \<and> int_no r < 48 \<and>
     (int_no r \<noteq> 33 \<longrightarrow> interrupt_handlers s (ucast (int_no r)) \<in> {None, Some Timer_handler})"

lemma serve_view:
  assumes "shows_view z s v" "delivers (io_dev (con s)) codes" "interrupt_handlers s 33 = Some Keyboard_callback"
    "interrupts_on s" "\<forall>r \<in> set rs. hardware s r"
    "view_keys z (map codes [reads s..<reads s + presses rs]) v = Some res"
  shows "case res of Inl e \<Rightarrow> serve rs s = Some (Inl e)
    | Inr v' \<Rightarrow> \<exists>s'. serve rs s = Some (Inr s') \<and> shows_view z s' v' \<and> kernel_step\<^sup>*\<^sup>* s s' \<and> serves s s'"
  using assms
proof (induction rs arbitrary: s v)
  case Nil
  then show ?case by (auto simp: presses_def serves_def)
next
  case (Cons r rs)
  have r: "hardware s r" using Cons.prems(5) by simp
  have next_state: ?case if n: "irq_handler call_isr r s = Some (Inr s1)" "shows_view z s1 v1" "serves s s1"
    "view_keys z (map codes [reads s1..<reads s1 + presses rs]) v1 = Some res" for s1 v1
  proof -
    have step: "kernel_step s s1" using n(1) r Cons.prems(4) by (intro kernel_step.irq) (simp_all add: hardware_def)
    have "case res of Inl e \<Rightarrow> serve rs s1 = Some (Inl e)
      | Inr v' \<Rightarrow> \<exists>s'. serve rs s1 = Some (Inr s') \<and> shows_view z s' v' \<and> kernel_step\<^sup>*\<^sup>* s1 s' \<and> serves s1 s'"
      using Cons.IH [OF n(2) _ _ _ _ n(4)] n(3) Cons.prems(2-5) by (auto simp: serves_def hardware_def)
    then show ?thesis
      using n(1) step serves_trans [OF n(3)] by (cases res) (auto intro: converse_rtranclp_into_rtranclp)
  qed
  show ?case
  proof (cases "int_no r = 33")
    case True
    have "[reads s..<reads s + presses (r # rs)] = reads s # [Suc (reads s)..<Suc (reads s) + presses rs]"
      using True by (simp add: presses_def upt_rec)
    then have k: "fbind (view_key z (codes (reads s)) v)
        (view_keys z (map codes [Suc (reads s)..<Suc (reads s) + presses rs])) = Some res"
      using Cons.prems(6) by simp
    then obtain r1 where r1: "view_key z (codes (reads s)) v = Some r1" by (cases "view_key z (codes (reads s)) v") auto
    note one = keyboard_irq [OF Cons.prems(1-3) True r1]
    show ?thesis
    proof (cases r1)
      case (Inl e)
      then show ?thesis using one k r1 by auto
    next
      case (Inr v1)
      then obtain s1 where "irq_handler call_isr r s = Some (Inr s1)" "shows_view z s1 v1" "reads s1 = Suc (reads s)" "serves s s1"
        using one by auto
      moreover have "view_keys z (map codes [Suc (reads s)..<Suc (reads s) + presses rs]) v1 = Some res"
        using k r1 Inr by simp
      ultimately show ?thesis using next_state by simp
    qed
  next
    case False
    from other_irq [OF Cons.prems(1) False] r False obtain s1 where
      "irq_handler call_isr r s = Some (Inr s1)" "shows_view z s1 v" "reads s1 = reads s" "serves s s1"
      by (auto simp: hardware_def)
    then show ?thesis using next_state Cons.prems(6) False by (simp add: presses_def)
  qed
qed

text \<open>
  C2: the system works from the hardware up. From a prompt, with interrupts on, a keyboard whose data
  port delivers scan codes in turn, and any sequence of hardware interrupts, keyboard and timer in
  any order, whose scan codes the view follows: presses and releases, shift and caps lock, erasing,
  and lines ended with Enter, of \<open>touch\<close>, \<open>mkdir\<close>, \<open>rm\<close>, \<open>rmdir\<close>, \<open>ls\<close> and \<open>uptime\<close>, of unknown
  words, or without a word. A line without a word makes the shell call a null pointer, at exactly the
  interrupt of its Enter; so does a first word equal to the string at address 0. With no such line,
  \<open>irq_handler\<close> serves every interrupt without a fault, and the state that is reached is the view's:
  the line typed so far in the buffer, the modifiers, and the entries of the working directory
  changed by each command in turn. Not followed are \<open>help\<close>, \<open>cd\<close> and \<open>cat\<close>, and file commands with
  less than 392 free bytes in one piece, each command counted as 376.
\<close>

theorem hardware_session:
  assumes "at_prompt s B es" "interrupts_on s" "interrupt_handlers s 33 = Some Keyboard_callback" "null_string s z"
    and "delivers (io_dev (con s)) codes" "\<forall>r \<in> set rs. hardware s r"
    and "view_keys z (map codes [reads s..<reads s + presses rs]) \<lparr>v_shift = shift_pressed s,
      v_caps = caps_lock_active s, v_line = [], v_entries = es, v_free = B\<rparr> = Some res"
  shows "case res of Inl e \<Rightarrow> serve rs s = Some (Inl e)
    | Inr v \<Rightarrow> \<exists>s'. serve rs s = Some (Inr s') \<and> reachable s s' \<and> session s' (v_free v) (v_line v) (v_entries v) \<and>
        shift_pressed s' = v_shift v \<and> caps_lock_active s' = v_caps v \<and> interrupts_on s' \<and>
        interrupt_handlers s' = interrupt_handlers s"
proof -
  have start: "shows_view z s \<lparr>v_shift = shift_pressed s, v_caps = caps_lock_active s, v_line = [], v_entries = es, v_free = B\<rparr>"
    using assms(1,4) by (simp add: shows_view_def at_prompt_session)
  have reach: "reachable s s'" if "kernel_step\<^sup>*\<^sup>* s s'" for s'
    using that by induction (auto intro: reachable.intros)
  show ?thesis
    using serve_view [OF start assms(5,3,2,6,7)] reach assms(2)
    by (cases res) (auto simp: shows_view_def serves_def)
qed

text \<open>
  The scan codes of \<open>mkdir A\<close> with shift pressed and released, a wrong letter erased, and Enter; a
  timer interrupt before each. One more Enter, on the empty line, is the null call.
\<close>

definition mkdir_A_codes :: "u8 list" where
  "mkdir_A_codes = [0x32, 0x25, 0x20, 0x17, 0x13, 0x39, 0x30, 0x0E, 0x2A, 0x1E, 0xAA, 0x1C, 0x1C]"

definition mkdir_A_irqs :: "nat \<Rightarrow> registers list" where
  "mkdir_A_irqs n = concat (replicate n [demo_registers\<lparr>int_no := 32\<rparr>, demo_registers\<lparr>int_no := 33\<rparr>])"

lemma map_stream: "map (\<lambda>n. xs ! (n - k)) [k..<k + length xs] = xs"
  by (rule nth_equalityI) simp_all

lemma map_stream_take: "n \<le> length xs \<Longrightarrow> map (\<lambda>n. xs ! (n - k)) [k..<k + n] = take n xs"
  by (rule nth_equalityI) simp_all

lemma mkdir_A_presses: "presses (mkdir_A_irqs n) = n"
  by (induction n) (simp_all add: presses_def mkdir_A_irqs_def)

lemma mkdir_A_view:
  "view_keys [] (take 12 mkdir_A_codes) \<lparr>v_shift = False, v_caps = False, v_line = [],
      v_entries = [(bytes_of ''README'', FS_FILE)], v_free = 8388100\<rparr> =
    Some (Inr \<lparr>v_shift = False, v_caps = False, v_line = [],
      v_entries = [(bytes_of ''README'', FS_FILE), (bytes_of ''A'', FS_DIRECTORY)], v_free = 8387724\<rparr>)"
  "view_keys [] (take 13 mkdir_A_codes) \<lparr>v_shift = False, v_caps = False, v_line = [],
      v_entries = [(bytes_of ''README'', FS_FILE)], v_free = 8388100\<rparr> = Some (Inl NullCall)"
  by (simp_all add: mkdir_A_codes_def view_key_def view_line_def typed_key_def typed_char_def shift_after_def caps_after_def
      scancode_to_ascii_def next_token_def known_def filled_commands_def edits_def)

lemma hardware_session_witness:
  "\<exists>(s :: shell) s'. interrupts_on s \<and> serve (mkdir_A_irqs 12) s = Some (Inr s') \<and>
    session s' 8387724 [] [(bytes_of ''README'', FS_FILE), (bytes_of ''A'', FS_DIRECTORY)] \<and>
    serve (mkdir_A_irqs 13) s = Some (Inl NullCall)"
proof (rule booted)
  fix s :: shell
  assume f: "first_prompt s" "boots loader_image s" "mem s 0 = 0"
  let ?codes = "\<lambda>n. mkdir_A_codes ! (n - reads s)"
  let ?dev = "\<lambda>log p. if p = 0x60 then ?codes (length (filter data_read log)) else 0"
  let ?s = "s\<lparr>con := (con s)\<lparr>io_dev := ?dev\<rparr>, shift_pressed := False, caps_lock_active := False\<rparr>"
  have P: "at_prompt ?s 8388100 [(bytes_of ''README'', FS_FILE)]"
    using f(1) unfolding first_prompt_def at_prompt_session session_con by blast
  have h: "interrupts_on ?s" "interrupt_handlers ?s 33 = Some Keyboard_callback" "interrupt_handlers ?s 32 = Some Timer_handler"
    using f(1) by (simp_all add: first_prompt_def)
  have "shell_buffer s = 0x5000" using f(2) by (simp add: boots_def shell_buffer_def image_sym_def)
  then have z: "null_string ?s []"
    unfolding null_string_con using f(3) by (simp add: null_string_def known_def filled_commands_def apart_def)
  have d: "delivers (io_dev (con ?s)) ?codes" by (simp add: delivers_def)
  have hw: "\<forall>r \<in> set (mkdir_A_irqs n). hardware ?s r" for n
    using h(3) by (auto simp: mkdir_A_irqs_def hardware_def)
  have codes: "map ?codes [reads ?s..<reads ?s + presses (mkdir_A_irqs n)] = take n mkdir_A_codes" if "n \<le> 13" for n
    using map_stream_take [of n mkdir_A_codes "reads s"] that
    by (simp add: mkdir_A_presses reads_def) (simp add: mkdir_A_codes_def)
  have run: "view_keys [] (map ?codes [reads ?s..<reads ?s + presses (mkdir_A_irqs n)]) \<lparr>v_shift = shift_pressed ?s,
      v_caps = caps_lock_active ?s, v_line = [], v_entries = [(bytes_of ''README'', FS_FILE)], v_free = 8388100\<rparr> = Some r"
    if "view_keys [] (take n mkdir_A_codes) \<lparr>v_shift = False, v_caps = False, v_line = [],
      v_entries = [(bytes_of ''README'', FS_FILE)], v_free = 8388100\<rparr> = Some r" "n \<le> 13" for n r
    using that(1) unfolding codes [OF that(2)] by simp
  have "\<exists>s'. serve (mkdir_A_irqs 12) ?s = Some (Inr s') \<and>
      session s' 8387724 [] [(bytes_of ''README'', FS_FILE), (bytes_of ''A'', FS_DIRECTORY)]"
    using hardware_session [OF P h(1,2) z d hw run [OF mkdir_A_view(1)]] by auto
  moreover have "serve (mkdir_A_irqs 13) ?s = Some (Inl NullCall)"
    using hardware_session [OF P h(1,2) z d hw run [OF mkdir_A_view(2)]] by auto
  ultimately show ?thesis using h(1) by blast
qed

end
