(* ===== verification/Heap_Test.thy ===== *)
theory Heap_Test
  imports Heap_Props
begin

text \<open>
  The heap test of the kernel (\<open>src/kernel/tests/heaptest.cpp\<close>), a client of \<open>kmalloc\<close> and \<open>kfree\<close>
  that reports on the console, and what it reports.
\<close>

definition heap_test :: "'a heap_scheme \<Rightarrow> 'a heap_scheme option" where
  "heap_test s = do {
     s \<leftarrow> printf ''\<newline>[TEST] Running Heap (kmalloc/kfree) Test...\<newline>'' [] s;
     (ptr1, s) \<leftarrow> kmalloc 64 s;
     s \<leftarrow> printf ''[TEST] Allocated 64 bytes at %p\<newline>'' [ptr1] s;
     (ptr2, s) \<leftarrow> kmalloc 128 s;
     s \<leftarrow> printf ''[TEST] Allocated 128 bytes at %p\<newline>'' [ptr2] s;
     (ptr3, s) \<leftarrow> kmalloc 32 s;
     s \<leftarrow> printf ''[TEST] Allocated 32 bytes at %p\<newline>'' [ptr3] s;
     if ptr1 \<noteq> 0 \<and> ptr2 \<noteq> 0 \<and> ptr3 \<noteq> 0 then do {
       s \<leftarrow> (if ptr1 < ptr2 \<and> ptr2 < ptr3
             then printf ''[PASS] Allocations do not overlap and are correctly ordered.\<newline>'' [] s
             else printf ''[FAIL] Allocations overlap or are out of order!\<newline>'' [] s);
       s \<leftarrow> kfree ptr2 s;
       s \<leftarrow> printf ''[TEST] Freed second allocation at %p\<newline>'' [ptr2] s;
       (ptr4, s) \<leftarrow> kmalloc 64 s;
       s \<leftarrow> printf ''[TEST] Allocated 64 bytes at %p\<newline>'' [ptr4] s;
       s \<leftarrow> (if ptr4 = ptr2
             then printf ''[PASS] Freed memory was reused correctly.\<newline>'' [] s
             else printf ''[FAIL] Freed memory was not reused properly!\<newline>'' [] s);
       s \<leftarrow> kfree ptr1 s;
       s \<leftarrow> kfree ptr3 s;
       s \<leftarrow> kfree ptr4 s;
       s \<leftarrow> printf ''[TEST] Freed all allocations.\<newline>'' [] s;
       (ptr5, s) \<leftarrow> kmalloc 128 s;
       s \<leftarrow> printf ''[TEST] Allocated 128 bytes at %p\<newline>'' [ptr5] s;
       s \<leftarrow> (if ptr5 = ptr1
             then printf ''[PASS] Free block merging works correctly.\<newline>'' [] s
             else printf ''[FAIL] Free block merging failed!\<newline>'' [] s);
       printf ''[TEST] Heap test completed.\<newline>'' [] s
     } else Some s
   }"

section \<open>What the test reports\<close>

text \<open>
  \<open>track s0 bs s\<close>: since \<open>s0\<close> only memory and console have changed, and the heap is \<open>bs\<close>. The
  rules follow the calls of the test.
\<close>

definition track :: "'a heap_scheme \<Rightarrow> block list \<Rightarrow> 'a heap_scheme \<Rightarrow> bool" where
  "track s0 bs s \<longleftrightarrow> heap_rep s bs \<and> (\<exists>out m. s = heap_after s0 out m)"

lemma heap_rep_print: "heap_rep (s\<lparr>con := c\<rparr>) bs \<longleftrightarrow> heap_rep s bs"
  by (simp add: heap_rep_def)

lemma track_print:
  "track s0 bs s \<Longrightarrow> track s0 bs (s\<lparr>con := term_write out (con s)\<rparr>)"
  unfolding track_def heap_rep_print
proof (elim conjE exE, intro conjI)
  fix out' m
  assume "s = heap_after s0 out' m"
  then have "s\<lparr>con := term_write out (con s)\<rparr> = heap_after s0 (out' @ out) m"
    by (simp add: heap_after_def)
  then show "\<exists>out'' m. s\<lparr>con := term_write out (con s)\<rparr> = heap_after s0 out'' m" by (intro exI)
qed

lemma track_after:
  "track s0 bs s \<Longrightarrow> heap_rep (heap_after s out m) bs' \<Longrightarrow> track s0 bs' (heap_after s out m)"
  unfolding track_def by (elim conjE exE) (simp only: heap_after_twice, blast)

lemma track_printf:
  assumes "numeric f (length args)" "track s0 bs s" "\<And>s. track s0 bs s \<Longrightarrow> returns (k s) P"
  shows "returns (printf f args s \<bind> k) P"
  using assms by (auto intro!: returns_bind returns_printf track_print)

lemma track_kmalloc:
  assumes "track s0 bs s" "first_fit (unat (align16 n)) KERNEL_HEAP_START bs = Some (q, bs')" "p = of_nat q" "n \<noteq> 0"
    "\<And>s. track s0 bs' s \<Longrightarrow> returns (k p s) P"
  shows "returns (kmalloc n s \<bind> (\<lambda>(p, s). k p s)) P"
  using kmalloc_some [OF _ assms(4,2), of s] assms(1,3,5) track_after [OF assms(1)]
  by (auto simp: track_def)

lemma track_kfree:
  assumes "track s0 bs s" "(q, j) \<in> set (payloads KERNEL_HEAP_START bs)" "release q KERNEL_HEAP_START bs = bs'"
    "p = of_nat q" "\<And>s. track s0 bs' s \<Longrightarrow> returns (k s) P"
  shows "returns (kfree p s \<bind> k) P"
  using kfree_live [OF _ assms(2), of s] assms(1,3-5) track_after [OF assms(1)]
  by (auto simp: track_def)

lemma branch:
  "b \<Longrightarrow> returns r P \<Longrightarrow> returns (if b then r else r') P"
  "b \<Longrightarrow> returns (r1 \<bind> k) P \<Longrightarrow> returns ((if b then r1 else r1') \<bind> k) P"
  "\<not> b \<Longrightarrow> returns (r1' \<bind> k) P \<Longrightarrow> returns ((if b then r1 else r1') \<bind> k) P"
  by simp_all

lemma align_test: "unat (align16 64) = 64" "unat (align16 128) = 128" "unat (align16 32) = 32"
  by (simp_all add: unat_align16)

text \<open>The end of the test: the verdict on merging, and the last line.\<close>

definition fail_report :: "u8 list" where
  "fail_report = bytes_of ''[FAIL] Free block merging failed!\<newline>'' @ bytes_of ''[TEST] Heap test completed.\<newline>''"

lemma heap_test_steps:
  assumes "heap_rep s0 [(KERNEL_HEAP_SIZE - 12, True)]"
  shows "returns (heap_test s0) (\<lambda>s. \<exists>out m. s = heap_after s0 (out @ fail_report) m)"
proof -
  have start: "track s0 [(KERNEL_HEAP_SIZE - 12, True)] s0"
    unfolding track_def using assms
    by (auto intro!: exI [of _ "[]"] exI [of _ "mem s0"] simp: heap_after_def term_write_def)
  have "returns (printf ''[FAIL] Free block merging failed!\<newline>'' [] s \<bind>
      printf ''[TEST] Heap test completed.\<newline>'' []) (\<lambda>s. \<exists>out m. s = heap_after s0 (out @ fail_report) m)"
    if "track s0 bs s" for s bs
  proof -
    obtain out m where "s = heap_after s0 out m" using \<open>track s0 bs s\<close> by (auto simp: track_def)
    then show ?thesis
      by (simp add: printf_plain fail_report_def heap_after_def) (metis (no_types, lifting) term_write_append)
  qed
  note fin = this
  show ?thesis
    unfolding heap_test_def
    apply (rule track_printf [OF _ start], simp)
    apply (rule track_kmalloc [where q = "0x80000C" and p = "0x80000C" and bs' = "[(64, False), (8388520, True)]"],
        assumption, simp add: align_test use_block_def, simp, simp)
    apply (rule track_printf, simp, assumption)
    apply (rule track_kmalloc [where q = "0x800058" and p = "0x800058" and bs' = "[(64, False), (128, False), (8388380, True)]"],
        assumption, simp add: align_test use_block_def, simp, simp)
    apply (rule track_printf, simp, assumption)
    apply (rule track_kmalloc [where q = "0x8000E4" and p = "0x8000E4" and bs' = "[(64, False), (128, False), (32, False), (8388336, True)]"],
        assumption, simp add: align_test use_block_def, simp, simp)
    apply (rule track_printf, simp, assumption)
    apply (rule branch(1), simp)
    apply (rule branch(2), simp)
    apply (rule track_printf, simp, assumption)
    apply (rule track_kfree [where q = "0x800058" and j = 128 and bs' = "[(64, False), (128, True), (32, False), (8388336, True)]"],
        assumption, simp, simp add: merge_next_def, simp)
    apply (rule track_printf, simp, assumption)
    apply (rule track_kmalloc [where q = "0x800058" and p = "0x800058" and bs' = "[(64, False), (64, False), (52, True), (32, False), (8388336, True)]"],
        assumption, simp add: align_test use_block_def, simp, simp)
    apply (rule track_printf, simp, assumption)
    apply (rule branch(2), simp)
    apply (rule track_printf, simp, assumption)
    apply (rule track_kfree [where q = "0x80000C" and j = 64 and bs' = "[(64, True), (64, False), (52, True), (32, False), (8388336, True)]"],
        assumption, simp, simp add: merge_next_def, simp)
    apply (rule track_kfree [where q = "0x8000E4" and j = 32 and bs' = "[(64, True), (64, False), (52, True), (8388380, True)]"],
        assumption, simp, simp add: merge_next_def, simp)
    apply (rule track_kfree [where q = "0x800058" and j = 64 and bs' = "[(64, True), (128, True), (8388380, True)]"],
        assumption, simp, simp add: merge_next_def, simp)
    apply (rule track_printf, simp, assumption)
    apply (rule track_kmalloc [where q = "0x800058" and p = "0x800058" and bs' = "[(64, True), (128, False), (8388380, True)]"],
        assumption, simp add: align_test use_block_def, simp, simp)
    apply (rule track_printf, simp, assumption)
    apply (rule branch(3), simp)
    apply (erule fin)
    done
qed

text \<open>
  C40: on a freshly initialised heap the test runs to its end, changes only heap memory and console,
  and its last verdict is "[FAIL] Free block merging failed!": \<open>kfree\<close> merges a block with the one
  after it and never with the one before, so the block of the first 64 bytes stays apart and the
  last request is served from behind it.
\<close>

theorem heap_test_reports_failure:
  assumes "heap_rep s [(KERNEL_HEAP_SIZE - 12, True)]"
  shows "\<exists>out m. heap_test s = Some (s\<lparr>mem := m, con := term_write
    (out @ bytes_of ''[FAIL] Free block merging failed!\<newline>[TEST] Heap test completed.\<newline>'') (con s)\<rparr>)"
proof -
  have "fail_report = bytes_of ''[FAIL] Free block merging failed!\<newline>[TEST] Heap test completed.\<newline>''"
    by (simp add: fail_report_def)
  then show ?thesis
    using heap_test_steps [OF assms] by (auto simp: heap_after_def simp del: list.map elim!: returnsE)
qed

lemma heap_test_reports_failure_witness:
  "\<exists>s s'. init_heap reset_heap = Some s \<and> heap_test s = Some s' \<and> free_list s' = KERNEL_HEAP_START"
  by (rule reset_heap_rep, frule heap_test_reports_failure) (auto simp: heap_rep_def)

end
