(* ===== verification/Pmm.thy ===== *)
theory Pmm
  imports Stdio CString
begin

text \<open>
  The physical memory manager (\<open>include/kernel/memory.h\<close>, \<open>src/kernel/memory.cpp\<close>) and the
  functions that exercise it (\<open>src/kernel/tests/memtest.cpp\<close>). The static members of the class and
  the function-local static \<open>next_free_physical\<close>, \<open>None\<close> until \<open>initialize\<close> first runs, are the
  state; the bitmap is memory.
\<close>

section \<open>State and functions\<close>

record pmm = machine +
  bitmap :: u32
  total_frames :: u32
  used_frames :: u32
  next_free_physical :: "u32 option"

abbreviation (input) PAGE_SIZE :: "'a::numeral" where "PAGE_SIZE \<equiv> 4096"

definition align_up :: "u32 \<Rightarrow> u32 \<Rightarrow> u32" where
  "align_up val align = (val + (align - 1)) AND NOT (align - 1)"

definition set_frame :: "u32 \<Rightarrow> 'a pmm_scheme \<Rightarrow> 'a pmm_scheme" where
  "set_frame frame_addr s =
     (let b = frame_addr mod 32; idx = frame_addr div 32; p = bitmap s + 4 * idx
      in s\<lparr>mem := store32 (mem s) p (load32 (mem s) p OR push_bit (unat b) 1)\<rparr>)"

definition clear_frame :: "u32 \<Rightarrow> 'a pmm_scheme \<Rightarrow> 'a pmm_scheme" where
  "clear_frame frame_addr s =
     (let b = frame_addr mod 32; idx = frame_addr div 32; p = bitmap s + 4 * idx
      in s\<lparr>mem := store32 (mem s) p (load32 (mem s) p AND NOT (push_bit (unat b) 1))\<rparr>)"

definition test_frame :: "u32 \<Rightarrow> 'a pmm_scheme \<Rightarrow> u32" where
  "test_frame frame_addr s =
     (let b = frame_addr mod 32; idx = frame_addr div 32
      in if load32 (mem s) (bitmap s + 4 * idx) AND push_bit (unat b) 1 \<noteq> 0 then 1 else 0)"

text \<open>The number of words of the bitmap, as \<open>initialize\<close> and \<open>first_free\<close> compute it.\<close>

definition bitmap_words :: "u32 \<Rightarrow> u32" where
  "bitmap_words frames = (if frames mod 32 \<noteq> 0 then frames div 32 + 1 else frames div 32)"

text \<open>
  The two loops of \<open>first_free\<close>: over the words of the bitmap and, in a word that is not full, to
  the first zero bit; a bit that stands for no frame ends the inner loop only.
\<close>

fun scan_words :: "ram \<Rightarrow> u32 \<Rightarrow> u32 \<Rightarrow> nat list \<Rightarrow> u32 option" where
  "scan_words m bm frames [] = None"
| "scan_words m bm frames (i # is) =
     (let w = load32 m (bm + 4 * of_nat i) in
      if w \<noteq> 0xFFFFFFFF then
        (case find (\<lambda>j. w AND push_bit j 1 = 0) [0..<32] of
          None \<Rightarrow> scan_words m bm frames is
        | Some j \<Rightarrow>
            (let frame_number = of_nat i * 32 + of_nat j in
             if frame_number < frames then Some frame_number else scan_words m bm frames is))
      else scan_words m bm frames is)"

definition first_free :: "'a pmm_scheme \<Rightarrow> u32" where
  "first_free s =
     (case scan_words (mem s) (bitmap s) (total_frames s) [0..<unat (bitmap_words (total_frames s))] of
        Some frame \<Rightarrow> frame
      | None \<Rightarrow> 0xFFFFFFFF)"

text \<open>The loop that marks the pages below \<open>limit\<close>; the address may wrap, and then it does not end.\<close>

partial_function (option) mark_below :: "u32 \<Rightarrow> u32 \<Rightarrow> 'a pmm_scheme \<Rightarrow> 'a pmm_scheme option" where
  "mark_below addr limit s =
     (if addr < limit
      then let s = set_frame (addr div PAGE_SIZE) s
           in mark_below (addr + PAGE_SIZE) limit (s\<lparr>used_frames := used_frames s + 1\<rparr>)
      else Some s)"

text \<open>\<open>mem_upper\<close> is the third word of the multiboot information.\<close>

definition pmm_initialize :: "u32 \<Rightarrow> 'a pmm_scheme \<Rightarrow> 'a pmm_scheme option" where
  "pmm_initialize multiboot_info_addr s =
     (let mem_upper = load32 (mem s) (multiboot_info_addr + 8);
          mem_bytes = (mem_upper + 1024) * 1024;
          s = s\<lparr>total_frames := mem_bytes div PAGE_SIZE, used_frames := 0\<rparr>;
          bitmap_size = bitmap_words (total_frames s);
          next_free = (case next_free_physical s of Some p \<Rightarrow> p | None \<Rightarrow> sym s ''kernel_end'');
          next_free = align_up next_free PAGE_SIZE;
          s = s\<lparr>bitmap := next_free\<rparr>;
          bytes_needed = bitmap_size * 4;
          next_free = next_free + bytes_needed;
          s = s\<lparr>next_free_physical := Some next_free,
                mem := memset (mem s) (bitmap s) 0 bytes_needed\<rparr>
      in mark_below 0 next_free s)"

definition allocate_frame :: "'a pmm_scheme \<Rightarrow> u32 \<times> 'a pmm_scheme" where
  "allocate_frame s =
     (let frame = first_free s in
      if frame = 0xFFFFFFFF then (0, s)
      else let s = set_frame frame s in
        (frame * PAGE_SIZE, s\<lparr>used_frames := used_frames s + 1\<rparr>))"

definition free_frame :: "u32 \<Rightarrow> 'a pmm_scheme \<Rightarrow> 'a pmm_scheme" where
  "free_frame frame s =
     (let s = clear_frame (frame div PAGE_SIZE) s in s\<lparr>used_frames := used_frames s - 1\<rparr>)"

definition get_memory_size :: "'a pmm_scheme \<Rightarrow> u32" where
  "get_memory_size s = total_frames s * PAGE_SIZE"

definition get_free_frames :: "'a pmm_scheme \<Rightarrow> u32" where
  "get_free_frames s = total_frames s - used_frames s"

section \<open>The test functions\<close>

abbreviation (input) TEST_PATTERN :: u32 where "TEST_PATTERN \<equiv> 0xAA55AA55"

definition test_allocation :: "'a pmm_scheme \<Rightarrow> bool \<times> 'a pmm_scheme" where
  "test_allocation s =
     (let (frame, s) = allocate_frame s in
      if frame = 0 then (False, s)
      else let s = s\<lparr>mem := store32 (mem s) frame TEST_PATTERN\<rparr>;
               success = (load32 (mem s) frame = TEST_PATTERN)
           in (success, free_frame frame s))"

definition test_free :: "'a pmm_scheme \<Rightarrow> bool \<times> 'a pmm_scheme" where
  "test_free s =
     (let (frame1, s) = allocate_frame s in
      if frame1 = 0 then (False, s)
      else let s = free_frame frame1 s;
               (frame2, s) = allocate_frame s;
               success = (frame1 = frame2)
           in (success, free_frame frame2 s))"

text \<open>The first loop: the frames so far, or \<open>None\<close> when it returns false early.\<close>

primrec allocate_patterns :: "nat list \<Rightarrow> u32 list \<Rightarrow> 'a pmm_scheme \<Rightarrow> u32 list option \<times> 'a pmm_scheme" where
  "allocate_patterns [] frames s = (Some frames, s)"
| "allocate_patterns (i # is) frames s =
     (let (frame, s) = allocate_frame s in
      if frame = 0 then (None, s)
      else allocate_patterns is (frames @ [frame])
        (s\<lparr>mem := store32 (mem s) frame (TEST_PATTERN + of_nat i)\<rparr>))"

definition test_multiple_allocations :: "'a pmm_scheme \<Rightarrow> bool \<times> 'a pmm_scheme" where
  "test_multiple_allocations s =
     (case allocate_patterns [0..<10] [] s of
        (None, s) \<Rightarrow> (False, s)
      | (Some frames, s) \<Rightarrow>
          (let success = list_all (\<lambda>i. load32 (mem s) (frames ! i) = TEST_PATTERN + of_nat i) [0..<10]
           in (success, fold free_frame frames s)))"

end
