(* ===== verification/Pmm_Rep.thy ===== *)
theory Pmm_Rep
  imports Pmm
begin

text \<open>
  What the physical memory manager promises, as the locale \<open>frame_pool\<close> (a set of used frames, of
  which clients take the lowest free one and give back their own), the relation between the bitmap
  in memory and that set, and the interpretation of the locale on the functions of \<open>Pmm\<close>.
\<close>

section \<open>The contract of a frame pool\<close>

definition page :: "nat \<Rightarrow> u32" where
  "page f = of_nat (4096 * f)"

lemma unat_page_frame: "f < 0x100000 \<Longrightarrow> unat (page f) = 4096 * f"
  unfolding page_def by (rule unat_of_nat_u32) simp

lemma page_nonzero: "0 < f \<Longrightarrow> f < 0x100000 \<Longrightarrow> page f \<noteq> 0"
  by (simp add: u32_eq_iff unat_page_frame del: unat_eq_0_u32)

text \<open>\<open>rep s U\<close>: the frames \<open>U\<close> are in use; the pool keeps the \<open>reserved\<close> ones for itself.\<close>

locale frame_pool =
  fixes rep :: "'s \<Rightarrow> nat set \<Rightarrow> bool"
    and capacity :: "'s \<Rightarrow> nat"
    and reserved :: "'s \<Rightarrow> nat set"
    and ram_of :: "'s \<Rightarrow> ram"
    and set_ram :: "ram \<Rightarrow> 's \<Rightarrow> 's"
    and take_frame :: "'s \<Rightarrow> u32 \<times> 's"
    and give_frame :: "u32 \<Rightarrow> 's \<Rightarrow> 's"
  assumes take_ok: "rep s U \<Longrightarrow>
      (U = {..<capacity s} \<and> take_frame s = (0, s)) \<or>
      (\<exists>f s'. f < capacity s \<and> f \<notin> U \<and> {..<f} \<subseteq> U \<and> take_frame s = (page f, s') \<and>
        rep s' (insert f U) \<and> capacity s' = capacity s \<and> reserved s' = reserved s \<and>
        (\<forall>x. unat x div 4096 \<notin> reserved s \<longrightarrow> ram_of s' x = ram_of s x))"
    and give_ok: "rep s U \<Longrightarrow> f \<in> U \<Longrightarrow> f \<notin> reserved s \<Longrightarrow>
      rep (give_frame (page f) s) (U - {f}) \<and> capacity (give_frame (page f) s) = capacity s \<and>
      reserved (give_frame (page f) s) = reserved s \<and>
      (\<forall>x. unat x div 4096 \<notin> reserved s \<longrightarrow> ram_of (give_frame (page f) s) x = ram_of s x)"
    and store_ok: "rep s U \<Longrightarrow> f \<notin> reserved s \<Longrightarrow> (\<And>x. unat x div 4096 \<noteq> f \<Longrightarrow> m x = ram_of s x) \<Longrightarrow>
      rep (set_ram m s) U \<and> capacity (set_ram m s) = capacity s \<and> reserved (set_ram m s) = reserved s"
    and ram_of_set_ram: "ram_of (set_ram m s) = m"
    and bounds: "rep s U \<Longrightarrow> reserved s \<subseteq> U \<and> 0 \<in> reserved s \<and> U \<subseteq> {..<capacity s} \<and> capacity s < 0x100000"

text \<open>A client: it takes frames, gives back frames it owns, and stores bytes into them.\<close>

datatype pool_op = Take | Give nat | Write nat nat u8

fun pool_step :: "('s \<Rightarrow> ram) \<Rightarrow> (ram \<Rightarrow> 's \<Rightarrow> 's) \<Rightarrow> ('s \<Rightarrow> u32 \<times> 's) \<Rightarrow> (u32 \<Rightarrow> 's \<Rightarrow> 's) \<Rightarrow>
    pool_op \<Rightarrow> 's \<times> nat list \<Rightarrow> 's \<times> nat list" where
  "pool_step rd wr tak giv Take (s, own) =
     (let (p, s) = tak s in if p = 0 then (s, own) else (s, (unat p div 4096) # own))"
| "pool_step rd wr tak giv (Give f) (s, own) =
     (if f \<in> set own then (giv (page f) s, removeAll f own) else (s, own))"
| "pool_step rd wr tak giv (Write f i v) (s, own) =
     (if f \<in> set own \<and> i < 4096 then (wr ((rd s)(page f + of_nat i := v)) s, own) else (s, own))"

context frame_pool
begin

text \<open>The client's frames are used, distinct, and apart from those that were in use before.\<close>

definition good :: "nat set \<Rightarrow> 's \<times> nat list \<Rightarrow> bool" where
  "good U c \<longleftrightarrow> (case c of (s, own) \<Rightarrow>
     rep s (U \<union> set own) \<and> distinct own \<and> U \<inter> set own = {} \<and> reserved s \<subseteq> U)"

lemma step_good:
  assumes "good U c"
  shows "good U (pool_step ram_of set_ram take_frame give_frame x c)"
proof -
  obtain s own where c: "c = (s, own)" by (cases c)
  have rep: "rep s (U \<union> set own)" and d: "distinct own" "U \<inter> set own = {}" "reserved s \<subseteq> U"
    using assms by (simp_all add: good_def c)
  note b = bounds [OF rep]
  show ?thesis
  proof (cases x)
    case Take
    show ?thesis
      using take_ok [OF rep]
    proof (elim disjE exE conjE)
      assume "take_frame s = (0, s)"
      then show ?thesis using assms Take c by simp
    next
      fix f s'
      assume f: "f < capacity s" "f \<notin> U \<union> set own" "take_frame s = (page f, s')"
        "rep s' (insert f (U \<union> set own))" "reserved s' = reserved s"
      have "0 \<in> U \<union> set own"
        using b by (meson subsetD)
      then have "f \<noteq> 0"
        using f(2) by metis
      then have nz: "0 < f"
        by (rule neq0_conv [THEN iffD1])
      have lt: "f < 0x100000"
        using f(1) b by linarith
      note p = unat_page_frame [OF lt] page_nonzero [OF nz lt]
      then show ?thesis
        using f d Take c by (simp add: good_def)
    qed
  next
    case (Give f)
    show ?thesis
    proof (cases "f \<in> set own")
      case True
      then have "f \<notin> reserved s" using d by auto
      moreover have "U \<union> set own - {f} = U \<union> set (removeAll f own)"
        using True d by auto
      ultimately show ?thesis
        using give_ok [OF rep, of f] True d Give c by (auto simp: good_def distinct_removeAll)
    qed (use assms Give c in simp)
  next
    case (Write f i v)
    show ?thesis
    proof (cases "f \<in> set own \<and> i < 4096")
      case True
      then have f: "f \<notin> reserved s" "f < 0x100000"
        using d b by auto
      have "unat (page f + of_nat i) = 4096 * f + i"
        using f(2) True by (subst unat_add_of_nat) (simp_all add: unat_page_frame)
      then have "((ram_of s)(page f + of_nat i := v)) x = ram_of s x" if "unat x div 4096 \<noteq> f" for x
        using that True by auto
      then have "rep (set_ram ((ram_of s)(page f + of_nat i := v)) s) (U \<union> set own) \<and>
          reserved (set_ram ((ram_of s)(page f + of_nat i := v)) s) = reserved s"
        using store_ok [OF rep f(1), of "(ram_of s)(page f + of_nat i := v)"] by blast
      then show ?thesis
        using True d Write c by (simp add: good_def del: fun_upd_apply)
    qed (use assms Write c in \<open>auto simp del: fun_upd_apply\<close>)
  qed
qed

lemma run_good: "good U c \<Longrightarrow> good U (fold (pool_step ram_of set_ram take_frame give_frame) ops c)"
  by (induction ops arbitrary: c) (simp_all add: step_good)

text \<open>Taking, giving back and taking again yields the same frame.\<close>

lemma take_again:
  assumes "rep s U" "take_frame s = (p, s1)" "p \<noteq> 0"
  obtains f where "p = page f" "f \<notin> U" "f < capacity s" "rep s1 (insert f U)" "f \<notin> reserved s1"
    "rep (give_frame p s1) U" "fst (take_frame (give_frame p s1)) = p"
proof -
  note b = bounds [OF assms(1)]
  obtain f where f: "f < capacity s" "f \<notin> U" "{..<f} \<subseteq> U" "p = page f" "rep s1 (insert f U)"
    "capacity s1 = capacity s" "reserved s1 = reserved s"
    using take_ok [OF assms(1)] assms(2,3) by auto
  have r: "f \<notin> reserved s1"
    using f b by auto
  have undo: "rep (give_frame p s1) U" "capacity (give_frame p s1) = capacity s"
    using give_ok [OF f(5) insertI1 r] f by (simp_all add: insert_Diff_if)
  have "fst (take_frame (give_frame p s1)) = p"
    using take_ok [OF undo(1)]
  proof (elim disjE exE conjE)
    assume "U = {..<capacity (give_frame p s1)}"
    then show ?thesis using f(1,2) undo(2) by auto
  next
    fix g s'
    assume g: "g \<notin> U" "{..<g} \<subseteq> U" "take_frame (give_frame p s1) = (page g, s')"
    have "\<not> g < f" "\<not> f < g"
      using g(1,2) f(2,3) by auto
    then show ?thesis using g(3) f(4) by simp
  qed
  with f r undo(1) that show thesis by blast
qed

end

section \<open>The bitmap\<close>

definition used_bit :: "ram \<Rightarrow> u32 \<Rightarrow> nat \<Rightarrow> bool" where
  "used_bit m bm i = bit (load32 m (bm + 4 * of_nat (i div 32))) (i mod 32)"

lemma unat_bitmap_words: "unat (bitmap_words t) = (unat t + 31) div 32"
proof -
  have d: "unat (t div 32) = unat t div 32" "unat (t mod 32) = unat t mod 32"
    by (simp_all add: unat_div unat_mod)
  moreover have "unat t div 32 < 0x8000000"
    using unat_u32_less [of t] by (intro less_mult_imp_div_less) simp
  then have "unat (t div 32 + 1) = unat t div 32 + 1"
    using d(1) by (subst unat_add_one) simp_all
  moreover have "t mod 32 = 0 \<longleftrightarrow> unat t mod 32 = 0"
    by (simp only: u32_eq_iff d unsigned_0)
  moreover have "(x + 31) div 32 = (if x mod 32 = 0 then x div 32 else x div 32 + 1)" for x :: nat
  proof -
    define q r where "q = x div 32" and "r = x mod 32"
    have x: "x = 32 * q + r" "r < 32"
      by (simp_all add: q_def r_def)
    have "(32 * q + r + 31) div 32 = q + 1" if "0 < r"
      by (rule div_nat_eqI) (use x(2) that in simp_all)
    moreover have "(32 * q + r + 31) div 32 = q" if "r = 0"
      by (rule div_nat_eqI) (use that in simp_all)
    ultimately have "(x + 31) div 32 = (if r = 0 then q else q + 1)"
      using x(1) by simp
    then show ?thesis
      by (simp only: q_def r_def)
  qed
  ultimately show ?thesis
    by (simp only: bitmap_words_def split: if_split) simp
qed

lemma word_address:
  assumes "fits bm (4 * n)" "a < n"
  shows "unat (bm + 4 * of_nat a) = unat bm + 4 * a" "fits (bm + 4 * of_nat a) 4"
proof -
  have "bm + 4 * of_nat a = bm + of_nat (4 * a)" by simp
  moreover have "unat (bm + of_nat (4 * a)) = unat bm + 4 * a"
    using assms by (intro unat_add_of_nat) (simp add: fits_def)
  ultimately show "unat (bm + 4 * of_nat a) = unat bm + 4 * a" by simp
  with assms show "fits (bm + 4 * of_nat a) 4" by (simp add: fits_def)
qed

lemma load_word_store:
  assumes "fits bm (4 * n)" "a < n" "b < n"
  shows "load32 (store32 m (bm + 4 * of_nat a) v) (bm + 4 * of_nat b) =
    (if a = b then v else load32 m (bm + 4 * of_nat b))"
proof (cases "a = b")
  case False
  then have "apart (bm + 4 * of_nat a) 4 (bm + 4 * of_nat b) 4"
    using word_address [OF assms(1,2)] word_address [OF assms(1,3)] by (auto simp: apart_def)
  with False show ?thesis
    using load32_store32_other word_address(2) [OF assms(1,2)] word_address(2) [OF assms(1,3)] by simp
qed simp

lemma bitmap_index:
  fixes f :: u32
  assumes "unat f = i" "i < 32 * n" "n < 0x8000000"
  shows "f div 32 = of_nat (i div 32)" "unat (f mod 32) = i mod 32" "i div 32 < n"
proof -
  show "f div 32 = of_nat (i div 32)"
  proof -
    have "i div 32 < 4294967296"
      using unat_u32_less [of f] assms(1) by linarith
    then show ?thesis
      using assms(1) unfolding u32_eq_iff by (subst unat_of_nat_u32) (simp_all add: unat_div)
  qed
  show "unat (f mod 32) = i mod 32"
    using assms(1) by (simp add: unat_mod)
  show "i div 32 < n" using assms(2) by (simp add: less_mult_imp_div_less mult.commute)
qed

lemma bit_one_shift: "j < 32 \<Longrightarrow> bit (push_bit j (1 :: u32)) k \<longleftrightarrow> k = j"
  by (auto simp: bit_simps)

lemma used_bit_upd:
  assumes "fits bm (4 * n)" "n < 0x8000000" "i < 32 * n" "i' < 32 * n"
  defines "p \<equiv> bm + 4 * of_nat (i div 32)"
  shows "used_bit (store32 m p (load32 m p OR push_bit (i mod 32) 1)) bm i' \<longleftrightarrow> i' = i \<or> used_bit m bm i'"
    and "used_bit (store32 m p (load32 m p AND NOT (push_bit (i mod 32) 1))) bm i' \<longleftrightarrow> i' \<noteq> i \<and> used_bit m bm i'"
proof -
  have d: "i div 32 < n" "i' div 32 < n"
    using assms(3,4) by (simp_all add: less_mult_imp_div_less mult.commute)
  have eq: "i' = i \<longleftrightarrow> i' div 32 = i div 32 \<and> i' mod 32 = i mod 32"
    by (metis div_mult_mod_eq)
  have b: "bit (push_bit (i mod 32) (1 :: u32)) k \<longleftrightarrow> k = i mod 32" for k
    by (rule bit_one_shift) simp
  note l = load_word_store [OF assms(1) d, folded p_def]
  show "used_bit (store32 m p (load32 m p OR push_bit (i mod 32) 1)) bm i' \<longleftrightarrow> i' = i \<or> used_bit m bm i'"
    unfolding used_bit_def l eq by (simp only: p_def bit_or_iff b split: if_split) auto
  have i': "i' mod 32 < LENGTH(32)" by simp
  show "used_bit (store32 m p (load32 m p AND NOT (push_bit (i mod 32) 1))) bm i' \<longleftrightarrow> i' \<noteq> i \<and> used_bit m bm i'"
    unfolding used_bit_def l eq using i' by (simp only: p_def bit_and_iff bit_not_iff b possible_bit_word split: if_split) auto
qed

text \<open>The functions on one bit.\<close>

lemma set_frame_bit:
  assumes "fits (bitmap s) (4 * n)" "n < 0x8000000" "unat f = i" "i < 32 * n"
  shows "\<exists>m'. set_frame f s = s\<lparr>mem := m'\<rparr> \<and>
    (\<forall>i' < 32 * n. used_bit m' (bitmap s) i' \<longleftrightarrow> i' = i \<or> used_bit (mem s) (bitmap s) i') \<and>
    (\<forall>x. \<not> in_region x (bitmap s) (4 * n) \<longrightarrow> m' x = mem s x)"
proof -
  note ix = bitmap_index [OF assms(3,4,2)]
  let ?p = "bitmap s + 4 * of_nat (i div 32)"
  have "\<not> in_region x ?p 4" if "\<not> in_region x (bitmap s) (4 * n)" for x
    using that word_address [OF assms(1) ix(3)] ix(3) by (auto simp: in_region_def)
  then show ?thesis
    using used_bit_upd(1) [OF assms(1,2,4)] word_address(2) [OF assms(1) ix(3)]
    by (intro exI [of _ "store32 (mem s) ?p (load32 (mem s) ?p OR push_bit (i mod 32) 1)"])
      (auto simp: set_frame_def Let_def ix store32_other)
qed

lemma clear_frame_bit:
  assumes "fits (bitmap s) (4 * n)" "n < 0x8000000" "unat f = i" "i < 32 * n"
  shows "\<exists>m'. clear_frame f s = s\<lparr>mem := m'\<rparr> \<and>
    (\<forall>i' < 32 * n. used_bit m' (bitmap s) i' \<longleftrightarrow> i' \<noteq> i \<and> used_bit (mem s) (bitmap s) i') \<and>
    (\<forall>x. \<not> in_region x (bitmap s) (4 * n) \<longrightarrow> m' x = mem s x)"
proof -
  note ix = bitmap_index [OF assms(3,4,2)]
  let ?p = "bitmap s + 4 * of_nat (i div 32)"
  have "\<not> in_region x ?p 4" if "\<not> in_region x (bitmap s) (4 * n)" for x
    using that word_address [OF assms(1) ix(3)] ix(3) by (auto simp: in_region_def)
  then show ?thesis
    using used_bit_upd(2) [OF assms(1,2,4)] word_address(2) [OF assms(1) ix(3)]
    by (intro exI [of _ "store32 (mem s) ?p (load32 (mem s) ?p AND NOT (push_bit (i mod 32) 1))"])
      (auto simp: clear_frame_def Let_def ix store32_other)
qed

section \<open>The search\<close>

text \<open>The reference: the least frame whose bit is clear.\<close>

definition least_free :: "ram \<Rightarrow> u32 \<Rightarrow> nat \<Rightarrow> nat \<Rightarrow> nat option" where
  "least_free m bm from t = find (\<lambda>i. \<not> used_bit m bm i) [from..<t]"

lemma least_free_None: "least_free m bm from t = None \<longleftrightarrow> (\<forall>i. from \<le> i \<and> i < t \<longrightarrow> used_bit m bm i)"
  by (auto simp: least_free_def find_None_iff)

lemma least_freeI:
  assumes "from \<le> f" "f < t" "\<not> used_bit m bm f" "\<And>i. from \<le> i \<Longrightarrow> i < f \<Longrightarrow> used_bit m bm i"
  shows "least_free m bm from t = Some f"
proof -
  have "[from..<t] ! (f - from) = f" "f - from < length [from..<t]"
    using assms(1,2) by simp_all
  moreover have "used_bit m bm ([from..<t] ! j)" if "j < f - from" for j
    using that assms by simp
  ultimately show ?thesis
    using assms(1,3) unfolding least_free_def find_Some_iff by (intro exI [of _ "f - from"]) auto
qed

lemma least_freeD:
  assumes "least_free m bm from t = Some f"
  shows "from \<le> f" "f < t" "\<not> used_bit m bm f" "\<And>i. from \<le> i \<Longrightarrow> i < f \<Longrightarrow> used_bit m bm i"
proof -
  obtain j where j: "j < length [from..<t]" "\<not> used_bit m bm ([from..<t] ! j)" "f = [from..<t] ! j"
    "\<forall>k < j. used_bit m bm ([from..<t] ! k)"
    using assms by (auto simp: least_free_def find_Some_iff)
  then have f: "f = from + j" "from + j < t" by auto
  then show "from \<le> f" "f < t" "\<not> used_bit m bm f" using j by auto
  show "used_bit m bm i" if "from \<le> i" "i < f" for i
    using j(4) that f by (auto dest!: spec [of _ "i - from"])
qed

lemma full_word: "(w :: u32) \<noteq> 0xFFFFFFFF \<longleftrightarrow> (\<exists>j < 32. \<not> bit w j)"
proof -
  have "(0xFFFFFFFF :: u32) = mask 32"
    by (simp add: mask_eq_exp_minus_1)
  then have "w = 0xFFFFFFFF \<longleftrightarrow> (\<forall>j < 32. bit w j)"
    by (auto simp: bit_eq_iff bit_mask_iff)
  then show ?thesis by blast
qed

lemma bit_clear: "j < 32 \<Longrightarrow> (w AND 2 ^ j = 0) \<longleftrightarrow> \<not> bit (w :: u32) j"
proof -
  assume j: "j < 32"
  have p: "(2 :: u32) ^ j = push_bit j 1"
    by simp
  have "bit (w AND 2 ^ j) k \<longleftrightarrow> bit w k \<and> k = j" for k
    unfolding p bit_and_iff bit_one_shift [OF j] ..
  moreover have "w AND 2 ^ j = 0 \<longleftrightarrow> (\<forall>k. \<not> bit (w AND 2 ^ j) k)"
    by (metis bit_0_eq bot_apply bot_bool_def bit_word_eqI)
  ultimately show ?thesis by auto
qed

lemma used_bit_word: "j < 32 \<Longrightarrow> used_bit m bm (32 * k + j) \<longleftrightarrow> bit (load32 m (bm + 4 * of_nat k)) j"
  by (simp add: used_bit_def)

lemma scan_words_least:
  assumes "unat frames < 0x4000000" "unat frames \<le> 32 * n" "n < 0x8000000" "k \<le> n"
  shows "scan_words m bm frames [k..<n] = map_option of_nat (least_free m bm (32 * k) (unat frames))"
  using assms(4)
proof (induction "n - k" arbitrary: k)
  case 0
  then have "k = n" by simp
  then show ?case
    using assms(2) by (simp add: least_free_def)
next
  case (Suc d)
  then have k: "k < n" "[k..<n] = k # [Suc k..<n]"
    by (simp_all add: upt_rec)
  have IH: "scan_words m bm frames [Suc k..<n] = map_option of_nat (least_free m bm (32 * Suc k) (unat frames))"
    using Suc k by auto
  let ?w = "load32 m (bm + 4 * of_nat k)"
  note ub = used_bit_word [of _ m bm k]
  have skip: "least_free m bm (32 * k) (unat frames) = least_free m bm (32 * Suc k) (unat frames)"
    if full: "\<And>i. 32 * k \<le> i \<Longrightarrow> i < 32 * Suc k \<Longrightarrow> i < unat frames \<Longrightarrow> used_bit m bm i"
  proof (cases "least_free m bm (32 * Suc k) (unat frames)")
    case None
    with full show ?thesis
      by (subst None, subst least_free_None) (metis least_free_None not_le)
  next
    case (Some f)
    note f = least_freeD [OF Some]
    show ?thesis
      unfolding Some using f full by (intro least_freeI) (auto, metis add.commute linorder_not_le mult_Suc_right order.strict_trans)
  qed
  have pos: "\<exists>j. i = 32 * k + j \<and> j < 32" if "32 * k \<le> i" "i < 32 * Suc k" for i
    using that by (intro exI [of _ "i - 32 * k"]) auto
  show ?case
  proof (cases "find (\<lambda>j. ?w AND push_bit j 1 = 0) [0..<32]")
    case None
    then have "\<forall>j < 32. bit ?w j"
      by (auto simp: find_None_iff bit_clear)
    then have "least_free m bm (32 * k) (unat frames) = least_free m bm (32 * Suc k) (unat frames)"
      using pos ub by (intro skip) blast
    then show ?thesis
      using IH k(2) None by (simp add: Let_def)
  next
    case (Some j)
    then have j: "j < 32" "\<not> bit ?w j" "\<And>i. i < j \<Longrightarrow> bit ?w i"
      by (auto simp: find_Some_iff bit_clear)
    then have w: "?w \<noteq> 0xFFFFFFFF" unfolding full_word by blast
    let ?f = "32 * k + j"
    have num: "(of_nat k * 32 + of_nat j :: u32) = of_nat ?f"
      by (simp add: mult.commute)
    have "?f < 4294967296"
      using k(1) assms(3) j(1) by linarith
    then have u: "unat (of_nat ?f :: u32) = ?f"
      by (rule unat_of_nat_u32)
    have before: "used_bit m bm i" if le: "32 * k \<le> i" "i < ?f" for i
    proof -
      obtain i' where "i = 32 * k + i'" "i' < 32" using pos [of i] le j(1) by auto
      then show ?thesis using le j(3) ub by simp
    qed
    have less: "(of_nat ?f :: u32) < frames \<longleftrightarrow> ?f < unat frames"
      unfolding u32_less_iff u ..
    have cond: "(of_nat k * 32 + of_nat j :: u32) < frames \<longleftrightarrow> ?f < unat frames"
      unfolding num less ..
    show ?thesis
    proof (cases "?f < unat frames")
      case True
      have "least_free m bm (32 * k) (unat frames) = Some ?f"
        using True before j ub by (intro least_freeI) auto
      then show ?thesis
        using True w Some cond unfolding k(2) by (simp add: Let_def mult.commute)
    next
      case False
      then have "least_free m bm (32 * k) (unat frames) = least_free m bm (32 * Suc k) (unat frames)"
        using before by (intro skip) simp
      then show ?thesis
        using False w Some IH cond unfolding k(2) by (simp add: Let_def mult.commute)
    qed
  qed
qed

lemma first_free_least:
  assumes "unat (total_frames s) < 0x4000000"
  shows "first_free s = (case least_free (mem s) (bitmap s) 0 (unat (total_frames s)) of
    Some f \<Rightarrow> of_nat f | None \<Rightarrow> 0xFFFFFFFF)"
proof -
  let ?n = "unat (bitmap_words (total_frames s))"
  have "x \<le> 32 * ((x + 31) div 32)" for x :: nat
    by linarith
  then have "unat (total_frames s) \<le> 32 * ?n"
    by (simp only: unat_bitmap_words)
  moreover have "?n < 0x8000000"
    using assms unfolding unat_bitmap_words by (intro less_mult_imp_div_less) simp
  ultimately show ?thesis
    using scan_words_least [OF assms, of ?n 0 "mem s" "bitmap s"]
    by (auto simp: first_free_def split: option.splits)
qed

section \<open>The representation\<close>

definition words_of :: "'a pmm_scheme \<Rightarrow> nat" where
  "words_of s = (unat (total_frames s) + 31) div 32"

text \<open>The frames that hold the bitmap, and frame 0.\<close>

definition own_frames :: "'a pmm_scheme \<Rightarrow> nat set" where
  "own_frames s = insert 0 {unat x div 4096 | x. in_region x (bitmap s) (4 * words_of s)}"

definition pmm_rep :: "'a pmm_scheme \<Rightarrow> nat set \<Rightarrow> bool" where
  "pmm_rep s U \<longleftrightarrow> U = {i. i < unat (total_frames s) \<and> used_bit (mem s) (bitmap s) i} \<and>
     unat (total_frames s) < 0x100000 \<and> fits (bitmap s) (4 * words_of s) \<and> own_frames s \<subseteq> U \<and>
     unat (used_frames s) = card U"

lemma words_bounds:
  assumes "unat (total_frames s) < 0x100000"
  shows "words_of s < 0x8000000" "i < unat (total_frames s) \<Longrightarrow> i < 32 * words_of s"
proof -
  show "words_of s < 0x8000000"
    using assms unfolding words_of_def by (intro less_mult_imp_div_less) simp
  have "x \<le> 32 * ((x + 31) div 32)" for x :: nat
    by linarith
  then have "unat (total_frames s) \<le> 32 * words_of s"
    by (simp only: words_of_def)
  then show "i < unat (total_frames s) \<Longrightarrow> i < 32 * words_of s"
    by (rule less_le_trans [rotated])
qed

lemma pmm_sel [simp]:
  "words_of (s\<lparr>mem := m\<rparr>) = words_of s" "words_of (s\<lparr>used_frames := u\<rparr>) = words_of s"
  "own_frames (s\<lparr>mem := m\<rparr>) = own_frames s" "own_frames (s\<lparr>used_frames := u\<rparr>) = own_frames s"
  by (simp_all add: words_of_def own_frames_def)

lemma outside_own: "unat x div 4096 \<notin> own_frames s \<Longrightarrow> \<not> in_region x (bitmap s) (4 * words_of s)"
  by (auto simp: own_frames_def)

lemma pmm_store:
  assumes "pmm_rep s U" "f \<notin> own_frames s" "\<And>x. unat x div 4096 \<noteq> f \<Longrightarrow> m x = mem s x"
  shows "pmm_rep (s\<lparr>mem := m\<rparr>) U"
proof -
  have fits: "fits (bitmap s) (4 * words_of s)" and tot: "unat (total_frames s) < 0x100000"
    using assms(1) by (simp_all add: pmm_rep_def)
  have "used_bit m (bitmap s) i = used_bit (mem s) (bitmap s) i" if "i < unat (total_frames s)" for i
  proof -
    have "i div 32 < words_of s"
      using words_bounds(2) [OF tot that] by (simp add: less_mult_imp_div_less mult.commute)
    note a = word_address [OF fits this]
    have "agree_on (mem s) m (bitmap s + 4 * of_nat (i div 32)) 4"
      unfolding agree_on_def
    proof (intro allI impI)
      fix x assume "in_region x (bitmap s + 4 * of_nat (i div 32)) 4"
      then have "in_region x (bitmap s) (4 * words_of s)"
        using a \<open>i div 32 < words_of s\<close> by (auto simp: in_region_def)
      then have "unat x div 4096 \<in> own_frames s"
        by (auto simp: own_frames_def)
      then show "m x = mem s x"
        using assms(2,3) by metis
    qed
    then show ?thesis
      unfolding used_bit_def using agree_on_load32 a(2) by metis
  qed
  then show ?thesis
    using assms(1) by (auto simp: pmm_rep_def)
qed

lemma pmm_bounds:
  "pmm_rep s U \<Longrightarrow> own_frames s \<subseteq> U \<and> 0 \<in> own_frames s \<and> U \<subseteq> {..<unat (total_frames s)} \<and>
    unat (total_frames s) < 0x100000"
  by (auto simp: pmm_rep_def own_frames_def)

lemma pmm_finite: "pmm_rep s U \<Longrightarrow> finite U"
  by (simp add: pmm_rep_def)

lemma pmm_card: "pmm_rep s U \<Longrightarrow> card U < 0x100000"
  using pmm_bounds card_mono [of "{..<unat (total_frames s)}" U] by fastforce

lemma frame_word: "f < 0x100000 \<Longrightarrow> unat (of_nat f :: u32) = f" "f < 0x100000 \<Longrightarrow> of_nat f * 4096 = page f"
  "f < 0x100000 \<Longrightarrow> page f div 4096 = of_nat f"
proof -
  assume f: "f < 0x100000"
  show u: "unat (of_nat f :: u32) = f"
    using f by (intro unat_of_nat_u32) simp
  show "of_nat f * 4096 = page f"
    by (simp add: page_def mult.commute)
  show "page f div 4096 = of_nat f"
    unfolding u32_eq_iff by (simp only: unat_div unat_page_frame [OF f] u) simp
qed

lemma pmm_take:
  assumes "pmm_rep s U"
  shows "(U = {..<unat (total_frames s)} \<and> allocate_frame s = (0, s)) \<or>
      (\<exists>f s'. f < unat (total_frames s) \<and> f \<notin> U \<and> {..<f} \<subseteq> U \<and> allocate_frame s = (page f, s') \<and>
        pmm_rep s' (insert f U) \<and> unat (total_frames s') = unat (total_frames s) \<and> own_frames s' = own_frames s \<and>
        (\<forall>x. unat x div 4096 \<notin> own_frames s \<longrightarrow> mem s' x = mem s x))"
proof -
  let ?t = "unat (total_frames s)"
  have t: "?t < 0x100000" and fits: "fits (bitmap s) (4 * words_of s)"
    and U: "U = {i. i < ?t \<and> used_bit (mem s) (bitmap s) i}" and cnt: "unat (used_frames s) = card U"
    using assms by (simp_all add: pmm_rep_def)
  note ff = first_free_least [of s]
  show ?thesis
  proof (cases "least_free (mem s) (bitmap s) 0 ?t")
    case None
    then have "U = {..<?t}"
      using U by (auto simp: least_free_None)
    moreover have "allocate_frame s = (0, s)"
      using ff None t by (simp add: allocate_frame_def)
    ultimately show ?thesis by blast
  next
    case (Some f)
    note lf = least_freeD [OF Some]
    have f: "f < 0x100000" using lf(2) t by simp
    have "first_free s = of_nat f"
      using ff Some t by simp
    moreover have "(of_nat f :: u32) \<noteq> 0xFFFFFFFF"
      using f by (simp add: u32_eq_iff frame_word(1))
    ultimately have alloc: "allocate_frame s = (page f, (set_frame (of_nat f) s)\<lparr>used_frames := used_frames (set_frame (of_nat f) s) + 1\<rparr>)"
      by (simp add: allocate_frame_def Let_def frame_word(2) [OF f])
    obtain m' where m': "set_frame (of_nat f) s = s\<lparr>mem := m'\<rparr>"
      "\<forall>i' < 32 * words_of s. used_bit m' (bitmap s) i' \<longleftrightarrow> i' = f \<or> used_bit (mem s) (bitmap s) i'"
      "\<forall>x. \<not> in_region x (bitmap s) (4 * words_of s) \<longrightarrow> m' x = mem s x"
      using set_frame_bit [OF fits words_bounds(1) [OF t] frame_word(1) [OF f] words_bounds(2) [OF t lf(2)]] by blast
    let ?s' = "s\<lparr>mem := m', used_frames := used_frames s + 1\<rparr>"
    have notin: "f \<notin> U" using lf(3) U by simp
    have "unat (used_frames s + 1) = Suc (card U)"
      using cnt pmm_card [OF assms] by (simp add: unat_add_one)
    moreover have "card (insert f U) = Suc (card U)"
      using notin pmm_finite [OF assms] by simp
    moreover have "insert f U = {i. i < ?t \<and> used_bit m' (bitmap s) i}"
      using U lf(2) m'(2) words_bounds(2) [OF t] by auto
    moreover have "own_frames s \<subseteq> insert f U"
      using pmm_bounds [OF assms] by blast
    ultimately have "pmm_rep ?s' (insert f U)"
      using t fits unfolding pmm_rep_def by simp
    moreover have "{..<f} \<subseteq> U"
      using lf(2,4) U by auto
    moreover have "allocate_frame s = (page f, ?s')"
      using alloc m'(1) by simp
    ultimately show ?thesis
      using lf(2) notin m'(3) outside_own by (intro disjI2 exI [of _ f] exI [of _ ?s']) auto
  qed
qed

lemma pmm_give:
  assumes "pmm_rep s U" "f \<in> U" "f \<notin> own_frames s"
  shows "pmm_rep (free_frame (page f) s) (U - {f}) \<and>
    unat (total_frames (free_frame (page f) s)) = unat (total_frames s) \<and>
    own_frames (free_frame (page f) s) = own_frames s \<and>
    (\<forall>x. unat x div 4096 \<notin> own_frames s \<longrightarrow> mem (free_frame (page f) s) x = mem s x)"
proof -
  let ?t = "unat (total_frames s)"
  have t: "?t < 0x100000" and fits: "fits (bitmap s) (4 * words_of s)"
    and U: "U = {i. i < ?t \<and> used_bit (mem s) (bitmap s) i}" and cnt: "unat (used_frames s) = card U"
    using assms(1) by (simp_all add: pmm_rep_def)
  have f: "f < ?t" "f < 0x100000" using assms(2) U t by auto
  obtain m' where m': "clear_frame (of_nat f) s = s\<lparr>mem := m'\<rparr>"
    "\<forall>i' < 32 * words_of s. used_bit m' (bitmap s) i' \<longleftrightarrow> i' \<noteq> f \<and> used_bit (mem s) (bitmap s) i'"
    "\<forall>x. \<not> in_region x (bitmap s) (4 * words_of s) \<longrightarrow> m' x = mem s x"
    using clear_frame_bit [OF fits words_bounds(1) [OF t] frame_word(1) [OF f(2)] words_bounds(2) [OF t f(1)]] by blast
  have free: "free_frame (page f) s = s\<lparr>mem := m', used_frames := used_frames s - 1\<rparr>"
    by (simp add: free_frame_def Let_def frame_word(3) [OF f(2)] m'(1))
  have pos: "0 < card U"
    using assms(1,2) pmm_finite card_gt_0_iff by blast
  then have "unat (used_frames s - 1) = card U - 1"
    using cnt by (subst unat_sub_u32) simp_all
  moreover have "card (U - {f}) = card U - 1"
    using assms(2) by simp
  moreover have "U - {f} = {i. i < ?t \<and> used_bit m' (bitmap s) i}"
    using U m'(2) words_bounds(2) [OF t] by auto
  moreover have "own_frames s \<subseteq> U - {f}"
    using pmm_bounds [OF assms(1)] assms(3) by blast
  ultimately have "pmm_rep (free_frame (page f) s) (U - {f})"
    using t fits unfolding pmm_rep_def free by simp
  then show ?thesis
    using m'(3) outside_own unfolding free by (auto simp: free)
qed

interpretation pool: frame_pool pmm_rep "\<lambda>s. unat (total_frames s)" own_frames mem
    "\<lambda>m s. s\<lparr>mem := m\<rparr>" allocate_frame free_frame
proof unfold_locales
  fix s :: "'a pmm_scheme" and U
  assume rep: "pmm_rep s U"
  show "(U = {..<unat (total_frames s)} \<and> allocate_frame s = (0, s)) \<or>
      (\<exists>f s'. f < unat (total_frames s) \<and> f \<notin> U \<and> {..<f} \<subseteq> U \<and> allocate_frame s = (page f, s') \<and>
        pmm_rep s' (insert f U) \<and> unat (total_frames s') = unat (total_frames s) \<and> own_frames s' = own_frames s \<and>
        (\<forall>x. unat x div 4096 \<notin> own_frames s \<longrightarrow> mem s' x = mem s x))"
    by (rule pmm_take [OF rep])
qed (auto dest: pmm_give pmm_bounds intro: pmm_store)

end
