(* ===== verification/Pmm_Props.thy ===== *)
theory Pmm_Props
  imports Pmm_Rep
begin

text \<open>
  The properties of the physical memory manager, from the contract \<open>frame_pool\<close> through its
  interpretation \<open>pool\<close>, and what the test functions of \<open>memtest.cpp\<close> do to it.
\<close>

section \<open>Initialisation\<close>

definition pages_for :: "nat \<Rightarrow> nat" where
  "pages_for n = (n + 4095) div 4096"

lemma pages_for_le: "pages_for n \<le> c \<longleftrightarrow> n \<le> 4096 * c"
proof -
  have "n + 4095 < 4096 * Suc c \<longleftrightarrow> n \<le> 4096 * c" by auto
  then show ?thesis
    by (simp add: pages_for_def less_Suc_eq_le [symmetric] div_less_iff_less_mult mult.commute del: less_Suc_eq_le)
qed

lemma less_pages_for: "j < pages_for n \<longleftrightarrow> 4096 * j < n"
  using pages_for_le [of n j] by linarith

lemma mark_below_pages:
  assumes "fits (bitmap s) (4 * n)" "n < 0x8000000" "unat limit \<le> 0xFFFFF000" "pages_for (unat limit) \<le> 32 * n"
    "j \<le> pages_for (unat limit)"
  shows "\<exists>m'. mark_below (page j) limit s =
      Some (s\<lparr>mem := m', used_frames := used_frames s + of_nat (pages_for (unat limit) - j)\<rparr>) \<and>
    (\<forall>i < 32 * n. used_bit m' (bitmap s) i \<longleftrightarrow> used_bit (mem s) (bitmap s) i \<or> j \<le> i \<and> i < pages_for (unat limit)) \<and>
    (\<forall>x. \<not> in_region x (bitmap s) (4 * n) \<longrightarrow> m' x = mem s x)"
  using assms(1,5)
proof (induction "pages_for (unat limit) - j" arbitrary: j s)
  case 0
  then have j: "j = pages_for (unat limit)" by simp
  have "\<not> 4096 * j < unat limit"
    using less_pages_for [of j "unat limit"] j by simp
  moreover have "j \<le> 0x100000"
    using assms(3) j pages_for_le [of "unat limit" "0x100000"] by simp
  moreover have "j = 0x100000 \<Longrightarrow> False"
    using assms(3) j less_pages_for [of "0xFFFFF" "unat limit"] by simp
  ultimately have "\<not> page j < limit"
    by (cases "j = 0x100000") (simp_all add: u32_less_iff unat_page_frame)
  then show ?case
    by (subst mark_below.simps) (auto simp: j intro!: exI [of _ "mem s"])
next
  case (Suc d)
  then have lt: "j < pages_for (unat limit)" by simp
  then have j: "4096 * j < unat limit" "j < 0xFFFFF + 1"
    using less_pages_for [of j "unat limit"] assms(3) by auto
  then have f: "j < 0x100000" by simp
  have less: "page j < limit"
    using j by (simp add: u32_less_iff unat_page_frame)
  have next_page: "page j + 4096 = page (Suc j)"
    by (simp add: page_def)
  have jn: "j < 32 * n" using lt assms(4) by simp
  obtain m1 where m1: "set_frame (of_nat j) s = s\<lparr>mem := m1\<rparr>"
    "\<forall>i' < 32 * n. used_bit m1 (bitmap s) i' \<longleftrightarrow> i' = j \<or> used_bit (mem s) (bitmap s) i'"
    "\<forall>x. \<not> in_region x (bitmap s) (4 * n) \<longrightarrow> m1 x = mem s x"
    using set_frame_bit [OF Suc.prems(1) assms(2) frame_word(1) [OF f] jn] by blast
  let ?s1 = "s\<lparr>mem := m1, used_frames := used_frames s + 1\<rparr>"
  have step: "mark_below (page j) limit s = mark_below (page (Suc j)) limit ?s1"
    using less by (subst mark_below.simps) (simp add: Let_def frame_word(3) [OF f] m1(1) next_page)
  have d: "d = pages_for (unat limit) - Suc j"
    using Suc.hyps(2) by simp
  have "fits (bitmap ?s1) (4 * n)" "Suc j \<le> pages_for (unat limit)"
    using Suc.prems(1) lt by simp_all
  from Suc.hyps(1) [OF d this]
  obtain m' where m': "mark_below (page (Suc j)) limit ?s1 =
      Some (?s1\<lparr>mem := m', used_frames := used_frames ?s1 + of_nat (pages_for (unat limit) - Suc j)\<rparr>)"
    "\<forall>i < 32 * n. used_bit m' (bitmap s) i \<longleftrightarrow> used_bit m1 (bitmap s) i \<or> Suc j \<le> i \<and> i < pages_for (unat limit)"
    "\<forall>x. \<not> in_region x (bitmap s) (4 * n) \<longrightarrow> m' x = m1 x"
    by (simp del: of_nat_diff) blast
  have "(1 :: u32) + of_nat (pages_for (unat limit) - Suc j) = of_nat (pages_for (unat limit) - j)"
    using lt by (simp add: of_nat_diff)
  then show ?case
    using step m' m1 lt by (intro exI [of _ m']) (auto simp: add.assoc simp del: of_nat_diff)
qed

lemma unat_align_up:
  assumes "unat k + 4095 < 4294967296"
  shows "unat (align_up k 4096) = 4096 * pages_for (unat k)"
proof -
  have "align_up k 4096 = (k + 4095) AND NOT (mask 12)"
    by (simp add: align_up_def mask_eq_exp_minus_1)
  then show ?thesis
    using assms by (simp add: unat_and_not_mask unat_add_numeral pages_for_def mult.commute)
qed

lemma memset_bits:
  assumes "fits p (4 * n)" "unat b = 4 * n" "i < 32 * n"
  shows "\<not> used_bit (memset m p 0 b) p i"
proof -
  have "i div 32 < n"
    using assms(3) by (simp add: less_mult_imp_div_less mult.commute)
  note a = word_address [OF assms(1) this]
  let ?q = "p + 4 * of_nat (i div 32)"
  have z: "memset m p 0 b (?q + of_nat k) = 0" if "k < 4" for k
  proof -
    have "in_region (?q + of_nat k) p (4 * n)"
      using in_region_offset [OF a(2) that] a(1) \<open>i div 32 < n\<close> by (auto simp: in_region_def)
    then show ?thesis
      using assms(1,2) by (simp add: memset_apply)
  qed
  have "load32 (memset m p 0 b) ?q = 0"
    using z [of 0] z [of 1] z [of 2] z [of 3] by (simp add: load32_def)
  then show ?thesis
    by (simp add: used_bit_def)
qed

lemma initialize_steps:
  assumes "next_free_physical s = None" "load32 (mem s) (info + 8) = mu" "unat mu + 1024 < 0x400000"
    "frames = (unat mu + 1024) div 4" "start = 4096 * pages_for (unat (sym s ''kernel_end''))"
    "stop = start + 4 * ((frames + 31) div 32)" "stop \<le> 4096 * frames"
  shows "\<exists>m'. pmm_initialize info s = Some (s\<lparr>mem := m', bitmap := of_nat start, total_frames := of_nat frames,
      used_frames := of_nat (pages_for stop), next_free_physical := Some (of_nat stop)\<rparr>) \<and>
    (\<forall>i < 32 * ((frames + 31) div 32). used_bit m' (of_nat start) i \<longleftrightarrow> i < pages_for stop) \<and>
    (\<forall>x. \<not> in_region x (of_nat start) (4 * ((frames + 31) div 32)) \<longrightarrow> m' x = mem s x)"
proof -
  define n where "n = (frames + 31) div 32"
  have fr: "frames < 0x100000" "256 \<le> frames"
    using assms(3,4) by simp_all
  have n: "n < 0x8000000" "frames \<le> 32 * n" "0 < n"
    using fr by (simp_all add: n_def)
  have "x * 1024 div 4096 = x div 4" for x :: nat
    by simp
  moreover have "unat (mu + 1024) = unat mu + 1024"
    using assms(3) by (intro unat_add_numeral) simp
  moreover have "unat ((mu + 1024) * 1024) = unat (mu + 1024) * 1024"
    using assms(3) calculation(2) by (simp add: unat_word_ariths)
  ultimately have tot: "(mu + 1024) * 1024 div 4096 = of_nat frames"
    using fr by (simp add: u32_eq_iff unat_div unat_of_nat_u32 assms(4))
  have tot': "(mu * 1024 + 1048576) div 4096 = of_nat frames"
    using tot by (simp add: algebra_simps)
  have utot: "unat (of_nat frames :: u32) = frames"
    using fr by (intro unat_of_nat_u32) simp
  have words: "bitmap_words (of_nat frames) = of_nat n"
    using n by (simp add: u32_eq_iff unat_bitmap_words utot unat_of_nat_u32 n_def)
  have e: "stop = start + 4 * n" "stop < 0xFFFFF001"
    using assms(6,7) fr by (simp_all add: n_def)
  have "unat (sym s ''kernel_end'') \<le> start"
    using pages_for_le [of "unat (sym s ''kernel_end'')" "pages_for (unat (sym s ''kernel_end''))"] assms(5) by simp
  then have "unat (sym s ''kernel_end'') + 4095 < 4294967296"
    using e by simp
  then have "unat (align_up (sym s ''kernel_end'') 4096) = start"
    using unat_align_up assms(5) by simp
  then have al: "align_up (sym s ''kernel_end'') 4096 = of_nat start" and ustart: "unat (of_nat start :: u32) = start"
    using e by (simp_all add: u32_eq_iff unat_of_nat_u32)
  have mul: "(of_nat n * 4 :: u32) = of_nat (4 * n)"
    by simp
  have "(of_nat start + of_nat (4 * n) :: u32) = of_nat stop"
    by (simp add: e(1))
  moreover have "unat (of_nat (4 * n) :: u32) = 4 * n"
    using n(1) by (intro unat_of_nat_u32) simp
  ultimately have bytes: "(of_nat n * 4 :: u32) = of_nat (4 * n)" "unat (of_nat (4 * n) :: u32) = 4 * n"
    "(of_nat start + of_nat (4 * n) :: u32) = of_nat stop"
    using mul by blast+
  have uend: "unat (of_nat stop :: u32) = stop"
    using e(2) by (intro unat_of_nat_u32) simp
  have fits: "fits (of_nat start) (4 * n)"
    using e ustart by (simp add: fits_def)
  let ?s1 = "s\<lparr>total_frames := of_nat frames, used_frames := 0, bitmap := of_nat start,
    next_free_physical := Some (of_nat stop), mem := memset (mem s) (of_nat start) 0 (of_nat (4 * n))\<rparr>"
  have init: "pmm_initialize info s = mark_below (page 0) (of_nat stop) ?s1"
    by (simp add: pmm_initialize_def Let_def assms(1,2) tot' words al bytes page_def del: of_nat_mult)
  have "pages_for stop \<le> 32 * n"
    using pages_for_le [of stop frames] assms(7) n(2) by simp
  then obtain m' where m': "mark_below (page 0) (of_nat stop) ?s1 =
      Some (?s1\<lparr>mem := m', used_frames := used_frames ?s1 + of_nat (pages_for stop - 0)\<rparr>)"
    "\<forall>i < 32 * n. used_bit m' (bitmap ?s1) i \<longleftrightarrow> used_bit (mem ?s1) (bitmap ?s1) i \<or> 0 \<le> i \<and> i < pages_for stop"
    "\<forall>x. \<not> in_region x (bitmap ?s1) (4 * n) \<longrightarrow> m' x = mem ?s1 x"
    using mark_below_pages [of ?s1 n "of_nat stop" 0] fits n(1) e(2) uend by auto
  have "\<not> used_bit (mem ?s1) (of_nat start) i" if "i < 32 * n" for i
    using memset_bits [OF fits bytes(2) that] by simp
  moreover have "mem ?s1 x = mem s x" if "\<not> in_region x (of_nat start) (4 * n)" for x
    using that fits bytes(2) by (simp add: memset_apply)
  ultimately show ?thesis
    using init m' by (intro exI [of _ m']) (simp add: n_def [symmetric])
qed

section \<open>The test functions\<close>

lemma page_fits: "f < 0x100000 \<Longrightarrow> fits (page f) 4" "f < 0x100000 \<Longrightarrow> in_region x (page f) 4 \<Longrightarrow> unat x div 4096 = f"
proof -
  assume f: "f < 0x100000"
  show "fits (page f) 4"
    using f by (simp add: fits_def unat_page_frame)
  assume "in_region x (page f) 4"
  then have "4096 * f \<le> unat x" "unat x < 4096 * Suc f"
    using f by (auto simp: in_region_def unat_page_frame)
  then show "unat x div 4096 = f"
    by (intro div_nat_eqI)
qed

lemma store_in_page:
  assumes "pmm_rep s U" "f < unat (total_frames s)" "f \<notin> own_frames s"
  shows "pmm_rep (s\<lparr>mem := store32 (mem s) (page f) v\<rparr>) U"
proof -
  have f: "f < 0x100000"
    using assms(1,2) pmm_bounds [of s U] by simp
  have "store32 (mem s) (page f) v x = mem s x" if "unat x div 4096 \<noteq> f" for x
    using that page_fits [OF f] by (intro store32_other) auto
  then show ?thesis
    by (rule pmm_store [OF assms(1,3)])
qed

lemma other_page:
  assumes "f < 0x100000" "g < 0x100000" "f \<noteq> g"
  shows "load32 (store32 m (page f) v) (page g) = load32 m (page g)"
  using assms by (intro load32_store32_other page_fits) (auto simp: apart_def unat_page_frame)

lemma test_allocation_result:
  assumes "pmm_rep s U" "U \<noteq> {..<unat (total_frames s)}"
  shows "\<exists>s'. test_allocation s = (True, s') \<and> pmm_rep s' U"
proof -
  obtain p s1 where a: "allocate_frame s = (p, s1)" by (cases "allocate_frame s")
  from pmm_take [OF assms(1)] obtain f where f: "f < unat (total_frames s)" "f \<notin> U" "a = a" "allocate_frame s = (page f, s1)"
    "pmm_rep s1 (insert f U)" "unat (total_frames s1) = unat (total_frames s)" "own_frames s1 = own_frames s"
    using assms(2) a by (auto simp del: unsigned_less)
  note b = pmm_bounds [OF assms(1)]
  have lt: "f < 0x100000"
    using f(1) b by simp
  have own: "f \<notin> own_frames s1"
    using f(2,7) b by blast
  have "0 \<in> U"
    using b by (meson subsetD)
  then have "f \<noteq> 0"
    using f(2) by metis
  let ?s2 = "s1\<lparr>mem := store32 (mem s1) (page f) TEST_PATTERN\<rparr>"
  have s2: "pmm_rep ?s2 (insert f U)"
    using f own by (intro store_in_page) simp_all
  have "pmm_rep (free_frame (page f) ?s2) (insert f U - {f})"
    using pmm_give [OF s2, of f] own by simp
  moreover have "insert f U - {f} = U" using f(2) by simp
  moreover have "page f \<noteq> 0"
    using \<open>f \<noteq> 0\<close> lt by (intro page_nonzero) simp_all
  ultimately show ?thesis
    using f(4) by (simp add: test_allocation_def)
qed

lemma test_free_result:
  assumes "pmm_rep s U" "U \<noteq> {..<unat (total_frames s)}"
  shows "\<exists>s'. test_free s = (True, s') \<and> pmm_rep s' U"
proof -
  obtain p s1 where a: "allocate_frame s = (p, s1)" by (cases "allocate_frame s")
  have p: "p \<noteq> 0"
  proof -
    from pmm_take [OF assms(1)] obtain f where f: "f < unat (total_frames s)" "f \<notin> U" "p = page f"
      using assms(2) a by auto
    note b = pmm_bounds [OF assms(1)]
    have "0 \<in> U" using b by blast
    then have "0 < f" using f(2) by (metis neq0_conv)
    then show ?thesis
      using f b by (simp add: page_nonzero)
  qed
  obtain f where f: "p = page f" "f \<notin> U" "pmm_rep (free_frame p s1) U" "fst (allocate_frame (free_frame p s1)) = p"
    by (rule pool.take_again [OF assms(1) a p])
  obtain s2 where s2: "allocate_frame (free_frame p s1) = (p, s2)"
    using f(4) by (cases "allocate_frame (free_frame p s1)") simp
  obtain g where g: "p = page g" "g \<notin> U" "pmm_rep (free_frame p s2) U"
    by (rule pool.take_again [OF f(3) s2 p])
  show ?thesis
    using a p s2 g(3) by (simp add: test_free_def)
qed

text \<open>\<open>k\<close> frames taken and written so far.\<close>

definition written :: "nat list \<Rightarrow> nat set \<Rightarrow> 'a pmm_scheme \<Rightarrow> bool" where
  "written fs U s \<longleftrightarrow> pmm_rep s (U \<union> set fs) \<and> distinct fs \<and> U \<inter> set fs = {} \<and> own_frames s \<subseteq> U \<and>
     (\<forall>k < length fs. load32 (mem s) (page (fs ! k)) = TEST_PATTERN + of_nat k)"

lemma written_step:
  assumes "written fs U s"
  shows "(U \<union> set fs = {..<unat (total_frames s)} \<and> allocate_frame s = (0, s)) \<or>
    (\<exists>f s1. allocate_frame s = (page f, s1) \<and> page f \<noteq> 0 \<and>
      written (fs @ [f]) U (s1\<lparr>mem := store32 (mem s1) (page f) (TEST_PATTERN + of_nat (length fs))\<rparr>) \<and>
      total_frames s1 = total_frames s)"
proof -
  have rep: "pmm_rep s (U \<union> set fs)" and d: "distinct fs" "U \<inter> set fs = {}" "own_frames s \<subseteq> U"
    and pat: "\<And>k. k < length fs \<Longrightarrow> load32 (mem s) (page (fs ! k)) = TEST_PATTERN + of_nat k"
    using assms by (auto simp: written_def)
  note b = pmm_bounds [OF rep]
  from pmm_take [OF rep] show ?thesis
  proof (elim disjE exE conjE)
    fix f s1
    assume f: "f < unat (total_frames s)" "f \<notin> U \<union> set fs" "allocate_frame s = (page f, s1)"
      "pmm_rep s1 (insert f (U \<union> set fs))" "unat (total_frames s1) = unat (total_frames s)" "own_frames s1 = own_frames s"
      "\<forall>x. unat x div 4096 \<notin> own_frames s \<longrightarrow> mem s1 x = mem s x"
    have lt: "f < 0x100000" using f(1) b by simp
    have own: "f \<notin> own_frames s1" using f(2,6) d(3) by auto
    have "0 \<in> U" using b d(3) by blast
    then have "0 < f" using f(2) by (metis UnCI neq0_conv)
    then have nz: "page f \<noteq> 0" by (rule page_nonzero [OF _ lt])
    let ?s2 = "s1\<lparr>mem := store32 (mem s1) (page f) (TEST_PATTERN + of_nat (length fs))\<rparr>"
    have rep2: "pmm_rep ?s2 (insert f (U \<union> set fs))"
      using f own by (intro store_in_page) simp_all
    have old: "load32 (mem ?s2) (page (fs ! k)) = TEST_PATTERN + of_nat k" if k: "k < length fs" for k
    proof -
      let ?g = "fs ! k"
      have g: "?g \<in> set fs" using k by simp
      then have "?g < unat (total_frames s)"
        using b by (meson UnCI lessThan_iff subsetD)
      then have gl: "?g < 0x100000" "?g \<notin> own_frames s" "?g \<noteq> f"
        using b d(2,3) f(2) g by (simp, blast+)
      have "agree_on (mem s) (mem s1) (page ?g) 4"
        unfolding agree_on_def using page_fits(2) [OF gl(1)] gl(2) f(7) by metis
      then have "load32 (mem s1) (page ?g) = load32 (mem s) (page ?g)"
        using page_fits(1) [OF gl(1)] by (rule agree_on_load32)
      then show ?thesis
        using other_page [OF lt gl(1)] gl(3) pat [OF k] by simp
    qed
    have "written (fs @ [f]) U ?s2"
      using rep2 d f(2,6) old unfolding written_def by (auto simp: nth_append less_Suc_eq)
    moreover have "total_frames s1 = total_frames s"
      using f(5) by (simp add: u32_eq_iff)
    ultimately show ?thesis
      using f(3) nz by blast
  qed blast
qed

lemma allocate_patterns_result:
  assumes "written fs U s" "length fs \<le> n"
  shows "(\<exists>s'. allocate_patterns [length fs..<n] (map page fs) s = (None, s') \<and> pmm_rep s' {..<unat (total_frames s)} \<and>
      own_frames s' \<subseteq> U \<and> total_frames s' = total_frames s \<and> card ({..<unat (total_frames s)} - U) < n) \<or>
    (\<exists>s' gs. allocate_patterns [length fs..<n] (map page fs) s = (Some (map page gs), s') \<and> written gs U s' \<and> length gs = n \<and>
      total_frames s' = total_frames s)"
  using assms
proof (induction "n - length fs" arbitrary: fs s)
  case 0
  then show ?case by (intro disjI2 exI [of _ s] exI [of _ fs]) simp
next
  case (Suc d)
  then have lt: "length fs < n" "[length fs..<n] = length fs # [Suc (length fs)..<n]"
    by (simp_all add: upt_rec)
  from written_step [OF Suc.prems(1)] show ?case
  proof (elim disjE exE conjE)
    assume full: "U \<union> set fs = {..<unat (total_frames s)}" "allocate_frame s = (0, s)"
    have "{..<unat (total_frames s)} - U = set fs" "card (set fs) = length fs"
      using full(1) Suc.prems(1) by (auto simp: written_def distinct_card)
    then show ?thesis
      using full Suc.prems(1) lt by (intro disjI1 exI [of _ s]) (simp add: written_def)
  next
    fix f and s1 :: "'a pmm_scheme"
    let ?s2 = "s1\<lparr>mem := store32 (mem s1) (page f) (TEST_PATTERN + of_nat (length fs))\<rparr>"
    assume f: "allocate_frame s = (page f, s1)" "page f \<noteq> 0" "written (fs @ [f]) U ?s2" "total_frames s1 = total_frames s"
    have "d = n - length (fs @ [f])" "length (fs @ [f]) \<le> n"
      using Suc.hyps(2) lt(1) by simp_all
    from Suc.hyps(1) [OF this(1) f(3) this(2)] show ?thesis
      using f lt(2) by simp
  qed
qed

lemma free_all:
  assumes "pmm_rep s (U \<union> set fs)" "distinct fs" "U \<inter> set fs = {}" "own_frames s \<subseteq> U"
  shows "pmm_rep (fold free_frame (map page fs) s) U"
  using assms
proof (induction fs arbitrary: s)
  case (Cons f fs)
  have "f \<notin> own_frames s" using Cons.prems by auto
  moreover have "U \<union> set (f # fs) - {f} = U \<union> set fs" using Cons.prems by auto
  ultimately show ?case
    using pmm_give [OF Cons.prems(1), of f] Cons by simp
qed simp

section \<open>Properties\<close>

text \<open>A machine with 64 MiB and a kernel that ends at 2 MiB, for the witnesses.\<close>

definition reset_pmm :: pmm where
  "reset_pmm = \<lparr>con = \<lparr>io_dev = \<lambda>_ _. 0, io_devw = \<lambda>_ _. 0, io_log = [], trow = 0, tcol = 0,
     tcolor = 7, tbuf = \<lambda>_. 0\<rparr>, mem = store32 (\<lambda>_. 0) 0x9008 0xFC00, sym = \<lambda>_. 0x200000, lit = \<lambda>_. 0,
     bitmap = 0, total_frames = 0, used_frames = 0, next_free_physical = None\<rparr>"

text \<open>
  C37: given the multiboot information of a machine with less than 4 GiB in which the bitmap fits
  after the kernel, \<open>initialize\<close> returns, the bitmap represents the set of the frames below its own
  end, and exactly those: the kernel and the bitmap are in use, the rest is free.
\<close>

theorem pmm_initialize_establishes:
  assumes "next_free_physical s = None" "load32 (mem s) (info + 8) = mu" "unat mu + 1024 < 0x400000"
    "frames = (unat mu + 1024) div 4" "start = 4096 * pages_for (unat (sym s ''kernel_end''))"
    "stop = start + 4 * ((frames + 31) div 32)" "stop \<le> 4096 * frames"
  shows "\<exists>s'. pmm_initialize info s = Some s' \<and> pmm_rep s' {..<pages_for stop} \<and>
    unat (total_frames s') = frames \<and> unat (get_free_frames s') = frames - pages_for stop \<and>
    (\<forall>x. unat x < start \<or> stop \<le> unat x \<longrightarrow> mem s' x = mem s x)"
proof -
  obtain m' where m': "pmm_initialize info s = Some (s\<lparr>mem := m', bitmap := of_nat start, total_frames := of_nat frames,
      used_frames := of_nat (pages_for stop), next_free_physical := Some (of_nat stop)\<rparr>)"
    "\<forall>i < 32 * ((frames + 31) div 32). used_bit m' (of_nat start) i \<longleftrightarrow> i < pages_for stop"
    "\<forall>x. \<not> in_region x (of_nat start) (4 * ((frames + 31) div 32)) \<longrightarrow> m' x = mem s x"
    using initialize_steps [OF assms] by blast
  let ?s' = "s\<lparr>mem := m', bitmap := of_nat start, total_frames := of_nat frames,
      used_frames := of_nat (pages_for stop), next_free_physical := Some (of_nat stop)\<rparr>"
  have fr: "frames < 0x100000" "256 \<le> frames"
    using assms(3,4) by simp_all
  have ut: "unat (of_nat frames :: u32) = frames"
    using fr by (intro unat_of_nat_u32) simp
  have us: "unat (of_nat start :: u32) = start"
    using assms(6,7) fr by (intro unat_of_nat_u32) simp
  have le: "pages_for stop \<le> frames"
    using pages_for_le [of stop frames] assms(7) by simp
  then have up: "unat (of_nat (pages_for stop) :: u32) = pages_for stop"
    using fr by (intro unat_of_nat_u32) simp
  have w: "words_of ?s' = (frames + 31) div 32"
    by (simp add: words_of_def ut)
  have "x \<le> 32 * ((x + 31) div 32)" for x :: nat
    by linarith
  then have b: "i < 32 * ((frames + 31) div 32)" if "i < frames" for i
    using that less_le_trans by blast
  have "0 < stop"
    using assms(6) fr by (simp add: div_greater_zero_iff)
  then have "0 < pages_for stop"
    using less_pages_for [of 0 stop] by simp
  moreover have "unat x div 4096 < pages_for stop" if "in_region x (of_nat start) (4 * ((frames + 31) div 32))" for x
  proof -
    have "4096 * (unat x div 4096) \<le> unat x" by simp
    also have "unat x < stop"
      using that assms(6) by (simp add: in_region_def us)
    finally show ?thesis
      using less_pages_for by blast
  qed
  ultimately have own: "own_frames ?s' \<subseteq> {..<pages_for stop}"
    unfolding own_frames_def w by auto
  have rep: "pmm_rep ?s' {..<pages_for stop}"
    unfolding pmm_rep_def w
  proof (intro conjI)
    show "{..<pages_for stop} = {i. i < unat (total_frames ?s') \<and> used_bit (mem ?s') (bitmap ?s') i}"
      using m'(2) b le by (auto simp: ut)
    show "fits (bitmap ?s') (4 * ((frames + 31) div 32))"
      using assms(6,7) fr by (simp add: fits_def us)
  qed (use own fr ut up in simp_all)
  have "unat (get_free_frames ?s') = frames - pages_for stop"
    unfolding get_free_frames_def using le ut up by (simp add: unat_sub_u32 del: of_nat_diff)
  moreover have "m' x = mem s x" if "unat x < start \<or> stop \<le> unat x" for x
    using m'(3) that assms(6) by (auto simp: in_region_def us)
  ultimately show ?thesis
    using m'(1) rep ut by (intro exI [of _ ?s']) simp
qed

lemma pmm_initialize_establishes_witness:
  "\<exists>s'. pmm_initialize 0x9000 reset_pmm = Some s' \<and> pmm_rep s' {..<513} \<and> unat (get_free_frames s') = 15871"
  using pmm_initialize_establishes [of reset_pmm "0x9000" "0xFC00" 16384 "0x200000" "0x200800"]
  by (auto simp: reset_pmm_def pages_for_def)

lemma pmm_demo:
  obtains s where "pmm_rep (s :: pmm) {..<513}" "unat (total_frames s) = 16384" "own_frames s \<subseteq> {0, 512}"
proof -
  have "\<exists>m'. pmm_initialize 0x9000 reset_pmm = Some (reset_pmm\<lparr>mem := m', bitmap := of_nat 0x200000, total_frames := of_nat 16384,
      used_frames := of_nat (pages_for 0x200800), next_free_physical := Some (of_nat 0x200800)\<rparr>) \<and>
    (\<forall>i < 32 * ((16384 + 31) div 32). used_bit m' (of_nat 0x200000) i \<longleftrightarrow> i < pages_for 0x200800) \<and>
    (\<forall>x. \<not> in_region x (of_nat 0x200000) (4 * ((16384 + 31) div 32)) \<longrightarrow> m' x = mem reset_pmm x)"
    by (rule initialize_steps [of reset_pmm "0x9000" "0xFC00"]) (simp_all add: reset_pmm_def pages_for_def)
  then obtain m' where m': "\<forall>i < 16384. used_bit m' 0x200000 i \<longleftrightarrow> i < 513"
    by (auto simp: pages_for_def)
  let ?s = "reset_pmm\<lparr>mem := m', bitmap := 0x200000, total_frames := 16384, used_frames := 513\<rparr>"
  have "unat x div 4096 = 512" if "in_region x 0x200000 2048" for x
    using that by (intro div_nat_eqI) (auto simp: in_region_def)
  then have own: "own_frames ?s \<subseteq> {0, 512}"
    by (auto simp: own_frames_def words_of_def)
  then have "pmm_rep ?s {..<513}"
    using m' by (auto simp: pmm_rep_def words_of_def fits_def)
  then show thesis
    by (rule that) (use own in simp_all)
qed

text \<open>
  C38: whatever a client does with \<open>allocate_frame\<close>, \<open>free_frame\<close> on its own frames and stores into
  them, the bitmap keeps representing the frames that were in use before together with the
  client's own, which are distinct and were free; and \<open>used_frames\<close> counts exactly these.
\<close>

theorem frame_client_invariant:
  assumes "pmm_rep s U"
  shows "case fold (pool_step mem (\<lambda>m s. s\<lparr>mem := m\<rparr>) allocate_frame free_frame) ops (s, []) of
    (s', own) \<Rightarrow> pmm_rep s' (U \<union> set own) \<and> distinct own \<and> U \<inter> set own = {} \<and>
      unat (used_frames s') = card U + length own"
proof -
  obtain s' own where r: "fold (pool_step mem (\<lambda>m s. s\<lparr>mem := m\<rparr>) allocate_frame free_frame) ops (s, []) = (s', own)"
    by (cases "fold (pool_step mem (\<lambda>m s. s\<lparr>mem := m\<rparr>) allocate_frame free_frame) ops (s, [])")
  have "pool.good U (s, [])"
    using assms pmm_bounds [OF assms] by (simp add: pool.good_def)
  then have "pool.good U (s', own)"
    using pool.run_good [of U "(s, [])" ops] r by simp
  then have g: "pmm_rep s' (U \<union> set own)" "distinct own" "U \<inter> set own = {}"
    by (simp_all add: pool.good_def)
  have "unat (used_frames s') = card (U \<union> set own)"
    using g(1) by (simp add: pmm_rep_def)
  also have "\<dots> = card U + card (set own)"
    using g(3) pmm_finite [OF assms] by (intro card_Un_disjoint) simp_all
  finally show ?thesis
    using r g by (simp add: distinct_card)
qed

lemma frame_client_invariant_witness:
  "\<exists>(s :: pmm) s' own. fold (pool_step mem (\<lambda>m s. s\<lparr>mem := m\<rparr>) allocate_frame free_frame) [Take, Write 513 7 42, Take, Give 513] (s, []) = (s', own) \<and>
    unat (used_frames s') = 513 + length own"
proof (rule pmm_demo)
  fix s :: pmm
  assume "pmm_rep s {..<513}"
  note inv = frame_client_invariant [OF this, of "[Take, Write 513 7 42, Take, Give 513]"]
  obtain s' own where r: "fold (pool_step mem (\<lambda>m s. s\<lparr>mem := m\<rparr>) allocate_frame free_frame)
      [Take, Write 513 7 42, Take, Give 513] (s, []) = (s', own)"
    by (meson surj_pair)
  have "unat (used_frames s') = card {..<513 :: nat} + length own"
    using inv unfolding r prod.case by blast
  with r show ?thesis
    by (intro exI [of _ s] exI [of _ s'] exI [of _ own]) (simp only: card_lessThan)
qed

text \<open>
  \<open>first_free\<close>, with its search by words and its early exits, is the search for the least frame
  whose bit is clear; it answers \<open>UINT32_MAX\<close> exactly when there is none.
\<close>

theorem first_free_is_least:
  assumes "unat (total_frames s) < 0x4000000"
  shows "first_free s = (case find (\<lambda>i. \<not> used_bit (mem s) (bitmap s) i) [0..<unat (total_frames s)] of
    Some f \<Rightarrow> of_nat f | None \<Rightarrow> 0xFFFFFFFF)"
  using first_free_least [OF assms] by (simp add: least_free_def)

lemma first_free_is_least_witness: "first_free reset_pmm = 0xFFFFFFFF"
  using first_free_is_least [of reset_pmm] by (simp add: reset_pmm_def)

text \<open>
  The memory tests pass whenever they can, and hand back every frame: \<open>test_allocation\<close> and
  \<open>test_free\<close> with one free frame, \<open>test_multiple_allocations\<close> with ten. With fewer than ten free
  frames the last one fails, and it returns without giving back those that it took: every frame of
  the machine is in use from then on.
\<close>

theorem memory_tests:
  assumes "pmm_rep s U" "free = card ({..<unat (total_frames s)} - U)"
  shows "(0 < free \<longrightarrow> (\<exists>s'. test_allocation s = (True, s') \<and> pmm_rep s' U) \<and>
      (\<exists>s'. test_free s = (True, s') \<and> pmm_rep s' U)) \<and>
    (10 \<le> free \<longrightarrow> (\<exists>s'. test_multiple_allocations s = (True, s') \<and> pmm_rep s' U)) \<and>
    (free < 10 \<longrightarrow> (\<exists>s'. test_multiple_allocations s = (False, s') \<and> pmm_rep s' {..<unat (total_frames s)}))"
proof (intro conjI impI)
  let ?T = "{..<unat (total_frames s)}"
  have sub: "U \<subseteq> ?T"
    using pmm_bounds [OF assms(1)] by blast
  show "\<exists>s'. test_allocation s = (True, s') \<and> pmm_rep s' U" "\<exists>s'. test_free s = (True, s') \<and> pmm_rep s' U" if "0 < free"
    using that assms by (auto intro: test_allocation_result test_free_result)
  have start: "written [] U s"
    using assms(1) pmm_bounds [OF assms(1)] by (simp add: written_def)
  have few: "free < 10 \<Longrightarrow> \<not> (\<exists>s' gs. allocate_patterns [0..<10] [] s = (Some (map page gs), s') \<and> written gs U s' \<and> length gs = 10
      \<and> total_frames s' = total_frames s)"
  proof (intro notI, elim exE conjE)
    fix s' gs
    assume "free < 10" and gs: "written gs U s'" "length gs = 10" "total_frames s' = total_frames s"
    have "set gs \<subseteq> ?T - U"
      using gs pmm_bounds [of s' "U \<union> set gs"] by (auto simp: written_def)
    then have "card (set gs) \<le> free"
      unfolding assms(2) by (intro card_mono) simp_all
    then show False
      using gs \<open>free < 10\<close> by (simp add: written_def distinct_card)
  qed
  note res = allocate_patterns_result [OF start, of 10, simplified]
  show "\<exists>s'. test_multiple_allocations s = (True, s') \<and> pmm_rep s' U" if ten: "10 \<le> free"
  proof -
    obtain s' gs where r: "allocate_patterns [0..<10] [] s = (Some (map page gs), s')"
      and w: "written gs U s'" "length gs = 10"
      using res ten assms(2) by (auto simp del: upt_rec_numeral)
    have "list_all (\<lambda>i. load32 (mem s') (map page gs ! i) = TEST_PATTERN + of_nat i) [0..<10]"
      using w by (simp add: list_all_iff written_def del: upt_rec_numeral)
    moreover have "pmm_rep (fold free_frame (map page gs) s') U"
      using w(1) by (intro free_all) (simp_all add: written_def)
    ultimately show ?thesis
      by (simp only: test_multiple_allocations_def r prod.case option.case Let_def) blast
  qed
  show "\<exists>s'. test_multiple_allocations s = (False, s') \<and> pmm_rep s' ?T" if "free < 10"
  proof -
    have "\<exists>s'. allocate_patterns [0..<10] [] s = (None, s') \<and> pmm_rep s' ?T"
      using res few [OF that] by blast
    then show ?thesis
      unfolding test_multiple_allocations_def by auto
  qed
qed

lemma memory_tests_witness:
  "\<exists>(s :: pmm) s'. test_multiple_allocations s = (True, s') \<and> pmm_rep s' {..<513}"
proof (rule pmm_demo)
  fix s :: pmm
  assume s: "pmm_rep s {..<513}" "unat (total_frames s) = 16384"
  have "{..<16384} - {..<513} = {513..<16384 :: nat}" by auto
  then have "card ({..<unat (total_frames s)} - {..<513}) = 15871"
    using s(2) by simp
  then show ?thesis
    using memory_tests [OF s(1) refl] by auto
qed

text \<open>
  A second \<open>free_frame\<close> of the same frame leaves the bitmap as it is and lowers the counter once
  more: the memory manager then reports one free frame too many.
\<close>

theorem double_free_miscounts:
  assumes "pmm_rep s U" "f \<in> U" "f \<notin> own_frames s"
  defines "s2 \<equiv> free_frame (page f) (free_frame (page f) s)"
  shows "{i. i < unat (total_frames s2) \<and> used_bit (mem s2) (bitmap s2) i} = U - {f} \<and>
    unat (get_free_frames s2) = Suc (card ({..<unat (total_frames s2)} - (U - {f})))"
proof -
  let ?s1 = "free_frame (page f) s" and ?t = "unat (total_frames s)"
  have g: "pmm_rep ?s1 (U - {f})" "unat (total_frames ?s1) = ?t" "own_frames ?s1 = own_frames s"
    using pmm_give [OF assms(1-3)] by simp_all
  note b = pmm_bounds [OF assms(1)]
  have t: "?t < 0x100000" and fits: "fits (bitmap ?s1) (4 * words_of ?s1)"
    and bits: "U - {f} = {i. i < ?t \<and> used_bit (mem ?s1) (bitmap ?s1) i}"
    and cnt: "unat (used_frames ?s1) = card (U - {f})"
    using g(1,2) b by (simp_all add: pmm_rep_def)
  have f: "f < 0x100000" "f < unat (total_frames ?s1)" using assms(2) b g(2) by auto
  have t1: "unat (total_frames ?s1) < 0x100000" using g(2) t by simp
  obtain m' where m': "clear_frame (of_nat f) ?s1 = ?s1\<lparr>mem := m'\<rparr>"
    "\<forall>i' < 32 * words_of ?s1. used_bit m' (bitmap ?s1) i' \<longleftrightarrow> i' \<noteq> f \<and> used_bit (mem ?s1) (bitmap ?s1) i'"
    using clear_frame_bit [OF fits words_bounds(1) [OF t1] frame_word(1) [OF f(1)] words_bounds(2) [OF t1 f(2)]] by blast
  have s2: "s2 = ?s1\<lparr>mem := m', used_frames := used_frames ?s1 - 1\<rparr>"
    unfolding s2_def free_frame_def [of _ ?s1] Let_def frame_word(3) [OF f(1)] m'(1) by simp
  have "used_bit m' (bitmap ?s1) i = used_bit (mem ?s1) (bitmap ?s1) i" if "i < ?t" for i
    using m'(2) words_bounds(2) [OF t1] that g(2) bits by auto
  then have set: "{i. i < unat (total_frames s2) \<and> used_bit (mem s2) (bitmap s2) i} = U - {f}"
    using bits g(2) by (auto simp: s2)
  have fin: "finite (U - {f})" "U - {f} \<subseteq> {..<?t}"
    using pmm_finite [OF assms(1)] b by auto
  have "0 \<in> U - {f}" using b assms(3) by blast
  then have pos: "0 < card (U - {f})"
    using fin(1) card_gt_0_iff by blast
  have le: "card (U - {f}) \<le> ?t"
    using card_mono [OF _ fin(2)] by simp
  have "unat (used_frames ?s1 - 1) = card (U - {f}) - 1"
    using cnt pos by (subst unat_sub_u32) simp_all
  then have "unat (get_free_frames s2) = ?t - (card (U - {f}) - 1)"
    unfolding get_free_frames_def s2 using g(2) le by (subst unat_sub_u32) simp_all
  also have "\<dots> = Suc (?t - card (U - {f}))"
    using pos le by simp
  also have "?t - card (U - {f}) = card ({..<?t} - (U - {f}))"
    using fin by (simp add: card_Diff_subset)
  finally show ?thesis
    using set g(2) by (simp add: s2)
qed

lemma double_free_miscounts_witness:
  "\<exists>(s :: pmm). unat (get_free_frames (free_frame (page 1) (free_frame (page 1) s))) = 15873"
proof (rule pmm_demo)
  fix s :: pmm
  assume s: "pmm_rep s {..<513}" "unat (total_frames s) = 16384" "own_frames s \<subseteq> {0, 512}"
  have "1 \<in> {..<513 :: nat}" "1 \<notin> own_frames s"
    using s(3) by auto
  note d = double_free_miscounts [OF s(1) this]
  have "unat (total_frames (free_frame (page 1) (free_frame (page 1) s))) = 16384"
    using s(2) by (simp add: free_frame_def clear_frame_def Let_def)
  moreover have "{..<16384} - ({..<513} - {1}) = insert 1 {513..<16384 :: nat}"
    by auto
  ultimately show ?thesis
    using d by (intro exI [of _ s]) simp
qed

end
