(* ===== verification/Utils.thy ===== *)
theory Utils
  imports Stdio
begin

text \<open>
  The helpers of \<open>src/utils.cpp\<close>: the decimal conversion into a caller's buffer, and the halves of
  an address.
\<close>

partial_function (option) utils_strlen :: "ram \<Rightarrow> u32 \<Rightarrow> u32 \<Rightarrow> u32 option" where
  "utils_strlen m str len = (if m (str + len) \<noteq> 0 then utils_strlen m str (len + 1) else Some len)"

text \<open>The loop that stores the digits, least significant first.\<close>

function store_digits :: "ram \<Rightarrow> u32 \<Rightarrow> u32 \<Rightarrow> int \<Rightarrow> ram \<times> u32" where
  "store_digits m buffer i num =
     (if num \<noteq> 0
      then store_digits (m(buffer + i := word_of_int (num smod 10 + 48))) buffer (i + 1) (num sdiv 10)
      else (m, i))"
  by pat_completeness auto

termination
proof (relation "measure (\<lambda>(m, b, i, num). nat \<bar>num\<bar>)")
  fix num :: int
  assume "num \<noteq> 0"
  then have "\<bar>num sdiv 10\<bar> < \<bar>num\<bar>"
    by (auto simp: signed_divide_int_def sgn_if abs_mult)
  then show "((m', buffer, i', num sdiv 10), m, buffer, i, num) \<in> measure (\<lambda>(m, b, i, num). nat \<bar>num\<bar>)"
    for m m' :: ram and buffer i i' :: u32
    by simp
qed simp

declare store_digits.simps [simp del]

definition reverse_bytes :: "ram \<Rightarrow> u32 \<Rightarrow> nat \<Rightarrow> ram" where
  "reverse_bytes m buffer len = fold (\<lambda>j m.
     let temp = m (buffer + of_nat j);
         m = m(buffer + of_nat j := m (buffer + of_nat (len - j - 1)))
     in m(buffer + of_nat (len - j - 1) := temp)) [0..<len div 2] m"

definition int_to_string :: "u32 \<Rightarrow> u32 \<Rightarrow> ram \<Rightarrow> ram option" where
  "int_to_string num buffer m =
     (let is_negative = sint num < 0;
          num = (if is_negative then - num else num);
          (m, i) = store_digits m buffer 0 (sint num);
          (m, i) = (if is_negative then (m(buffer + i := 45), i + 1) else (m, i));
          m = m(buffer + i := 0)
      in do {
        len \<leftarrow> utils_strlen m buffer 0;
        Some (reverse_bytes m buffer (nat (sint len)))
      })"

definition low_16 :: "u32 \<Rightarrow> u16" where
  "low_16 a = ucast (a AND 0xFFFF)"

definition high_16 :: "u32 \<Rightarrow> u16" where
  "high_16 a = ucast (drop_bit 16 a AND 0xFFFF)"

end
