(* ===== verification/Console_Props.thy ===== *)
theory Console_Props
  imports Stdio
begin

text \<open>
  The properties of the console: class \<open>Terminal\<close> against the abstract screen of \<open>Vga\<close>, the
  hardware cursor, and what \<open>printf\<close> and \<open>itoa\<close> write.
\<close>

text \<open>A concrete terminal for the witnesses: the state before \<open>terminal.initialize()\<close>.\<close>

definition reset_terminal :: terminal where
  "reset_terminal = \<lparr>io_dev = \<lambda>_ _. 0, io_devw = \<lambda>_ _. 0, io_log = [], trow = 0, tcol = 0,
     tcolor = 0, tbuf = \<lambda>_. 0\<rparr>"

lemma reset_terminal_ok: "term_ok reset_terminal"
  by (simp add: term_ok_def reset_terminal_def)

text \<open>
  C20: writing any bytes to the terminal has exactly the effect of the abstract console: each
  character, backspace and newline moves one linear position and one list of 2000 cells, wrapping
  at the line end and scrolling by one line past the last cell; the cursor stays on the screen.
\<close>

theorem console_refines:
  assumes "term_ok t"
  shows "term_ok (term_write bs t) \<and>
    screen_of (term_write bs t) = fold (scr_putchar (tcolor t)) bs (screen_of t)"
  using assms by (simp add: term_write_ok term_write_refines)

lemma console_refines_witness:
  "term_ok (term_write [72, 105, 8, 10, 33] reset_terminal) \<and>
    pos (screen_of (term_write [72, 105, 8, 10, 33] reset_terminal)) = 81"
proof -
  have "pos (fold (scr_putchar 0) [72, 105, 8, 10, 33] s) = 81" if "pos s = 0" for s
    using that by (simp add: scr_putchar_def scr_goto_def Let_def)
  moreover have "pos (screen_of reset_terminal) = 0" "tcolor reset_terminal = 0"
    by (simp_all add: cursor_def reset_terminal_def)
  ultimately show ?thesis
    using console_refines [OF reset_terminal_ok, of "[72, 105, 8, 10, 33]"] by simp
qed

text \<open>
  C21: no output, however long and with whatever control characters, writes a cell outside the
  80 by 25 screen, and after it the hardware cursor stands where the software cursor does.
\<close>

theorem console_stays_inside:
  assumes "term_ok t" "bs \<noteq> []"
  shows "(\<forall>i. 2000 \<le> unat i \<longrightarrow> tbuf (term_write bs t) i = tbuf t i) \<and>
    crt_cursor (io_log (term_write bs t)) = cursor (term_write bs t) \<and> cursor (term_write bs t) < 2000"
  using assms term_write_outside [OF assms(1)] term_write_log [OF assms]
    cursor_less [OF term_write_ok [OF assms(1)]] by blast

lemma console_stays_inside_witness:
  "tbuf (term_write (replicate 5000 65) reset_terminal) 2000 = tbuf reset_terminal 2000 \<and>
    crt_cursor (io_log (term_write (replicate 5000 65) reset_terminal)) < 2000"
  using console_stays_inside [OF reset_terminal_ok, of "replicate 5000 65"] by simp

text \<open>
  \<open>initialize\<close> and \<open>clear\<close> leave every cell of the screen blank and the cursor at its start,
  whatever was there.
\<close>

theorem console_clears:
  "term_ok (term_initialize t) \<and>
   screen_of (term_initialize t) = \<lparr>cells = replicate 2000 (make_entry 32 7), pos = 0\<rparr> \<and>
   screen_of (term_clear t) = \<lparr>cells = replicate 2000 (make_entry 32 (tcolor t)), pos = 0\<rparr>"
  by (simp add: term_initialize_ok term_initialize_screen term_clear_screen)

section \<open>What a format means\<close>

text \<open>
  Numbers in positional notation, most significant digit first: \<open>%d\<close> a signed and \<open>%u\<close> an unsigned
  decimal number, \<open>%x\<close> and \<open>%p\<close> an unsigned hexadecimal one behind \<open>0x\<close>.
\<close>

definition digit_char :: "nat \<Rightarrow> u8" where
  "digit_char d = of_nat (if d < 10 then 48 + d else 55 + d)"

fun show_nat :: "nat \<Rightarrow> nat \<Rightarrow> u8 list" where
  "show_nat b n =
     (if b \<le> 1 \<or> n < b then [digit_char n] else show_nat b (n div b) @ [digit_char (n mod b)])"

declare show_nat.simps [simp del]

definition show_int :: "int \<Rightarrow> u8 list" where
  "show_int z = (if z < 0 then 45 # show_nat 10 (nat (- z)) else show_nat 10 (nat z))"

definition directive :: "(u32 \<Rightarrow> u8 list option) \<Rightarrow> char \<Rightarrow> u32 \<Rightarrow> u8 list option" where
  "directive str k a =
     (if k = CHR ''d'' then Some (show_int (sint a))
      else if k = CHR ''u'' then Some (show_nat 10 (unat a))
      else if k \<in> set ''xp'' then Some (bytes_of ''0x'' @ show_nat 16 (unat a))
      else if k = CHR ''s'' then str a
      else Some [ucast a])"

text \<open>The text of a format: each directive takes the next argument; \<open>%%\<close> and unknown letters take none.\<close>

fun formatted :: "(u32 \<Rightarrow> u8 list option) \<Rightarrow> string \<Rightarrow> u32 list \<Rightarrow> u8 list option" where
  "formatted str [] args = Some []"
| "formatted str (c # format) args =
    (if c \<noteq> CHR ''%'' then map_option ((#) (of_char c)) (formatted str format args)
     else case format of
        [] \<Rightarrow> None
      | k # format' \<Rightarrow>
        if k = CHR ''%'' then map_option ((#) 37) (formatted str format' args)
        else if k \<in> set ''duxpsc'' then
          (case args of
             [] \<Rightarrow> None
           | a # args' \<Rightarrow> do {
               piece \<leftarrow> directive str k a;
               map_option ((@) piece) (formatted str format' args')
             })
        else map_option ((@) [37, of_char k]) (formatted str format' args))"

declare formatted.simps(2) [simp del]

text \<open>
  The values that \<open>itoa\<close>, which converts every number as an \<open>int32_t\<close>, prints in that notation, and
  the directives of a format with their arguments.
\<close>

definition prints_well :: "char \<Rightarrow> u32 \<Rightarrow> bool" where
  "prints_well k a \<longleftrightarrow> (k = CHR ''d'' \<longrightarrow> a \<noteq> 0x80000000) \<and> (k \<in> set ''uxp'' \<longrightarrow> unat a < 2147483648)"

fun directives :: "string \<Rightarrow> u32 list \<Rightarrow> (char \<times> u32) list" where
  "directives [] args = []"
| "directives (c # format) args =
    (if c \<noteq> CHR ''%'' then directives format args
     else case format of
        [] \<Rightarrow> []
      | k # format' \<Rightarrow>
        if k \<in> set ''duxpsc'' then
          (case args of [] \<Rightarrow> [] | a # args' \<Rightarrow> (k, a) # directives format' args')
        else directives format' args)"

declare directives.simps(2) [simp del]

lemma digit_table_char:
  assumes "d < 16"
  shows "digit_table ! d = digit_char d"
proof -
  have "\<forall>d \<in> set [0..<16]. digit_table ! d = digit_char d"
    by (simp add: digit_table_def digit_char_def upt_rec)
  then show ?thesis using assms by simp
qed

lemma show_nat_digits:
  "1 < b \<Longrightarrow> b \<le> 16 \<Longrightarrow> rev (map ((!) digit_table) (nat_digits b n)) = show_nat b n"
proof (induction b n rule: show_nat.induct)
  case (1 b n)
  show ?case
  proof (cases "n < b")
    case True
    then show ?thesis
      using 1(3) by (simp add: nat_digits.simps [of b n] show_nat.simps [of b n] digit_table_char)
  next
    case False
    have "n mod b < 16" using 1(2,3) mod_less_divisor [of b n] by linarith
    then show ?thesis
      using 1 False
      by (simp add: nat_digits.simps [of b n] show_nat.simps [of b n] digit_table_char)
  qed
qed

lemma show_nat_text: "1 < b \<Longrightarrow> b \<le> 16 \<Longrightarrow> 0 \<notin> set (show_nat b n)"
proof (induction b n rule: show_nat.induct)
  case (1 b n)
  have dc: "digit_char d \<noteq> 0" if "d < 16" for d
  proof -
    have "\<forall>d \<in> set [0..<16]. digit_char d \<noteq> 0" by (simp add: digit_char_def upt_rec)
    then show ?thesis using that by simp
  qed
  show ?case
  proof (cases "n < b")
    case True
    then show ?thesis using dc [of n] 1(3) by (simp add: show_nat.simps [of b n])
  next
    case False
    have "n mod b < 16" using 1(2,3) mod_less_divisor [of b n] by linarith
    then show ?thesis using 1 False dc [of "n mod b"] by (simp add: show_nat.simps [of b n])
  qed
qed

lemma c_str_text: "0 \<notin> set bs \<Longrightarrow> c_str bs = bs"
  by (auto simp: c_str_def takeWhile_eq_all_conv)

lemma itoa_dec_text: "a \<noteq> 0x80000000 \<Longrightarrow> c_str (itoa m d a Dec) = show_int (sint a)"
  by (cases "0 \<le> sint a")
    (simp_all add: itoa_digits itoa_negative show_nat_digits show_int_def c_str_text show_nat_text)

lemma itoa_hex_text: "unat a < 2147483648 \<Longrightarrow> c_str (itoa m d a Hex) = show_nat 16 (unat a)"
  by (simp add: itoa_digits sint_unat_u32 show_nat_digits c_str_text show_nat_text)

lemma itoa_unsigned_text: "unat a < 2147483648 \<Longrightarrow> c_str (itoa m d a Dec) = show_nat 10 (unat a)"
proof -
  assume a: "unat a < 2147483648"
  then have "a \<noteq> 0x80000000" by auto
  then show ?thesis using a by (simp add: itoa_dec_text sint_unat_u32 show_int_def)
qed

lemma formatted_steps:
  "c \<noteq> CHR ''%'' \<Longrightarrow> formatted str (c # f) args = map_option ((#) (of_char c)) (formatted str f args)"
  "formatted str [CHR ''%''] args = None"
  "formatted str (CHR ''%'' # CHR ''%'' # f) args = map_option ((#) 37) (formatted str f args)"
  "k \<in> set ''duxpsc'' \<Longrightarrow> formatted str (CHR ''%'' # k # f) [] = None"
  "k \<in> set ''duxpsc'' \<Longrightarrow> formatted str (CHR ''%'' # k # f) (a # args) =
     do { piece \<leftarrow> directive str k a; map_option ((@) piece) (formatted str f args) }"
  "k \<notin> set ''duxpsc%'' \<Longrightarrow> formatted str (CHR ''%'' # k # f) args =
     map_option ((@) [37, of_char k]) (formatted str f args)"
  by (auto simp: formatted.simps(2))

lemma directives_steps:
  "c \<noteq> CHR ''%'' \<Longrightarrow> directives (c # f) args = directives f args"
  "k \<in> set ''duxpsc'' \<Longrightarrow> directives (CHR ''%'' # k # f) (a # args) = (k, a) # directives f args"
  "k \<notin> set ''duxpsc'' \<Longrightarrow> directives (CHR ''%'' # k # f) args = directives f args"
  by (auto simp: directives.simps(2))

lemma emitted_directive:
  assumes "k \<in> set ''duxpsc''" "directive str k a = Some piece" "prints_well k a"
  shows "emitted m d str (CHR ''%'' # k # f) (a # args) = map_option ((@) piece) (emitted m d str f args)"
proof -
  consider "k = CHR ''d''" | "k = CHR ''u''" | "k \<in> set ''xp''" | "k = CHR ''s''" | "k = CHR ''c''"
    using assms(1) by auto
  then show ?thesis
  proof cases
    case 1
    then show ?thesis using assms(2,3)
      by (auto simp: emitted_steps directive_def prints_well_def itoa_dec_text)
  next
    case 2
    then show ?thesis using assms(2,3)
      by (auto simp: emitted_steps directive_def prints_well_def itoa_unsigned_text)
  next
    case 3
    then show ?thesis using assms(2,3)
      by (auto simp: emitted_steps directive_def prints_well_def itoa_hex_text)
  next
    case 4
    then show ?thesis using assms(2) by (simp add: emitted_steps directive_def)
  next
    case 5
    then show ?thesis using assms(2) by (cases "emitted m d str f args") (auto simp: emitted_steps directive_def)
  qed
qed

lemma formatted_emitted:
  "formatted str format args = Some bs \<Longrightarrow> \<forall>(k, a) \<in> set (directives format args). prints_well k a \<Longrightarrow>
    emitted m d str format args = Some bs"
proof (induction format arbitrary: args bs rule: format_induct)
  case (Directive k f)
  consider "k \<in> set ''duxpsc''" | "k = CHR ''%''" | "k \<notin> set ''duxpsc%''" by auto
  then show ?case
  proof cases
    case 1
    then obtain a as where args: "args = a # as"
      using Directive.prems(1) by (cases args) (auto simp: formatted_steps)
    obtain piece rest where p: "directive str k a = Some piece" "formatted str f as = Some rest" "bs = piece @ rest"
      using Directive.prems(1) unfolding args formatted_steps(5) [OF 1] by (auto simp: bind_eq_Some_conv)
    have w: "prints_well k a" "\<forall>(k, a) \<in> set (directives f as). prints_well k a"
      using Directive.prems(2) unfolding args directives_steps(2) [OF 1] by simp_all
    show ?thesis
      unfolding args emitted_directive [OF 1 p(1) w(1)] using Directive.IH [OF p(2) w(2)] p(3) by simp
  next
    case 2
    then have "directives (CHR ''%'' # k # f) args = directives f args" by (intro directives_steps) simp
    then show ?thesis using Directive 2 by (auto simp: formatted_steps emitted_steps)
  next
    case 3
    then have "directives (CHR ''%'' # k # f) args = directives f args" by (intro directives_steps) simp
    then show ?thesis using Directive 3 by (auto simp: formatted_steps(6) emitted_steps(9) simp del: set_simps)
  qed
qed (auto simp: formatted_steps emitted_steps directives_steps)

text \<open>
  C22: \<open>printf\<close> writes what the format means and changes nothing but the console: each \<open>%s\<close> replaced
  by the string that its argument points to, \<open>%d\<close> and \<open>%u\<close> by signed and unsigned decimal numbers,
  \<open>%x\<close> and \<open>%p\<close> by hexadecimal ones, \<open>%c\<close> by a character, \<open>%%\<close> by a percent sign. It does so for the
  values that \<open>prints_well\<close> admits: \<open>%d\<close> of all but \<open>INT_MIN\<close>, the others below \<open>2 ^ 31\<close>. Above that,
  \<open>%u\<close> does not print the unsigned number, as the comment in the code says, but the negative one with
  the same 32 bits.
\<close>

theorem printf_writes:
  assumes "\<forall>p bs. str p = Some bs \<longrightarrow> cstring (mem s) p bs"
    and "formatted str format args = Some bs" "\<forall>(k, a) \<in> set (directives format args). prints_well k a"
  shows "printf format args s = Some (s\<lparr>con := term_write bs (con s)\<rparr>) \<and>
    (\<forall>w. 2147483648 < unat w \<longrightarrow>
      printf ''%u'' [w] s = Some (s\<lparr>con := term_write (45 # show_nat 10 (4294967296 - unat w)) (con s)\<rparr>))"
proof -
  have "printf format args s = Some (s\<lparr>con := term_write bs (con s)\<rparr>)"
    by (rule printf_emits [OF _ formatted_emitted [OF assms(2,3)]]) (use assms(1) in auto)
  moreover have "printf ''%u'' [w] s = Some (s\<lparr>con := term_write (45 # show_nat 10 (4294967296 - unat w)) (con s)\<rparr>)"
    if w: "2147483648 < unat w" for w
  proof -
    have u: "uint w = int (unat w)" by simp
    have "\<not> uint w < 2147483648" unfolding u using w by linarith
    then have n: "sint w = int (unat w) - 4294967296" unfolding sint_u32 u [symmetric] by simp
    have "sint w < 0" "nat (- sint w) = 4294967296 - unat w"
      unfolding n using unat_u32_less [of w] by linarith+
    moreover have "w \<noteq> 0x80000000" using w by auto
    ultimately have "c_str (itoa m d w Dec) = 45 # show_nat 10 (4294967296 - unat w)" for m d
      by (simp add: itoa_dec_text show_int_def)
    then have "emitted (mem s) (sym s ''digits'') str ''%u'' [w] = Some (45 # show_nat 10 (4294967296 - unat w))"
      by (simp add: emitted_steps)
    then show ?thesis by (rule printf_emits [rotated]) (use assms(1) in auto)
  qed
  ultimately show ?thesis by blast
qed

definition reset_machine :: machine where
  "reset_machine = \<lparr>con = reset_terminal, mem = (\<lambda>_. 0)(100 := 104, 101 := 105),
     sym = \<lambda>_. 4096, lit = \<lambda>_. 0\<rparr>"

lemma printf_writes_witness:
  "printf ''%s %d%% %x'' [100, - 7, 0xB8] reset_machine =
      Some (reset_machine\<lparr>con := term_write (bytes_of ''hi -7% 0xB8'') (con reset_machine)\<rparr>) \<and>
    printf ''%u'' [0xFFFFFFFF] reset_machine =
      Some (reset_machine\<lparr>con := term_write (bytes_of ''-1'') (con reset_machine)\<rparr>)"
proof -
  let ?str = "\<lambda>p. if p = 100 then Some [104, 105] else None"
  have str: "\<forall>p bs. ?str p = Some bs \<longrightarrow> cstring (mem reset_machine) p bs"
    by (simp add: reset_machine_def)
  have f: "formatted ?str ''%s %d%% %x'' [100, - 7, 0xB8] = Some (bytes_of ''hi -7% 0xB8'')"
    by (simp add: formatted.simps(2) directive_def show_int_def sint_u32 show_nat.simps digit_char_def)
  have w: "\<forall>(k, a) \<in> set (directives ''%s %d%% %x'' [100, - 7, 0xB8]). prints_well k a"
    by (simp add: directives.simps(2) prints_well_def)
  note p = printf_writes [OF str f w]
  have "printf ''%u'' [0xFFFFFFFF] reset_machine =
      Some (reset_machine\<lparr>con := term_write (45 # show_nat 10 1) (con reset_machine)\<rparr>)"
    using conjunct2 [OF p, rule_format, of "0xFFFFFFFF"] by simp
  moreover have "45 # show_nat 10 1 = bytes_of ''-1''"
    by (simp add: show_nat.simps digit_char_def)
  ultimately show ?thesis using conjunct1 [OF p] by simp
qed

text \<open>
  C23: reading the digits that \<open>itoa\<close> writes gives the value back: in decimal for every \<open>int32_t\<close>
  but \<open>INT_MIN\<close>, in hexadecimal below \<open>2 ^ 31\<close>; and the 32-byte buffer of the caller suffices for
  every value.
\<close>

theorem itoa_roundtrip:
  "(w \<noteq> 0x80000000 \<longrightarrow> read_int 10 (itoa m d w Dec) = sint w) \<and>
   (unat w < 2147483648 \<longrightarrow> read_int 16 (itoa m d w Hex) = int (unat w)) \<and>
   length (itoa m d w r) < 32"
  using itoa_dec_read itoa_hex_read itoa_length [of m d w r] by auto

lemma itoa_roundtrip_witness:
  "read_int 10 (itoa (\<lambda>_. 0) 0 (- 120) Dec) = - 120 \<and> read_int 16 (itoa (\<lambda>_. 0) 0 0xB8000 Hex) = 0xB8000"
  using itoa_roundtrip [where w = "- 120" and m = "\<lambda>_. 0" and d = 0]
    itoa_roundtrip [where w = "0xB8000" and m = "\<lambda>_. 0" and d = 0]
  by (simp add: sint_u32)

text \<open>
  From \<open>2 ^ 31\<close> on, \<open>%x\<close> and \<open>%p\<close> print one character only, and unless the last hexadecimal digit is
  0 that character is a byte of the memory in front of the table \<open>digits\<close>.
\<close>

theorem itoa_hex_out_of_table:
  assumes "2147483648 \<le> uint w"
  shows "\<exists>k \<in> {0..15}. itoa m d w Hex = [if k = 0 then 48 else m (d - of_int k)] \<and>
    k = (4294967296 - uint w) mod 16"
proof (rule bexI [where x = "(4294967296 - uint w) mod 16"])
  let ?k = "(4294967296 - uint w) mod 16"
  have k: "0 \<le> ?k" "?k < 16"
    by simp_all
  then have "digit_at m d (- ?k) = (if ?k = 0 then 48 else m (d - of_int ?k))"
    by (auto simp: digit_at_def digit_table_def)
  with assms show "itoa m d w Hex = [if ?k = 0 then 48 else m (d - of_int ?k)] \<and> ?k = ?k"
    by (simp add: itoa_hex_negative)
  show "?k \<in> {0..15}" using k by simp
qed

lemma itoa_hex_out_of_table_witness:
  "itoa ((\<lambda>_. 0)(4095 := 88)) 4096 0xFFFFFFFF Hex = [88]"
  using itoa_hex_out_of_table [of "0xFFFFFFFF" "(\<lambda>_. 0)(4095 := 88)" 4096] by auto

end
