(* ===== verification/Utils_Props.thy ===== *)
theory Utils_Props
  imports Utils Console_Props
begin

text \<open>
  \<open>int_to_string\<close> against \<open>itoa\<close>: the two conversions of the program agree on every number but 0,
  for which \<open>int_to_string\<close> writes the empty string, and \<open>INT_MIN\<close>.
\<close>

section \<open>The digits\<close>

lemma digit_char: "n < 10 \<Longrightarrow> digit_table ! n = of_nat (n + 48)"
proof -
  have "\<forall>n \<in> set [0..<10]. digit_table ! n = of_nat (n + 48)"
    by code_simp
  then show "n < 10 \<Longrightarrow> digit_table ! n = of_nat (n + 48)" by simp
qed

fun digits10 :: "nat \<Rightarrow> u8 list" where
  "digits10 n = (if n = 0 then [] else of_nat (n mod 10 + 48) # digits10 (n div 10))"

declare digits10.simps [simp del]

lemma digits10_table: "0 < n \<Longrightarrow> digits10 n = map ((!) digit_table) (nat_digits 10 n)"
proof (induction n rule: digits10.induct)
  case (1 n)
  then show ?case
    by (subst digits10.simps, subst nat_digits.simps)
      (auto simp: digits10.simps [of 0] digit_char)
qed

lemma digits10_nonzero: "0 \<notin> set (digits10 n)"
proof (induction n rule: digits10.induct)
  case (1 n)
  have "(of_nat (n mod 10 + 48) :: u8) \<noteq> 0"
  proof
    assume "(of_nat (n mod 10 + 48) :: u8) = 0"
    then have "unat (of_nat (n mod 10 + 48) :: u8) = 0"
      by (simp only: unsigned_0)
    moreover have "unat (of_nat (n mod 10 + 48) :: u8) = n mod 10 + 48"
      by (subst unat_of_nat, rule mod_less) simp
    ultimately show False by simp
  qed
  with 1 show ?case
    by (subst digits10.simps) auto
qed

text \<open>The loop stores them upwards from the buffer.\<close>

definition holds :: "ram \<Rightarrow> u32 \<Rightarrow> u8 list \<Rightarrow> bool" where
  "holds m p bs \<longleftrightarrow> (\<forall>i < length bs. m (p + of_nat i) = bs ! i)"

lemma store_digits_holds:
  assumes "fits buffer 12" "holds m buffer bs" "length bs + length (digits10 n) < 12"
  shows "\<exists>m'. store_digits m buffer (of_nat (length bs)) (int n) = (m', of_nat (length bs + length (digits10 n))) \<and>
    holds m' buffer (bs @ digits10 n) \<and> (\<forall>a. \<not> in_region a buffer 12 \<longrightarrow> m' a = m a)"
  using assms(2,3)
proof (induction n arbitrary: m bs rule: digits10.induct)
  case (1 n)
  show ?case
  proof (cases "n = 0")
    case True
    with 1 show ?thesis
      by (simp add: store_digits.simps digits10.simps)
  next
    case False
    let ?c = "of_nat (n mod 10 + 48) :: u8"
    let ?m = "m(buffer + of_nat (length bs) := ?c)"
    have len: "length bs < 11"
      using 1(3) False by (simp add: digits10.simps [of n])
    have "buffer + of_nat i \<noteq> buffer + of_nat (length bs)" if "i < length bs" for i
      using that len assms(1) by (simp only: u32_eq_iff fits_def) (simp add: unat_add_of_nat)
    then have h: "holds ?m buffer (bs @ [?c])"
      using 1(2) by (auto simp: holds_def nth_append less_Suc_eq)
    have d: "int n smod 10 = int (n mod 10)" "int n sdiv 10 = int (n div 10)"
      using False by (simp_all add: signed_modulo_int_def signed_divide_int_def sgn_if zmod_int zdiv_int
          minus_mult_div_eq_mod [symmetric])
    have "(word_of_int (int (n mod 10) + 48) :: u8) = ?c"
      by simp
    then have step: "store_digits m buffer (of_nat (length bs)) (int n) =
        store_digits ?m buffer (of_nat (length (bs @ [?c]))) (int (n div 10))"
      using False by (subst store_digits.simps) (simp add: d ac_simps)
    have "?m a = m a" if "\<not> in_region a buffer 12" for a
      using that in_region_offset [OF assms(1), of "length bs"] len by auto
    then show ?thesis
      using 1(1) [OF False h] 1(3) False unfolding step
      by (auto simp: digits10.simps [of n] ac_simps simp del: fun_upd_apply)
  qed
qed

section \<open>The reversal\<close>

lemma offset_inj:
  "fits p n \<Longrightarrow> i < n \<Longrightarrow> j < n \<Longrightarrow> p + of_nat i = p + (of_nat j :: u32) \<longleftrightarrow> i = j"
  by (simp only: u32_eq_iff fits_def) (simp add: unat_add_of_nat)

lemma reverse_loop:
  fixes m :: ram
  assumes "fits p n" "k \<le> n div 2"
  defines "m' \<equiv> fold (\<lambda>j m. let temp = m (p + of_nat j); m = m(p + of_nat j := m (p + of_nat (n - j - 1)))
     in m(p + of_nat (n - j - 1) := temp)) [0..<k] m"
  shows "(\<forall>i < n. m' (p + of_nat i) = (if i < k \<or> n - 1 - i < k then m (p + of_nat (n - 1 - i)) else m (p + of_nat i))) \<and>
    (\<forall>a. \<not> in_region a p n \<longrightarrow> m' a = m a)"
  using assms(2) unfolding m'_def
proof (induction k)
  case 0
  then show ?case by simp
next
  case (Suc k)
  let ?f = "\<lambda>j m. let temp = m (p + of_nat j); m = m(p + of_nat j := m (p + of_nat (n - j - 1)))
     in m(p + of_nat (n - j - 1) := temp)"
  define m1 where "m1 = fold ?f [0..<k] m"
  have le: "k \<le> n div 2"
    using Suc.prems by simp
  have IH: "\<forall>i < n. m1 (p + of_nat i) = (if i < k \<or> n - 1 - i < k then m (p + of_nat (n - 1 - i)) else m (p + of_nat i))"
    "\<forall>a. \<not> in_region a p n \<longrightarrow> m1 a = m a"
    using Suc.IH [OF le] unfolding m1_def by (rule conjunct1, rule conjunct2)
  have k: "k < n" "n - k - 1 < n" "k < n - k - 1"
    using Suc.prems by auto
  have fold: "fold ?f [0..<Suc k] m = ?f k m1"
    by (simp add: m1_def)
  have reg: "in_region (p + of_nat k) p n" "in_region (p + of_nat (n - k - 1)) p n"
    using k assms(1) by (simp_all add: in_region_offset del: of_nat_diff)
  show ?case
  proof (intro conjI allI impI)
    fix a assume a: "\<not> in_region a p n"
    then have "a \<noteq> p + of_nat k" "a \<noteq> p + of_nat (n - k - 1)"
      using reg by auto
    then have "?f k m1 a = m1 a"
      by (simp only: Let_def fun_upd_apply if_False)
    also have "\<dots> = m a"
      using IH(2) a by blast
    finally show "fold ?f [0..<Suc k] m a = m a"
      unfolding fold .
  next
    fix i assume i: "i < n"
    note inj = offset_inj [OF assms(1) i]
    have "?f k m1 (p + of_nat i) = (if i = n - k - 1 then m1 (p + of_nat k)
        else if i = k then m1 (p + of_nat (n - k - 1)) else m1 (p + of_nat i))"
      unfolding Let_def fun_upd_apply inj [OF k(1)] inj [OF k(2)]
      using k offset_inj [OF assms(1) k(2,1)] by simp
    also have "\<dots> = (if i < Suc k \<or> n - 1 - i < Suc k then m (p + of_nat (n - 1 - i)) else m (p + of_nat i))"
    proof -
      consider "i = n - k - 1" | "i = k" "i \<noteq> n - k - 1" | "i \<noteq> k" "i \<noteq> n - k - 1" by blast
      then show ?thesis
      proof cases
        case 1
        then have "n - 1 - i = k" using k by simp
        then show ?thesis using 1 k IH(1) by (simp del: of_nat_diff)
      next
        case 2
        then have "n - 1 - i = n - k - 1" by simp
        then show ?thesis using 2 k IH(1) by (simp del: of_nat_diff)
      next
        case 3
        then have "i < Suc k \<or> n - 1 - i < Suc k \<longleftrightarrow> i < k \<or> n - 1 - i < k" using i by auto
        then show ?thesis using 3 i IH(1) by simp
      qed
    qed
    finally show "fold ?f [0..<Suc k] m (p + of_nat i) =
        (if i < Suc k \<or> n - 1 - i < Suc k then m (p + of_nat (n - 1 - i)) else m (p + of_nat i))"
      unfolding fold .
  qed
qed

lemma reverse_bytes_holds:
  assumes "fits p n" "holds m p bs" "length bs = n"
  shows "holds (reverse_bytes m p n) p (rev bs)" "\<not> in_region a p n \<Longrightarrow> reverse_bytes m p n a = m a"
proof -
  note r = reverse_loop [OF assms(1) order_refl, of m, folded reverse_bytes_def]
  show "\<not> in_region a p n \<Longrightarrow> reverse_bytes m p n a = m a"
    using r by (simp add: reverse_bytes_def)
  show "holds (reverse_bytes m p n) p (rev bs)"
    unfolding holds_def
  proof (intro allI impI)
    fix i assume "i < length (rev bs)"
    then have i: "i < n" using assms(3) by simp
    have "reverse_bytes m p n (p + of_nat i) =
        (if i < n div 2 \<or> n - 1 - i < n div 2 then m (p + of_nat (n - 1 - i)) else m (p + of_nat i))"
      using r i by (simp add: reverse_bytes_def)
    also have "\<dots> = m (p + of_nat (n - 1 - i))"
    proof (cases "i < n div 2 \<or> n - 1 - i < n div 2")
      case False
      then have "n - 1 - i = i" using i by auto
      with False show ?thesis by simp
    qed simp
    also have "\<dots> = bs ! (n - 1 - i)"
      using assms(2,3) i unfolding holds_def by (simp del: of_nat_diff)
    also have "\<dots> = rev bs ! i"
      using assms(3) i by (simp add: rev_nth)
    finally show "reverse_bytes m p n (p + of_nat i) = rev bs ! i" .
  qed
qed

section \<open>The conversion\<close>

lemma utils_strlen_cstring:
  "cstring m (p + len) bs \<Longrightarrow> utils_strlen m p len = Some (len + of_nat (length bs))"
proof (induction bs arbitrary: len)
  case Nil
  then show ?case by (simp add: utils_strlen.simps)
next
  case (Cons b bs)
  then show ?case
    using Cons.IH [of "len + 1"] by (subst utils_strlen.simps) (simp add: add.assoc)
qed

lemma digits10_length: "n < 10 ^ 10 \<Longrightarrow> length (digits10 n) \<le> 10"
proof (cases "n = 0")
  case False
  assume "n < 10 ^ 10"
  then have "length (nat_digits 10 n) \<le> 10"
    by (intro nat_digits_length) simp_all
  then show ?thesis
    using False by (simp add: digits10_table)
qed (simp add: digits10.simps)

text \<open>From the stored bytes, terminated, to the reversed string.\<close>

lemma finish_string:
  assumes "fits p 12" "holds m p bs" "length bs < 12" "0 \<notin> set bs"
  shows "\<exists>m'. do { len \<leftarrow> utils_strlen (m(p + of_nat (length bs) := 0)) p 0;
      Some (reverse_bytes (m(p + of_nat (length bs) := 0)) p (nat (sint len))) } = Some m' \<and>
    cstring m' p (rev bs) \<and> (\<forall>a. \<not> in_region a p 12 \<longrightarrow> m' a = m a)"
proof -
  let ?n = "length bs" and ?m = "m(p + of_nat (length bs) := 0)"
  have sub: "p + of_nat i \<noteq> p + of_nat ?n" if "i < ?n" for i
    using that assms(1,3) by (simp only: u32_eq_iff fits_def) (simp add: unat_add_of_nat)
  then have h: "holds ?m p bs"
    using assms(2) by (auto simp: holds_def)
  then have "cstring ?m p bs"
    using assms(4) by (simp add: cstring_iff holds_def)
  then have len: "utils_strlen ?m p 0 = Some (of_nat ?n)"
    using utils_strlen_cstring [of ?m p 0 bs] by simp
  have "unat (of_nat ?n :: u32) = ?n"
    using assms(3) by (intro unat_of_nat_u32) simp
  then have n: "nat (sint (of_nat ?n :: u32)) = ?n"
    using sint_unat_u32 [of "of_nat ?n"] assms(3) by simp
  have fit: "fits p ?n"
    using assms(1,3) by (simp add: fits_def)
  note r = reverse_bytes_holds [OF fit h refl]
  have reg: "\<not> in_region (p + of_nat ?n) p ?n" "in_region (p + of_nat ?n) p 12"
    using assms(1,3) in_region_offset [OF assms(1) assms(3)] by (simp_all add: in_region_def fits_def unat_add_of_nat)
  have "cstring (reverse_bytes ?m p ?n) p (rev bs)"
    using r(1) r(2) [OF reg(1)] assms(4) by (simp add: cstring_iff holds_def)
  moreover have "reverse_bytes ?m p ?n a = m a" if "\<not> in_region a p 12" for a
  proof -
    have "\<not> in_region a p ?n"
      using that assms(3) by (auto simp: in_region_def)
    then have "reverse_bytes ?m p ?n a = ?m a"
      by (rule r(2))
    then show ?thesis
      using that reg(2) by auto
  qed
  ultimately show ?thesis
    by (simp add: len n del: fun_upd_apply)
qed

lemma holds_snoc:
  assumes "fits p 12" "holds m p bs" "length bs < 12"
  shows "holds (m(p + of_nat (length bs) := c)) p (bs @ [c])"
  using assms offset_inj [OF assms(1) _ assms(3)]
  by (auto simp: holds_def nth_append less_Suc_eq)

section \<open>Properties\<close>

text \<open>
  C39: \<open>int_to_string\<close> writes into 12 bytes of the buffer, and for every number but 0 and \<open>INT_MIN\<close> it
  leaves there the string that \<open>itoa\<close> prints; for 0 it leaves the empty string.
\<close>

theorem int_to_string_is_itoa:
  assumes "fits buffer 12" "num \<noteq> 0x80000000"
  shows "\<exists>m'. int_to_string num buffer m = Some m' \<and>
    cstring m' buffer (if num = 0 then [] else itoa m d num Dec) \<and>
    (\<forall>a. \<not> in_region a buffer 12 \<longrightarrow> m' a = m a)"
proof -
  let ?neg = "sint num < 0"
  let ?v = "sint (if ?neg then - num else num)"
  define n where "n = nat ?v"
  have v: "?v = int n" "n = nat \<bar>sint num\<bar>"
    using assms(2) by (auto simp: n_def sint_neg_u32)
  have n_less: "n < 10 ^ 10"
    using sint_range_u32 [of num] v(2) by auto
  have len: "length (digits10 n) \<le> 10"
    by (rule digits10_length [OF n_less])
  obtain m1 where m1: "store_digits m buffer 0 (int n) = (m1, of_nat (length (digits10 n)))"
    "holds m1 buffer (digits10 n)" "\<forall>a. \<not> in_region a buffer 12 \<longrightarrow> m1 a = m a"
    using store_digits_holds [OF assms(1), of m "[]" n] len by (auto simp: holds_def)
  have nz: "num = 0 \<longleftrightarrow> n = 0"
    using v(2) by (metis abs_eq_0 nat_0_iff abs_ge_zero antisym signed_0 signed_word_eqI)
  have digs: "0 < n \<Longrightarrow> rev (digits10 n) = rev (map ((!) digit_table) (nat_digits 10 n))"
    by (simp add: digits10_table)
  show ?thesis
  proof (cases ?neg)
    case True
    let ?m = "m1(buffer + of_nat (length (digits10 n)) := 45)"
    have "holds ?m buffer (digits10 n @ [45])"
      using holds_snoc [OF assms(1) m1(2)] len by simp
    moreover have "0 \<notin> set (digits10 n @ [45])"
      using digits10_nonzero [of n] by simp
    ultimately obtain m' where m': "do { len \<leftarrow> utils_strlen (?m(buffer + of_nat (length (digits10 n @ [45])) := 0)) buffer 0;
        Some (reverse_bytes (?m(buffer + of_nat (length (digits10 n @ [45])) := 0)) buffer (nat (sint len))) } = Some m'"
      "cstring m' buffer (rev (digits10 n @ [45]))" "\<forall>a. \<not> in_region a buffer 12 \<longrightarrow> m' a = ?m a"
      using finish_string [OF assms(1), of ?m "digits10 n @ [45]"] len by auto
    have "rev (digits10 n @ [45]) = itoa m d num Dec" "num \<noteq> 0"
      using True assms(2) v(2) digs by (auto simp: itoa_negative)
    moreover have "int_to_string num buffer m = Some m'"
      using True m'(1) m1(1) v(1) by (simp add: int_to_string_def Let_def ac_simps del: fun_upd_apply)
    moreover have "in_region (buffer + of_nat (length (digits10 n))) buffer 12"
      using len by (intro in_region_offset [OF assms(1)]) simp
    ultimately show ?thesis
      using m'(2,3) m1(3) by auto
  next
    case False
    obtain m' where m': "do { len \<leftarrow> utils_strlen (m1(buffer + of_nat (length (digits10 n)) := 0)) buffer 0;
        Some (reverse_bytes (m1(buffer + of_nat (length (digits10 n)) := 0)) buffer (nat (sint len))) } = Some m'"
      "cstring m' buffer (rev (digits10 n))" "\<forall>a. \<not> in_region a buffer 12 \<longrightarrow> m' a = m1 a"
      using finish_string [OF assms(1) m1(2)] len digits10_nonzero by auto
    have "rev (digits10 n) = (if num = 0 then [] else itoa m d num Dec)"
      using False nz v(2) digs by (auto simp: itoa_digits digits10.simps [of 0])
    moreover have "int_to_string num buffer m = Some m'"
      using False m'(1) m1(1) v(1) by (simp add: int_to_string_def Let_def del: fun_upd_apply)
    ultimately show ?thesis
      using m'(2,3) m1(3) by auto
  qed
qed

lemma int_to_string_is_itoa_witness:
  "\<exists>m'. int_to_string 0 100 (\<lambda>_. 7) = Some m' \<and> cstring m' 100 []"
  using int_to_string_is_itoa [of 100 0 "\<lambda>_. 7"] by (auto simp: fits_def)

end
