(* ===== verification/Debug.thy ===== *)
theory Debug
  imports Stdio
begin

text \<open>
  The message functions of \<open>src/kernel/debug.c\<close> and the \<open>abort\<close> of \<open>libc/stdlib/abort.c\<close>. A
  processor that halts with interrupts disabled is the fault \<open>Halted\<close>; a loop without a halt does
  not return.
\<close>

definition panic :: "u32 \<Rightarrow> 'a machine_scheme \<Rightarrow> (fault + 'a machine_scheme) option" where
  "panic message s = fbind (fret (printf ''[PANIC] %s\<newline>'' [message] s)) (\<lambda>s. Some (Inl Halted))"

definition debug :: "u32 \<Rightarrow> 'a machine_scheme \<Rightarrow> 'a machine_scheme option" where
  "debug message s = printf ''[DEBUG] %s\<newline>'' [message] s"

definition success :: "u32 \<Rightarrow> 'a machine_scheme \<Rightarrow> 'a machine_scheme option" where
  "success message s = printf ''[SUCCESS] %s\<newline>'' [message] s"

definition error :: "u32 \<Rightarrow> 'a machine_scheme \<Rightarrow> 'a machine_scheme option" where
  "error message s = printf ''[ERROR] %s\<newline>'' [message] s"

definition test :: "u32 \<Rightarrow> 'a machine_scheme \<Rightarrow> 'a machine_scheme option" where
  "test message s = printf ''[TEST] %s\<newline>'' [message] s"

text \<open>The Makefile does not define \<open>__is_libk\<close>, so the second branch is compiled.\<close>

partial_function (option) spin :: "'a machine_scheme \<Rightarrow> 'a machine_scheme option" where
  "spin s = spin s"

definition abort :: "'a machine_scheme \<Rightarrow> 'a machine_scheme option" where
  "abort s = do { s \<leftarrow> printf ''abort()\<newline>'' [] s; spin s }"

end
