(* ===== verification/Spec2Isabelle.thy ===== *)
theory Spec2Isabelle
  imports Path_Props Live_Session Heap_Test Pmm_Props Utils_Props Debug
begin

text \<open>
  FirstKernel: a small kernel for the i686. This development models its C++ and C code from the
  hardware accesses up and proves what the parts do, and what they do together: the kernel boots to
  its shell, and what is typed there changes the directory as the commands promise.

  The program and its parts. GRUB loads the image, \<open>boot.s\<close> calls \<open>kernel_main\<close>
  (\<open>src/kernel/kernel.cpp\<close>), which initializes the terminal, the segment descriptors, the interrupt
  controllers and descriptors, paging, the heap, the file system with its file \<open>README\<close>, the keyboard,
  the timer and the shell, and then halts in a loop. From then on everything happens in interrupt
  handlers: the timer counts, the keyboard handler decodes a scan code and passes it to the shell's
  line editor, and Enter runs a command, which works on the file system, which allocates on the heap.
  Output goes through \<open>printf\<close> to the terminal.

  How the code is modelled. The state is one extensible record that grows along the imports: the
  ports and the terminal (\<open>io_state\<close>, \<open>terminal\<close>) as the field \<open>con\<close> of \<open>machine\<close>, beside memory and the
  addresses of symbols and literals; then \<open>gdt_state\<close>, \<open>idt_state\<close>, \<open>isr_state\<close>, \<open>timer_state\<close>, \<open>vmm\<close> (the
  control registers), \<open>heap\<close>, \<open>ramfs\<close>, \<open>keyboard\<close> and \<open>shell\<close>; the memory manager is \<open>pmm\<close>. Memory is
  one byte per 32-bit address; structures, arrays and strings are bytes in it, a pointer is an
  address, and arithmetic wraps. An operation that may not return has an \<open>option\<close> result; a processor
  fault or a halt is a value of the sum type. What a device answers is an arbitrary function of all
  port accesses before, and the addresses of static objects and literals are arbitrary functions
  \<open>sym\<close> and \<open>lit\<close>: they are parameters, and properties state what they need of them (\<open>loaded\<close>,
  \<open>keyboard_live\<close>, \<open>shell_image\<close>, \<open>path_buffer\<close>).

  Theories and sources:
    \<^item> \<open>Prelude\<close>, \<open>RAM\<close>: words, outcomes, loops; memory, regions, NUL-terminated strings
    \<^item> \<open>Port_IO\<close>, \<open>Vga\<close>, \<open>Stdio\<close>: \<open>port_io.cpp\<close>, \<open>vga.cpp\<close>, \<open>libc/stdio/stdio.cpp\<close>; properties in \<open>Console_Props\<close>
    \<^item> \<open>CString\<close>: \<open>libc/string/string.cpp\<close>; properties in \<open>CString_Props\<close>
    \<^item> \<open>Gdt\<close>, \<open>Idt\<close>, \<open>Isr\<close>, \<open>Pic\<close>: \<open>gdt.cpp\<close>, \<open>idt.cpp\<close>, \<open>isr.cpp\<close>, \<open>pic.cpp\<close> and \<open>timer.cpp\<close>; properties in \<open>Boot_Props\<close>
    \<^item> \<open>Paging\<close>: \<open>paging.cpp\<close>; the processor's walk and the tables in \<open>Paging_Rep\<close>, properties in \<open>Paging_Props\<close>
    \<^item> \<open>Heap\<close>: \<open>heap.cpp\<close>; the abstract heap and the contract in \<open>Heap_Spec\<close>, the refinement in \<open>Heap_Rep\<close>,
      properties in \<open>Heap_Props\<close>; \<open>Heap_Test\<close>: \<open>tests/heaptest.cpp\<close>
    \<^item> \<open>Pmm\<close>: \<open>memory.cpp\<close> and \<open>tests/memtest.cpp\<close>; contract and refinement in \<open>Pmm_Rep\<close>, properties in \<open>Pmm_Props\<close>
    \<^item> \<open>Utils\<close>, \<open>Debug\<close>: \<open>utils.cpp\<close>; \<open>debug.c\<close> and \<open>abort.c\<close>; properties in \<open>Utils_Props\<close>
    \<^item> \<open>Ramfs\<close>, \<open>Syscalls\<close>: \<open>ramfs.cpp\<close>, \<open>syscalls.cpp\<close>; the abstract store in \<open>Fs_Rep\<close>, operations on it in
      \<open>Fs_Ops\<close>, \<open>Fs_Remove\<close>, \<open>Fs_Data\<close> and \<open>Fs_Content\<close>, properties in \<open>Ramfs_Props\<close> and \<open>Path_Props\<close>
    \<^item> \<open>Keymap\<close>, \<open>Keyboard\<close>: \<open>keyboard.cpp\<close>; properties in \<open>Keyboard_Props\<close>
    \<^item> \<open>Shell\<close>: \<open>shell.cpp\<close>; the line editor and the dispatcher in \<open>Shell_Props\<close>, the file commands in
      \<open>Shell_Files\<close>, whole sessions in \<open>Shell_Session\<close>
    \<^item> \<open>Kernel\<close>: \<open>kernel.cpp\<close>; the running system in \<open>System_Props\<close>, the boot in \<open>Boot_Files\<close>, the system with
      its files in \<open>Files_Props\<close>, sessions driven by hardware interrupts in \<open>Live_Session\<close>

  What is proved. The terminal refines an abstract console, and \<open>printf\<close> writes what the
  format means.
  The string functions meet their C specifications. The heap refines first-fit allocation, and any
  client that keeps to its blocks has them undisturbed (locale \<open>allocator\<close>, interpreted as \<open>kheap\<close>).
  Frames are handed out once (locale \<open>frame_pool\<close>, interpreted as \<open>pool\<close>). Paging maps the first
  16 MiB to themselves, writable. Interrupts are acknowledged and dispatched. The file system refines a store
  of nodes: creation, removal, reading, writing, lookup by name and by path. The line editor refines
  list editing, and sessions of commands refine a specification on directory entries (locale
  \<open>directory_shell\<close>, interpreted as \<open>shell\<close>). Invariants hold in all reachable states of the running
  system, \<open>kernel_main\<close> reaches the first prompt, and from there any interleaving of keyboard and timer
  interrupts whose scan codes spell lines of file commands, unknown words or nothing does what they
  stand for, up to the call of a null pointer that a line without words is. Where the code does not do what it means to, the
  theorem states what it does: the page fault report, \<open>%x\<close> and \<open>%u\<close> from \<open>2 ^ 31\<close> on, huge allocations,
  keys that cannot be typed, paths whose last component is ignored, names that are cut, and names that
  overrun an array on the stack.

  Bounds. Loops over a fixed number of turns are recursion on that number; loops to a NUL or on a
  device are partial functions, and that they return is proved where it holds. A command line needs
  at most 376 free bytes of heap in one piece (for \<open>touch\<close> the node, its data of 256 bytes and two
  block headers); after the boot 8388100 are free. Directories hold 32 entries, names 63 bytes,
  lines 255, the component buffer of a path 128.

  Not modelled: \<open>boot.s\<close>, \<open>isr_stub.s\<close>, \<open>idt_asm.s\<close> and \<open>linker.ld\<close>, which are assembly and a linker
  script (their effects, such as the pushed vector and the loaded registers, stand at the interfaces
  of the models); \<open>multiboot.h\<close>, a third-party header of which one member is read, at its offset, by
  \<open>pmm_initialize\<close>; \<open>tests/pagetest.cpp\<close>, which is empty; the build files. The processor has no
  translation buffer in the model, and interrupts do not nest, as the gates clear the interrupt flag.
\<close>

end
